(* ===== verification/Prelude.thy ===== *)
theory Prelude
  imports Main "HOL-Library.Word"
begin

unbundle bit_operations_syntax

text \<open>
  Shared vocabulary of the development: the C integer types of \<^verbatim>\<open>kernel/types.h\<close>, the limits
  of \<^verbatim>\<open>kernel/param.h\<close> and \<^verbatim>\<open>kernel/fs.h\<close>, the result type of kernel code (a value, a call of
  \<^verbatim>\<open>panic\<close>, or a wait that only another process or an interrupt can end), little-endian access
  to byte arrays, and the generic facts on lists, words and byte arrays that the component
  theories share through the collections \<open>res_simps\<close>, \<open>byte_simps\<close> and \<open>param_defs\<close>.
\<close>

named_theorems res_simps \<open>evaluation of the result monad\<close>
named_theorems byte_simps \<open>reading back little-endian stores\<close>
named_theorems param_defs \<open>the numeric limits of the kernel\<close>

section \<open>C integer types\<close>

type_synonym byte = "8 word"
type_synonym ushort = "16 word"
type_synonym uint = "32 word"
type_synonym uint64 = "64 word"

text \<open>A byte array, indexed from its start; memory is one such array.\<close>

type_synonym bytes = "nat \<Rightarrow> byte"

section \<open>Limits\<close>

definition NPROC :: nat where [param_defs]: "NPROC = 64"
definition NOFILE :: nat where [param_defs]: "NOFILE = 16"
definition NFILE :: nat where [param_defs]: "NFILE = 100"
definition NINODE :: nat where [param_defs]: "NINODE = 50"
definition NDEV :: nat where [param_defs]: "NDEV = 10"
definition ROOTDEV :: uint where [param_defs]: "ROOTDEV = 1"
definition MAXARG :: nat where [param_defs]: "MAXARG = 32"
definition MAXOPBLOCKS :: nat where [param_defs]: "MAXOPBLOCKS = 10"
definition LOGBLOCKS :: nat where [param_defs]: "LOGBLOCKS = MAXOPBLOCKS * 3"
definition NBUF :: nat where [param_defs]: "NBUF = MAXOPBLOCKS * 3"
definition FSSIZE :: nat where [param_defs]: "FSSIZE = 2000"
definition MAXPATH :: nat where [param_defs]: "MAXPATH = 128"
definition USERSTACK :: nat where [param_defs]: "USERSTACK = 1"
definition PGSIZE :: nat where [param_defs]: "PGSIZE = 4096"

section \<open>Pages\<close>

text \<open>\<^verbatim>\<open>PGROUNDUP\<close> and \<^verbatim>\<open>PGROUNDDOWN\<close> of \<^verbatim>\<open>kernel/riscv.h\<close>, on 64-bit values.\<close>

definition PGROUNDUP :: "uint64 \<Rightarrow> uint64" where
  "PGROUNDUP sz = (sz + 4096 - 1) AND NOT (4096 - 1)"

definition PGROUNDDOWN :: "uint64 \<Rightarrow> uint64" where
  "PGROUNDDOWN a = a AND NOT (4096 - 1)"

lemma unat_and_not_4095: "unat (a AND NOT 4095 :: uint64) = unat a - unat a mod 4096"
proof -
  have m: "(4095::uint64) = mask 12" by (simp add: mask_eq_exp_minus_1)
  have "a AND NOT (a AND 4095) = a - (a AND 4095)"
    by (rule disjunctive_diff_eq_and_not [symmetric])
      (simp add: and.assoc [symmetric] and.commute)
  moreover have "a AND NOT (a AND 4095) = a AND NOT 4095"
    by (rule bit_word_eqI) (auto simp: bit_simps)
  moreover have "unat (a AND 4095) = unat a mod 4096"
    by (simp only: m take_bit_eq_mask [symmetric] unsigned_take_bit_eq) (simp add: take_bit_eq_mod)
  moreover have "a AND 4095 \<le> a" by (rule word_and_le2)
  ultimately show ?thesis by (metis unat_sub)
qed

lemma unat_PGROUNDDOWN: "unat (PGROUNDDOWN a) = unat a - unat a mod 4096"
  using unat_and_not_4095 [of a] by (simp add: PGROUNDDOWN_def)

lemma unat_PGROUNDUP:
  "unat a + 4095 < 2 ^ 64 \<Longrightarrow> unat (PGROUNDUP a) = (unat a + 4095) - (unat a + 4095) mod 4096"
proof -
  assume a: "unat a + 4095 < 2 ^ 64"
  have "unat (a + 4095) = unat a + 4095"
    using a by (simp add: unat_word_ariths)
  then show ?thesis using unat_and_not_4095 [of "a + 4095"]
    by (simp add: PGROUNDUP_def add.commute)
qed

text \<open>Arithmetic of multiples of a fixed size.\<close>

lemma aligned_gap:
  fixes a b k :: nat
  assumes "a mod k = 0" "b mod k = 0" "a < b"
  shows "a + k \<le> b"
proof -
  obtain x y where "a = k * x" "b = k * y" using assms(1,2) by (metis mod_0_imp_dvd dvd_def)
  with assms(3) have "x + 1 \<le> y" by auto
  then have "k * (x + 1) \<le> k * y" by (rule mult_le_mono2)
  with \<open>a = k * x\<close> \<open>b = k * y\<close> show ?thesis by simp
qed

definition round_up :: "nat \<Rightarrow> nat" where
  "round_up n = n + 4095 - (n + 4095) mod 4096"

lemma round_up_eq: "round_up n = (n + 4095) div 4096 * 4096"
  by (simp only: round_up_def minus_mod_eq_div_mult)

lemma round_up_mod [simp]: "round_up n mod 4096 = 0"
  by (simp add: round_up_eq)

lemma round_up_ge: "n \<le> round_up n"
proof -
  have "(n + 4095) mod 4096 < 4096" by (rule mod_less_divisor) simp
  then show ?thesis unfolding round_up_def by linarith
qed

lemma round_up_less: "round_up n < n + 4096"
  unfolding round_up_def by linarith

lemma round_up_least: "n \<le> q \<Longrightarrow> q mod 4096 = 0 \<Longrightarrow> round_up n \<le> q"
  using aligned_gap [of q 4096 "round_up n"] round_up_less [of n] by (cases "q < round_up n") auto

lemma unat_PGROUNDUP_round_up:
  "unat a + 4095 < 2 ^ 64 \<Longrightarrow> unat (PGROUNDUP a) = round_up (unat a)"
  by (simp only: unat_PGROUNDUP round_up_def)

section \<open>Results of kernel code\<close>

text \<open>
  \<open>Panic\<close> carries the message given to \<^verbatim>\<open>panic()\<close>, which never returns. \<open>Wait\<close> says that the
  code cannot go on by itself: it sleeps on a channel or spins on a lock somebody else holds.
\<close>

datatype 'a res = Ok 'a | Panic string | Wait string

fun bnd :: "'a res \<Rightarrow> ('a \<Rightarrow> 'b res) \<Rightarrow> 'b res" where
  "bnd (Ok x) f = f x"
| "bnd (Panic m) f = Panic m"
| "bnd (Wait c) f = Wait c"

lemma bnd_eq_Ok [res_simps]: "bnd m f = Ok y \<longleftrightarrow> (\<exists>x. m = Ok x \<and> f x = Ok y)"
  by (cases m) auto

lemma bnd_eq_OkE:
  assumes "bnd m f = Ok y"
  obtains x where "m = Ok x" and "f x = Ok y"
  using assms by (cases m) auto

text \<open>What holds of the result, when there is one.\<close>

definition gives :: "('b \<Rightarrow> bool) \<Rightarrow> 'b res \<Rightarrow> bool" where
  "gives P m \<longleftrightarrow> (\<forall>x. m = Ok x \<longrightarrow> P x)"

lemma gives_simps [simp]: "gives P (Ok x) = P x" "gives P (Panic e)" "gives P (Wait e)"
  by (simp_all add: gives_def)

lemma givesD: "gives P m \<Longrightarrow> m = Ok x \<Longrightarrow> P x"
  by (simp add: gives_def)

lemma gives_bnd: "gives Q m \<Longrightarrow> (\<And>x. m = Ok x \<Longrightarrow> Q x \<Longrightarrow> gives P (f x)) \<Longrightarrow> gives P (bnd m f)"
  by (cases m) (auto simp: gives_def)

lemma bnd_assoc: "bnd (bnd m f) g = bnd m (\<lambda>x. bnd (f x) g)"
  by (cases m) auto

lemma bnd_Ok_right [simp]: "bnd m Ok = m"
  by (cases m) auto

lemma bnd_cong [fundef_cong]:
  "m = m' \<Longrightarrow> (\<And>x. m' = Ok x \<Longrightarrow> f x = g x) \<Longrightarrow> bnd m f = bnd m' g"
  by (cases m') auto

fun is_ok :: "'a res \<Rightarrow> bool" where
  "is_ok (Ok _) = True"
| "is_ok _ = False"

lemma is_ok_iff: "is_ok m \<longleftrightarrow> (\<exists>x. m = Ok x)"
  by (cases m) auto

section \<open>Little-endian access to byte arrays\<close>

definition rd16 :: "bytes \<Rightarrow> nat \<Rightarrow> ushort" where
  "rd16 f a = ucast (f a) OR push_bit 8 (ucast (f (a + 1)))"

definition rd32 :: "bytes \<Rightarrow> nat \<Rightarrow> uint" where
  "rd32 f a = ucast (f a) OR push_bit 8 (ucast (f (a + 1)))
     OR push_bit 16 (ucast (f (a + 2))) OR push_bit 24 (ucast (f (a + 3)))"

definition rd64 :: "bytes \<Rightarrow> nat \<Rightarrow> uint64" where
  "rd64 f a = ucast (rd32 f a) OR push_bit 32 (ucast (rd32 f (a + 4)))"

definition wr16 :: "bytes \<Rightarrow> nat \<Rightarrow> ushort \<Rightarrow> bytes" where
  "wr16 f a v = f(a := ucast v, a + 1 := ucast (drop_bit 8 v))"

definition wr32 :: "bytes \<Rightarrow> nat \<Rightarrow> uint \<Rightarrow> bytes" where
  "wr32 f a v = f(a := ucast v, a + 1 := ucast (drop_bit 8 v),
     a + 2 := ucast (drop_bit 16 v), a + 3 := ucast (drop_bit 24 v))"

definition wr64 :: "bytes \<Rightarrow> nat \<Rightarrow> uint64 \<Rightarrow> bytes" where
  "wr64 f a v = wr32 (wr32 f a (ucast v)) (a + 4) (ucast (drop_bit 32 v))"

lemma rd16_wr16 [simp]: "rd16 (wr16 f a v) a = v"
  by (rule bit_word_eqI) (auto simp: rd16_def wr16_def bit_simps)

lemma rd32_wr32 [simp]: "rd32 (wr32 f a v) a = v"
proof (rule bit_word_eqI)
  fix n assume "n < LENGTH(32)"
  then show "bit (rd32 (wr32 f a v) a) n = bit v n"
    by (cases "24 \<le> n"; cases "16 \<le> n") (auto simp: rd32_def wr32_def bit_simps)
qed

lemma rd16_wr16_other [byte_simps]:
  "a + 2 \<le> b \<or> b + 2 \<le> a \<Longrightarrow> rd16 (wr16 f a v) b = rd16 f b"
  by (auto simp: rd16_def wr16_def)

lemma rd32_wr32_other [byte_simps]:
  "a + 4 \<le> b \<or> b + 4 \<le> a \<Longrightarrow> rd32 (wr32 f a v) b = rd32 f b"
  by (auto simp: rd32_def wr32_def)

lemma rd32_wr16_other [byte_simps]:
  "a + 2 \<le> b \<or> b + 4 \<le> a \<Longrightarrow> rd32 (wr16 f a v) b = rd32 f b"
  by (auto simp: rd32_def wr16_def)

lemma rd16_wr32_other [byte_simps]:
  "a + 4 \<le> b \<or> b + 2 \<le> a \<Longrightarrow> rd16 (wr32 f a v) b = rd16 f b"
  by (auto simp: rd16_def wr32_def)

lemma ucast_join32:
  "(ucast (ucast v :: uint) :: uint64) OR push_bit 32 (ucast (ucast (drop_bit 32 v) :: uint)) = v"
  by (rule bit_word_eqI) (auto simp: bit_simps)

lemma rd64_wr64 [simp]: "rd64 (wr64 f a v) a = v"
  by (simp add: rd64_def wr64_def byte_simps ucast_join32)

lemma rd64_wr64_other [byte_simps]:
  "a + 8 \<le> b \<or> b + 8 \<le> a \<Longrightarrow> rd64 (wr64 f a v) b = rd64 f b"
  by (auto simp: rd64_def wr64_def byte_simps)

lemma wr64_frame: "b < a \<or> a + 8 \<le> b \<Longrightarrow> wr64 f a v b = f b"
  by (auto simp: wr64_def wr32_def)

lemma wr32_frame: "b < a \<or> a + 4 \<le> b \<Longrightarrow> wr32 f a v b = f b"
  by (auto simp: wr32_def)

lemma wr16_frame: "b < a \<or> a + 2 \<le> b \<Longrightarrow> wr16 f a v b = f b"
  by (auto simp: wr16_def)

lemma rd16_cong: "f a = g b \<Longrightarrow> f (a + 1) = g (b + 1) \<Longrightarrow> rd16 f a = rd16 g b"
  by (simp add: rd16_def)

lemma rd32_cong:
  assumes "\<And>i. i < 4 \<Longrightarrow> f (a + i) = g (b + i)"
  shows "rd32 f a = rd32 g b"
  using assms [of 0] assms [of 1] assms [of 2] assms [of 3] by (simp add: rd32_def)

lemma rd64_cong: "(\<And>i. i < 8 \<Longrightarrow> f (a + i) = g (b + i)) \<Longrightarrow> rd64 f a = rd64 g b"
proof -
  assume h: "\<And>i. i < 8 \<Longrightarrow> f (a + i) = g (b + i)"
  have "f a = g b" "f (a+1) = g (b+1)" "f (a+2) = g (b+2)" "f (a+3) = g (b+3)"
    "f (a+4) = g (b+4)" "f (a+5) = g (b+5)" "f (a+6) = g (b+6)" "f (a+7) = g (b+7)"
    using h [of 0] h [of 1] h [of 2] h [of 3] h [of 4] h [of 5] h [of 6] h [of 7] by auto
  then show ?thesis by (simp add: rd64_def rd32_def add.assoc add.commute)
qed

text \<open>A block move into an array, and a fill.\<close>

definition put :: "bytes \<Rightarrow> nat \<Rightarrow> nat \<Rightarrow> bytes \<Rightarrow> bytes" where
  "put f a n g = (\<lambda>b. if a \<le> b \<and> b < a + n then g (b - a) else f b)"

definition fill :: "bytes \<Rightarrow> nat \<Rightarrow> nat \<Rightarrow> byte \<Rightarrow> bytes" where
  "fill f a n c = (\<lambda>b. if a \<le> b \<and> b < a + n then c else f b)"

lemma put_inside [byte_simps]: "i < n \<Longrightarrow> put f a n g (a + i) = g i"
  by (simp add: put_def)

lemma put_outside [byte_simps]: "b < a \<or> a + n \<le> b \<Longrightarrow> put f a n g b = f b"
  by (auto simp: put_def)

lemma fill_inside [byte_simps]: "i < n \<Longrightarrow> fill f a n c (a + i) = c"
  by (simp add: fill_def)

lemma fill_outside [byte_simps]: "b < a \<or> a + n \<le> b \<Longrightarrow> fill f a n c b = f b"
  by (auto simp: fill_def)

lemma put_0 [simp]: "put f a 0 g = f"
  by (auto simp: put_def fun_eq_iff)

lemma fill_0 [simp]: "fill f a 0 c = f"
  by (auto simp: fill_def fun_eq_iff)

lemma put_put [simp]: "put (put f a n g) a n h = put f a n h"
  by (auto simp: put_def)

lemma wr64_rd64 [simp]: "wr64 f a (rd64 f a) = f"
proof
  fix b
  consider "b < a \<or> a + 8 \<le> b" | i where "i < 8" "b = a + i"
    by (metis add_less_cancel_left le_add_diff_inverse not_less)
  then show "wr64 f a (rd64 f a) b = f b"
  proof cases
    case 1
    then show ?thesis by (rule wr64_frame)
  next
    case 2
    have "i = 0 \<or> i = 1 \<or> i = 2 \<or> i = 3 \<or> i = 4 \<or> i = 5 \<or> i = 6 \<or> i = 7"
      using \<open>i < 8\<close> by linarith
    then show ?thesis unfolding \<open>b = a + i\<close>
      by (elim disjE; intro bit_word_eqI)
        (auto simp: wr64_def wr32_def rd64_def rd32_def bit_simps add.commute [of _ a]
          dest: bit_imp_le_length)
  qed
qed

text \<open>A run of bytes read as a list, and a list of bytes stored.\<close>

definition getl :: "bytes \<Rightarrow> nat \<Rightarrow> nat \<Rightarrow> byte list" where
  "getl f a n = map (\<lambda>i. f (a + i)) [0..<n]"

definition putl :: "bytes \<Rightarrow> nat \<Rightarrow> byte list \<Rightarrow> bytes" where
  "putl f a xs = put f a (length xs) (\<lambda>i. xs ! i)"

lemma length_getl [simp]: "length (getl f a n) = n"
  by (simp add: getl_def)

lemma nth_getl [simp]: "i < n \<Longrightarrow> getl f a n ! i = f (a + i)"
  by (simp add: getl_def)

lemma getl_0 [simp]: "getl f a 0 = []"
  by (simp add: getl_def)

lemma putl_Nil [simp]: "putl f a [] = f"
  by (simp add: putl_def)

lemma putl_inside [byte_simps]: "i < length xs \<Longrightarrow> putl f a xs (a + i) = xs ! i"
  by (simp add: putl_def put_def)

lemma putl_outside [byte_simps]: "b < a \<or> a + length xs \<le> b \<Longrightarrow> putl f a xs b = f b"
  by (auto simp: putl_def put_def)

lemma getl_cong: "(\<And>i. i < n \<Longrightarrow> f (a + i) = g (b + i)) \<Longrightarrow> getl f a n = getl g b n"
  by (simp add: getl_def)

lemma getl_putl [simp]: "getl (putl f a xs) a (length xs) = xs"
  by (rule nth_equalityI) (simp_all add: byte_simps)

lemma getl_putl_other: "b + n \<le> a \<or> a + length xs \<le> b \<Longrightarrow> getl (putl f a xs) b n = getl f b n"
  by (rule getl_cong) (auto simp: byte_simps)

lemma getl_add: "getl f a (m + n) = getl f a m @ getl f (a + m) n"
  by (rule nth_equalityI) (auto simp: nth_append)

lemma putl_append: "putl (putl f a xs) (a + length xs) ys = putl f a (xs @ ys)"
  by (rule ext) (auto simp: putl_def put_def nth_append)

lemma rd32_putl_other [byte_simps]: "b + 4 \<le> a \<or> a + length xs \<le> b \<Longrightarrow> rd32 (putl f a xs) b = rd32 f b"
  by (rule rd32_cong) (auto simp: putl_outside)

lemma rd64_putl_other [byte_simps]: "b + 8 \<le> a \<or> a + length xs \<le> b \<Longrightarrow> rd64 (putl f a xs) b = rd64 f b"
  by (rule rd64_cong) (auto simp: putl_outside)

lemma rd32_wr64_other [byte_simps]: "a + 8 \<le> b \<or> b + 4 \<le> a \<Longrightarrow> rd32 (wr64 f a v) b = rd32 f b"
  by (rule rd32_cong) (auto simp: wr64_frame)

lemma rd64_wr32_other [byte_simps]: "a + 4 \<le> b \<or> b + 8 \<le> a \<Longrightarrow> rd64 (wr32 f a v) b = rd64 f b"
  by (rule rd64_cong) (auto simp: wr32_frame)

lemma getl_wr32_other: "b + n \<le> a \<or> a + 4 \<le> b \<Longrightarrow> getl (wr32 f a v) b n = getl f b n"
  by (rule getl_cong) (auto simp: wr32_frame)

lemma getl_putl_len: "n = length xs \<Longrightarrow> getl (putl f a xs) a n = xs"
  by simp

section \<open>Scanning a table\<close>

lemma find_upt_Some:
  "find P [0..<n] = Some i \<longleftrightarrow> i < n \<and> P i \<and> (\<forall>j<i. \<not> P j)"
  by (auto simp: find_Some_iff)

lemma find_upt_None: "find P [0..<n] = None \<longleftrightarrow> (\<forall>i<n. \<not> P i)"
  by (auto simp: find_None_iff)

text \<open>One more byte at the front of a window of bytes.\<close>

lemma window_Cons:
  "(if Suc a \<le> x \<and> x < Suc a + length d then Some (d ! (x - Suc a)) else if x = a then Some c else u) =
   (if a \<le> x \<and> x < a + length (c # d) then Some ((c # d) ! (x - a)) else u)"
proof (cases "a < x")
  case True
  then obtain j where "x = Suc (a + j)" using less_iff_Suc_add by blast
  then show ?thesis by simp
qed auto

end
