(* ===== verification/Kalloc.thy ===== *)
theory Kalloc
  imports Prelude
begin

text \<open>
  \<^verbatim>\<open>kernel/kalloc.c\<close>: the allocator of 4096-byte pages. The state is the physical memory and the
  head of the free list; the list itself runs through the first eight bytes of every free page
  (\<^verbatim>\<open>struct run\<close>), as in the source. \<open>kend\<close> is the linker's symbol \<^verbatim>\<open>end\<close>. The build defines
  \<^verbatim>\<open>LAB_SYSCALL\<close> (\<^verbatim>\<open>conf/lab.mk\<close>), so pages are neither junk-filled when freed nor when allocated.
  A critical section under \<^verbatim>\<open>kmem.lock\<close> is one step of the model.
\<close>

section \<open>Definitions\<close>

definition KERNBASE :: uint64 where [param_defs]: "KERNBASE = 0x80000000"
definition PHYSTOP :: uint64 where [param_defs]: "PHYSTOP = KERNBASE + 128 * 1024 * 1024"

record kmem =
  mem :: bytes
  freelist :: uint64
  kend :: uint64

definition kfree :: "uint64 \<Rightarrow> 'a kmem_scheme \<Rightarrow> 'a kmem_scheme res" where
  "kfree pa s =
     (if unat pa mod PGSIZE \<noteq> 0 \<or> pa < kend s \<or> pa \<ge> PHYSTOP then Panic ''kfree''
      else Ok (s\<lparr>mem := wr64 (mem s) (unat pa) (freelist s), freelist := pa\<rparr>))"

definition kalloc :: "'a kmem_scheme \<Rightarrow> uint64 \<times> 'a kmem_scheme" where
  "kalloc s =
     (let r = freelist s in
      if r \<noteq> 0 then (r, s\<lparr>freelist := rd64 (mem s) (unat r)\<rparr>) else (r, s))"

lemma kfree_Ok_bound: "kfree pa s = Ok s' \<Longrightarrow> unat pa < 0x88000000"
  by (auto simp: kfree_def param_defs word_le_nat_alt split: if_splits)

text \<open>The loop of \<^verbatim>\<open>freerange\<close> from the rounded-up start; \<^verbatim>\<open>kinit\<close> runs it on \<^verbatim>\<open>[end, PHYSTOP)\<close>.\<close>

function freerange_loop :: "uint64 \<Rightarrow> uint64 \<Rightarrow> 'a kmem_scheme \<Rightarrow> 'a kmem_scheme res" where
  "freerange_loop p pa_end s =
     (if p + 4096 \<le> pa_end
      then bnd (kfree p s) (\<lambda>s'. freerange_loop (p + 4096) pa_end s')
      else Ok s)"
  by pat_completeness auto
termination
proof (relation "measure (\<lambda>(p, e, s). 0x88000000 - unat p)")
  fix p e and s s' :: "'a kmem_scheme"
  assume "kfree p s = Ok s'"
  then have "unat p < 0x88000000" by (rule kfree_Ok_bound)
  moreover from this have "unat (p + 4096) = unat p + 4096"
    by (simp add: unat_word_ariths)
  ultimately show "((p + 4096, e, s'), (p, e, s)) \<in> measure (\<lambda>(p, e, s). 0x88000000 - unat p)"
    by simp
qed simp

declare freerange_loop.simps [simp del]

definition freerange :: "uint64 \<Rightarrow> uint64 \<Rightarrow> 'a kmem_scheme \<Rightarrow> 'a kmem_scheme res" where
  "freerange pa_start pa_end s = freerange_loop (PGROUNDUP pa_start) pa_end s"

definition kinit :: "'a kmem_scheme \<Rightarrow> 'a kmem_scheme res" where
  "kinit s = freerange (kend s) PHYSTOP s"

section \<open>The free list\<close>

text \<open>\<open>chain m p xs\<close>: following the links from \<open>p\<close> visits exactly the pages \<open>xs\<close>.\<close>

fun chain :: "bytes \<Rightarrow> uint64 \<Rightarrow> uint64 list \<Rightarrow> bool" where
  "chain m p [] \<longleftrightarrow> p = 0"
| "chain m p (x # xs) \<longleftrightarrow> p = x \<and> p \<noteq> 0 \<and> chain m (rd64 m (unat x)) xs"

definition page_ok :: "'a kmem_scheme \<Rightarrow> uint64 \<Rightarrow> bool" where
  "page_ok s pa \<longleftrightarrow> unat pa mod PGSIZE = 0 \<and> kend s \<le> pa \<and> pa < PHYSTOP"

definition freepages :: "'a kmem_scheme \<Rightarrow> uint64 list \<Rightarrow> bool" where
  "freepages s xs \<longleftrightarrow> chain (mem s) (freelist s) xs \<and> distinct xs \<and>
     (\<forall>x\<in>set xs. page_ok s x) \<and> 0 < kend s"

definition kmem_inv :: "'a kmem_scheme \<Rightarrow> bool" where
  "kmem_inv s \<longleftrightarrow> (\<exists>xs. freepages s xs)"

definition free_set :: "'a kmem_scheme \<Rightarrow> uint64 set" where
  "free_set s = {p. \<exists>xs. freepages s xs \<and> p \<in> set xs}"

lemma chain_unique: "chain m p xs \<Longrightarrow> chain m p ys \<Longrightarrow> xs = ys"
proof (induction xs arbitrary: p ys)
  case Nil
  then show ?case by (cases ys) auto
next
  case (Cons x xs)
  then show ?case by (cases ys) auto
qed

lemma chain_cong:
  "(\<And>x. x \<in> set xs \<Longrightarrow> rd64 m (unat x) = rd64 m' (unat x)) \<Longrightarrow> chain m p xs = chain m' p xs"
  by (induction xs arbitrary: p) auto

lemma free_set_eq: "freepages s xs \<Longrightarrow> free_set s = set xs"
  by (auto simp: free_set_def freepages_def dest: chain_unique)

lemma free_set_finite: "finite (free_set s)"
proof (cases "kmem_inv s")
  case True
  then show ?thesis by (auto simp: kmem_inv_def free_set_eq)
next
  case False
  then show ?thesis by (simp add: kmem_inv_def free_set_def)
qed

lemma page_ok_apart:
  assumes "page_ok s x" "page_ok t y" "x \<noteq> y"
  shows "unat x + PGSIZE \<le> unat y \<or> unat y + PGSIZE \<le> unat x"
proof -
  obtain a b where ab: "unat x = a * 4096" "unat y = b * 4096"
    using assms(1,2) by (metis PGSIZE_def mod_0_imp_dvd mult.commute page_ok_def dvdE)
  with assms(3) have "a \<noteq> b" by (auto simp: word_unat_eq_iff)
  then have "a + 1 \<le> b \<or> b + 1 \<le> a" by linarith
  then have "(a + 1) * 4096 \<le> b * 4096 \<or> (b + 1) * 4096 \<le> a * 4096"
    using mult_le_mono1 by blast
  then show ?thesis by (auto simp: ab PGSIZE_def)
qed

lemma freepages_mem_frame:
  assumes "freepages s xs"
    and "\<And>x i. x \<in> set xs \<Longrightarrow> i < 8 \<Longrightarrow> m (unat x + i) = mem s (unat x + i)"
  shows "freepages (s\<lparr>mem := m\<rparr>) xs"
proof -
  have "chain m (freelist s) xs = chain (mem s) (freelist s) xs"
    by (rule chain_cong) (rule rd64_cong, use assms(2) in blast)
  with assms(1) show ?thesis by (simp add: freepages_def page_ok_def)
qed

section \<open>Allocation and release\<close>

lemma kalloc_Nil: "freepages s [] \<Longrightarrow> kalloc s = (0, s)"
  by (simp add: freepages_def kalloc_def Let_def)

lemma kalloc_Cons:
  assumes "freepages s (x # xs)"
  shows "kalloc s = (x, s\<lparr>freelist := rd64 (mem s) (unat x)\<rparr>)"
    and "freepages (s\<lparr>freelist := rd64 (mem s) (unat x)\<rparr>) xs"
  using assms by (auto simp: freepages_def kalloc_def Let_def page_ok_def)

lemma kfree_Cons:
  assumes "freepages s xs" "page_ok s pa" "pa \<notin> set xs"
  shows "kfree pa s = Ok (s\<lparr>mem := wr64 (mem s) (unat pa) (freelist s), freelist := pa\<rparr>)"
    and "freepages (s\<lparr>mem := wr64 (mem s) (unat pa) (freelist s), freelist := pa\<rparr>) (pa # xs)"
proof -
  let ?m = "wr64 (mem s) (unat pa) (freelist s)"
  show "kfree pa s = Ok (s\<lparr>mem := ?m, freelist := pa\<rparr>)"
    using assms(2) by (auto simp: kfree_def page_ok_def)
  have "chain ?m (freelist s) xs = chain (mem s) (freelist s) xs"
  proof (rule chain_cong)
    fix x assume "x \<in> set xs"
    with assms have "page_ok s x" "x \<noteq> pa" by (auto simp: freepages_def)
    then have "unat x + PGSIZE \<le> unat pa \<or> unat pa + PGSIZE \<le> unat x"
      by (intro page_ok_apart [OF _ assms(2)])
    then show "rd64 ?m (unat x) = rd64 (mem s) (unat x)"
      by (intro rd64_wr64_other) (auto simp: PGSIZE_def)
  qed
  moreover have "pa \<noteq> 0"
    using assms(1,2) by (auto simp: freepages_def page_ok_def)
  ultimately show "freepages (s\<lparr>mem := ?m, freelist := pa\<rparr>) (pa # xs)"
    using assms by (auto simp: freepages_def page_ok_def)
qed

lemma kfree_bad: "\<not> page_ok s pa \<Longrightarrow> kfree pa s = Panic ''kfree''"
  by (auto simp: kfree_def page_ok_def not_less)

section \<open>The allocator interface\<close>

text \<open>
  What the clients of the allocator rely on. \<open>free s\<close> is the set of pages nobody owns;
  allocation takes one of them or reports exhaustion by \<open>null\<close>, release gives a page back.
\<close>

locale page_allocator =
  fixes alloc :: "'s \<Rightarrow> 'p \<times> 's"
    and release :: "'p \<Rightarrow> 's \<Rightarrow> 's res"
    and null :: "'p"
    and free :: "'s \<Rightarrow> 'p set"
    and legal :: "'s \<Rightarrow> 'p \<Rightarrow> bool"
    and inv :: "'s \<Rightarrow> bool"
  assumes free_finite: "finite (free s)"
    and null_not_free: "inv s \<Longrightarrow> null \<notin> free s"
    and alloc_none: "inv s \<Longrightarrow> free s = {} \<Longrightarrow> alloc s = (null, s)"
    and alloc_some: "inv s \<Longrightarrow> free s \<noteq> {} \<Longrightarrow>
          \<exists>p s'. alloc s = (p, s') \<and> p \<in> free s \<and> free s' = free s - {p} \<and> inv s'"
    and release_ok: "inv s \<Longrightarrow> legal s p \<Longrightarrow> p \<notin> free s \<Longrightarrow>
          \<exists>s'. release p s = Ok s' \<and> free s' = insert p (free s) \<and> inv s'"
    and free_legal: "inv s \<Longrightarrow> p \<in> free s \<Longrightarrow> legal s p"
begin

lemma alloc_inv: "inv s \<Longrightarrow> alloc s = (p, s') \<Longrightarrow> inv s'"
  by (metis alloc_none alloc_some prod.inject)

lemma alloc_cases:
  assumes "inv s" "alloc s = (p, s')"
  obtains "p = null" "s' = s" "free s = {}"
  | "p \<in> free s" "p \<noteq> null" "free s' = free s - {p}" "inv s'"
proof (cases "free s = {}")
  case True
  with assms alloc_none that(1) show ?thesis by auto
next
  case False
  with assms alloc_some [OF assms(1) False] null_not_free [OF assms(1)] that(2)
  show ?thesis by auto
qed

text \<open>Two allocations with no release between them never give the same page.\<close>

lemma alloc_fresh:
  assumes "inv s" "alloc s = (p, s1)" "alloc s1 = (q, s2)" "q \<noteq> null"
  shows "p \<noteq> q"
proof -
  have "inv s1" using assms(1,2) by (rule alloc_inv)
  with assms(3,4) have q: "q \<in> free s1" by (metis alloc_cases)
  from assms(1,2) show ?thesis
    by (rule alloc_cases) (use q assms(4) in auto)
qed

lemma alloc_fails_iff: "inv s \<Longrightarrow> alloc s = (p, s') \<Longrightarrow> p = null \<longleftrightarrow> free s = {}"
  by (metis alloc_cases empty_iff)

lemma alloc_card:
  assumes "inv s" "alloc s = (p, s')" "p \<noteq> null"
  shows "card (free s) = Suc (card (free s'))"
  using assms(1,2)
  by (rule alloc_cases) (use assms(3) free_finite card_Suc_Diff1 in metis)+

end

interpretation km: page_allocator
  "kalloc :: 'a kmem_scheme \<Rightarrow> uint64 \<times> 'a kmem_scheme" kfree 0 free_set page_ok kmem_inv
proof
  fix s :: "'a kmem_scheme" and p :: uint64
  show "finite (free_set s)" by (rule free_set_finite)
  {
    assume "kmem_inv s"
    then obtain xs where xs: "freepages s xs" by (auto simp: kmem_inv_def)
    show "0 \<notin> free_set s"
      using xs by (auto simp: free_set_eq [OF xs] freepages_def page_ok_def
          dest!: bspec [where x = 0])
    show "free_set s = {} \<Longrightarrow> kalloc s = (0, s)"
      using xs by (simp add: free_set_eq kalloc_Nil)
    show "free_set s \<noteq> {} \<Longrightarrow> \<exists>p s'. kalloc s = (p, s') \<and> p \<in> free_set s \<and>
        free_set s' = free_set s - {p} \<and> kmem_inv s'"
    proof (cases xs)
      case Nil
      then show "free_set s \<noteq> {} \<Longrightarrow> ?thesis" using xs by (simp add: free_set_eq)
    next
      case (Cons x ys)
      let ?s = "s\<lparr>freelist := rd64 (mem s) (unat x)\<rparr>"
      have "freepages ?s ys" "kalloc s = (x, ?s)"
        using kalloc_Cons xs Cons by auto
      moreover have "x \<notin> set ys" using xs Cons by (simp add: freepages_def)
      ultimately show ?thesis
        using xs Cons by (auto simp: free_set_eq kmem_inv_def)
    qed
    show "p \<in> free_set s \<Longrightarrow> page_ok s p"
      using xs by (simp add: free_set_eq [OF xs] freepages_def)
    show "page_ok s p \<Longrightarrow> p \<notin> free_set s \<Longrightarrow>
        \<exists>s'. kfree p s = Ok s' \<and> free_set s' = insert p (free_set s) \<and> kmem_inv s'"
      using kfree_Cons [OF xs, of p] free_set_eq [OF kfree_Cons(2) [OF xs, of p]] free_set_eq [OF xs]
      by (auto simp: kmem_inv_def)
  }
qed

section \<open>Initialisation\<close>

definition pages_from :: "uint64 \<Rightarrow> uint64 set" where
  "pages_from p = {q. p \<le> q \<and> q < PHYSTOP \<and> unat q mod PGSIZE = 0}"

lemma unat_PHYSTOP: "unat PHYSTOP = 0x88000000"
  by (simp add: param_defs)

lemma pages_from_step:
  assumes "unat p mod 4096 = 0" "p + 4096 \<le> PHYSTOP" "unat p < 0x88000000"
  shows "pages_from p = insert p (pages_from (p + 4096))"
proof -
  have u: "unat (p + 4096) = unat p + 4096"
    using assms(3) by (simp add: unat_word_ariths)
  have "unat p = unat q \<or> unat p + 4096 \<le> unat q"
    if "unat p \<le> unat q" "4096 dvd unat q" for q :: uint64
    using that assms(1) aligned_gap [of "unat p" 4096 "unat q"] by (cases "unat p = unat q") auto
  then show ?thesis
    using assms u by (fastforce simp: pages_from_def word_le_nat_alt word_less_nat_alt PGSIZE_def
        unat_PHYSTOP word_unat_eq_iff)
qed

lemma pages_from_end: "unat p mod 4096 = 0 \<Longrightarrow> \<not> p + 4096 \<le> PHYSTOP \<Longrightarrow> p \<le> PHYSTOP \<Longrightarrow> pages_from p = {}"
proof -
  assume a: "unat p mod 4096 = 0" "\<not> p + 4096 \<le> PHYSTOP" "p \<le> PHYSTOP"
  then have le: "unat p \<le> 0x88000000" by (simp add: word_le_nat_alt unat_PHYSTOP)
  then have "unat (p + 4096) = unat p + 4096" by (simp add: unat_word_ariths)
  with a(2) have "0x88000000 < unat p + 4096" by (simp add: word_le_nat_alt unat_PHYSTOP)
  then have "unat p = 0x88000000"
    using aligned_gap [of "unat p" 4096 "0x88000000"] a(1) le by (cases "unat p < 0x88000000") auto
  then show ?thesis by (auto simp: pages_from_def word_le_nat_alt word_less_nat_alt unat_PHYSTOP)
qed

lemma freerange_loop_ok:
  assumes "freepages s xs" "unat p mod 4096 = 0" "kend s \<le> p" "p \<le> PHYSTOP" "\<forall>x\<in>set xs. x < p"
  shows "\<exists>s' ys. freerange_loop p PHYSTOP s = Ok s' \<and> freepages s' ys \<and>
           set ys = set xs \<union> pages_from p \<and> kend s' = kend s"
  using assms
proof (induction "0x88000000 - unat p" arbitrary: p s xs rule: less_induct)
  case less
  show ?case
  proof (cases "p + 4096 \<le> PHYSTOP")
    case False
    then show ?thesis
      using less.prems pages_from_end [of p] by (auto simp: freerange_loop.simps [of p])
  next
    case True
    have up: "unat p < 0x88000000"
      using True less.prems(4) by (rule_tac ccontr)
        (auto simp: word_le_nat_alt unat_PHYSTOP unat_word_ariths)
    then have u: "unat (p + 4096) = unat p + 4096" by (simp add: unat_word_ariths)
    have ok: "page_ok s p"
      using less.prems up by (simp add: page_ok_def PGSIZE_def word_less_nat_alt unat_PHYSTOP)
    have "p \<notin> set xs" using less.prems(5) by auto
    note kf = kfree_Cons [OF less.prems(1) ok this]
    let ?s = "s\<lparr>mem := wr64 (mem s) (unat p) (freelist s), freelist := p\<rparr>"
    have "\<exists>s' ys. freerange_loop (p + 4096) PHYSTOP ?s = Ok s' \<and> freepages s' ys \<and>
        set ys = set (p # xs) \<union> pages_from (p + 4096) \<and> kend s' = kend ?s"
    proof (rule less.hyps)
      show "0x88000000 - unat (p + 4096) < 0x88000000 - unat p" using u up by simp
      show "freepages ?s (p # xs)" by (rule kf(2))
      show "unat (p + 4096) mod 4096 = 0" using u less.prems(2) by simp
      show "kend ?s \<le> p + 4096"
        using less.prems(3) u by (auto simp: word_le_nat_alt)
      show "p + 4096 \<le> PHYSTOP" by (rule True)
      show "\<forall>x\<in>set (p # xs). x < p + 4096"
        using less.prems(5) u by (auto simp: word_less_nat_alt)
    qed
    then show ?thesis
      using kf(1) True pages_from_step [OF less.prems(2) True up]
      by (auto simp: freerange_loop.simps [of p])
  qed
qed

section \<open>Properties\<close>

text \<open>
  C18. After boot the free list holds every whole page between the end of the kernel and
  \<^verbatim>\<open>PHYSTOP\<close>, each exactly once, and nothing else: \<open>kinit\<close> does not panic and leaves the
  allocator's invariant established.
\<close>

theorem kinit_frees_all_pages:
  assumes "freelist s = 0" "0 < kend s" "kend s \<le> PHYSTOP"
  shows "\<exists>s'. kinit s = Ok s' \<and> kmem_inv s' \<and>
           free_set s' = {q. kend s \<le> q \<and> q < PHYSTOP \<and> unat q mod PGSIZE = 0}"
proof -
  let ?p = "PGROUNDUP (kend s)"
  have k: "unat (kend s) \<le> 0x88000000"
    using assms(3) by (simp add: word_le_nat_alt unat_PHYSTOP)
  then have u: "unat ?p = round_up (unat (kend s))"
    by (intro unat_PGROUNDUP_round_up) simp
  have al: "unat ?p mod 4096 = 0" by (simp add: u)
  have ge: "kend s \<le> ?p" by (simp add: word_le_nat_alt u round_up_ge)
  have "unat ?p \<le> 0x88000000" using k unfolding u by (rule round_up_least) simp
  then have le: "?p \<le> PHYSTOP" by (simp add: word_le_nat_alt unat_PHYSTOP)
  have "freepages s []" using assms by (simp add: freepages_def)
  from freerange_loop_ok [OF this al ge le] obtain s' ys where
    s': "freerange_loop ?p PHYSTOP s = Ok s'" "freepages s' ys" "set ys = pages_from ?p"
    by auto
  have "unat ?p \<le> unat q" if "unat (kend s) \<le> unat q" "unat q mod 4096 = 0" for q :: uint64
    using that unfolding u by (rule round_up_least)
  then have "pages_from ?p = {q. kend s \<le> q \<and> q < PHYSTOP \<and> unat q mod PGSIZE = 0}"
    using ge by (auto simp: pages_from_def PGSIZE_def word_le_nat_alt intro: order_trans)
  with s' show ?thesis
    by (auto simp: kinit_def freerange_def kmem_inv_def free_set_eq)
qed

text \<open>Witness for C18: a kernel that ends at 0x80021000.\<close>

theorem kinit_frees_all_pages_witness:
  "\<exists>s'. kinit \<lparr>mem = (\<lambda>_. 0), freelist = 0, kend = 0x80021000\<rparr> = Ok s' \<and> kmem_inv s' \<and>
     free_set s' = {q. 0x80021000 \<le> q \<and> q < PHYSTOP \<and> unat q mod PGSIZE = 0}"
  using kinit_frees_all_pages [of "\<lparr>mem = (\<lambda>_. 0), freelist = 0, kend = 0x80021000\<rparr>"]
  by (simp add: param_defs)

text \<open>
  C19. Exclusive ownership: a page the allocator hands out is a legal page of RAM that was free,
  the next page it hands out is a different one, and giving the first page back restores the
  allocator state exactly, contents of memory included.
\<close>

theorem kalloc_exclusive:
  assumes "kmem_inv s" "kalloc s = (p, s1)" "p \<noteq> 0"
  shows "page_ok s p \<and> p \<in> free_set s \<and> free_set s1 = free_set s - {p} \<and>
         fst (kalloc s1) \<noteq> p \<and> kfree p s1 = Ok s"
proof -
  obtain xs where xs: "freepages s xs" using assms(1) by (auto simp: kmem_inv_def)
  with assms have pm: "p \<in> free_set s" "free_set s1 = free_set s - {p}"
    using km.alloc_cases [OF assms(1,2)] by metis+
  have ok: "page_ok s p" using km.free_legal [OF assms(1) pm(1)] .
  have ne: "fst (kalloc s1) \<noteq> p"
    using km.alloc_fresh [OF assms(1,2), of "fst (kalloc s1)" "snd (kalloc s1)"] assms(3)
    by (cases "fst (kalloc s1) = 0") auto
  have "s1 = s\<lparr>freelist := rd64 (mem s) (unat p)\<rparr>" "freelist s = p"
    using assms(2,3) by (auto simp: kalloc_def Let_def split: if_splits)
  then have "kfree p s1 = Ok s"
    using ok by (auto simp: kfree_def page_ok_def)
  with ok pm ne show ?thesis by blast
qed

text \<open>Witness for C19: one free page at 0x80021000.\<close>

theorem kalloc_exclusive_witness:
  "kfree 0x80021000 \<lparr>mem = (\<lambda>_. 0), freelist = 0, kend = 0x80021000\<rparr>
     = Ok \<lparr>mem = (\<lambda>_. 0), freelist = 0x80021000, kend = 0x80021000\<rparr>"
proof -
  let ?s = "\<lparr>mem = (\<lambda>_. 0), freelist = 0x80021000, kend = 0x80021000\<rparr>"
  have "rd64 (\<lambda>_. 0) n = 0" for n by (simp add: rd64_def rd32_def)
  then have "freepages ?s [0x80021000]" and
    k: "kalloc ?s = (0x80021000, ?s\<lparr>freelist := 0\<rparr>)"
    by (simp_all add: freepages_def page_ok_def param_defs kalloc_def)
  then have "kmem_inv ?s" by (auto simp: kmem_inv_def)
  from kalloc_exclusive [OF this k] show ?thesis by simp
qed

end
