(* ===== verification/Spinlock.thy ===== *)
theory Spinlock
  imports Prelude
begin

text \<open>
  \<^verbatim>\<open>kernel/spinlock.c\<close>. The first part has the four operations as functions on one CPU's
  interrupt state and one lock; the rest of the kernel model calls them for the locks that stay
  held across function boundaries. The second part interleaves the individual memory accesses of
  \<open>acquire\<close> and \<open>release\<close> on any number of harts and locks as a step relation, and shows mutual
  exclusion and that interrupts stay off while a hart holds a lock.
\<close>

section \<open>Operations\<close>

text \<open>\<open>sie\<close> is the interrupt-enable bit of \<^verbatim>\<open>sstatus\<close> that \<^verbatim>\<open>intr_on\<close>, \<^verbatim>\<open>intr_off\<close> and \<^verbatim>\<open>intr_get\<close> use.\<close>

record cpu =
  noff :: int
  intena :: bool
  sie :: bool

record spinlock =
  locked :: bool
  lkcpu :: "nat option"

definition initlock :: spinlock where
  "initlock = \<lparr>locked = False, lkcpu = None\<rparr>"

definition holding :: "nat \<Rightarrow> spinlock \<Rightarrow> bool" where
  "holding h lk \<longleftrightarrow> locked lk \<and> lkcpu lk = Some h"

definition push_off :: "cpu \<Rightarrow> cpu" where
  "push_off c =
     (let old = sie c;
          c1 = c\<lparr>sie := False\<rparr>;
          c2 = (if noff c1 = 0 then c1\<lparr>intena := old\<rparr> else c1)
      in c2\<lparr>noff := noff c2 + 1\<rparr>)"

definition pop_off :: "cpu \<Rightarrow> cpu res" where
  "pop_off c =
     (if sie c then Panic ''pop_off - interruptible''
      else if noff c < 1 then Panic ''pop_off''
      else let c1 = c\<lparr>noff := noff c - 1\<rparr>
           in Ok (if noff c1 = 0 \<and> intena c1 then c1\<lparr>sie := True\<rparr> else c1))"

text \<open>\<open>acquire\<close> seen from the hart that calls it: a lock held elsewhere makes it spin.\<close>

definition acquire :: "nat \<Rightarrow> spinlock \<Rightarrow> cpu \<Rightarrow> (spinlock \<times> cpu) res" where
  "acquire h lk c =
     (let c1 = push_off c in
      if holding h lk then Panic ''acquire''
      else if locked lk then Wait ''spin''
      else Ok (\<lparr>locked = True, lkcpu = Some h\<rparr>, c1))"

definition release :: "nat \<Rightarrow> spinlock \<Rightarrow> cpu \<Rightarrow> (spinlock \<times> cpu) res" where
  "release h lk c =
     (if \<not> holding h lk then Panic ''release''
      else bnd (pop_off c) (\<lambda>c1. Ok (\<lparr>locked = False, lkcpu = None\<rparr>, c1)))"

section \<open>Nesting of push_off and pop_off\<close>

lemma pop_push [simp]: "0 \<le> noff c \<Longrightarrow>
    pop_off (push_off c) = Ok (if noff c = 0 then c\<lparr>intena := sie c\<rparr> else c\<lparr>sie := False\<rparr>)"
  by (auto simp: push_off_def pop_off_def Let_def)

lemma push_off_simps [simp]: "noff (push_off c) = noff c + 1" "\<not> sie (push_off c)"
  by (auto simp: push_off_def Let_def)

text \<open>A bracketed run: \<open>True\<close> for a call of \<open>push_off\<close>, \<open>False\<close> for one of \<open>pop_off\<close>.\<close>

fun off_run :: "bool list \<Rightarrow> cpu \<Rightarrow> cpu res" where
  "off_run [] c = Ok c"
| "off_run (True # bs) c = off_run bs (push_off c)"
| "off_run (False # bs) c = bnd (pop_off c) (off_run bs)"

fun depth_ok :: "nat \<Rightarrow> bool list \<Rightarrow> bool" where
  "depth_ok n [] = (n = 0)"
| "depth_ok n (True # bs) = depth_ok (Suc n) bs"
| "depth_ok n (False # bs) = (0 < n \<and> depth_ok (n - 1) bs)"

lemma off_run_nested:
  assumes "depth_ok n bs" "noff c = int n" "0 < n \<longrightarrow> \<not> sie c"
  shows "\<exists>c'. off_run bs c = Ok c' \<and> noff c' = 0 \<and> sie c' = (if n = 0 then sie c else intena c)"
  using assms
proof (induction bs arbitrary: n c)
  case Nil
  then show ?case by simp
next
  case (Cons b bs)
  show ?case
  proof (cases b)
    case True
    have "\<exists>c'. off_run bs (push_off c) = Ok c' \<and> noff c' = 0 \<and> sie c' = intena (push_off c)"
      using Cons.IH [of "Suc n" "push_off c"] Cons.prems True by simp
    with True Cons.prems(2) show ?thesis by (auto simp: push_off_def Let_def)
  next
    case False
    then have n: "0 < n" "depth_ok (n - 1) bs" using Cons.prems(1) by auto
    define d where "d = (if n = 1 \<and> intena c then c\<lparr>noff := 0, sie := True\<rparr> else c\<lparr>noff := noff c - 1\<rparr>)"
    have p: "pop_off c = Ok d"
      using Cons.prems(2,3) n by (auto simp: pop_off_def d_def Let_def)
    have "\<exists>c'. off_run bs d = Ok c' \<and> noff c' = 0 \<and> sie c' = (if n - 1 = 0 then sie d else intena d)"
      by (rule Cons.IH) (use Cons.prems n in \<open>auto simp: d_def\<close>)
    with False n p Cons.prems(3) show ?thesis by (auto simp: d_def split: if_splits)
  qed
qed

section \<open>Interleaved execution\<close>

text \<open>
  Where a hart is between the memory accesses of the two operations: \<open>Spinning l\<close> is the
  test-and-set loop of \<open>acquire\<close>, \<open>Swapped l\<close> has won it but not yet recorded the CPU,
  \<open>Cleared l\<close> is inside \<open>release\<close> with the CPU field cleared but the lock word still set.
\<close>

datatype 'l ctl = Running | Spinning 'l | Swapped 'l | Cleared 'l

record 'l smp =
  cpus :: "nat \<Rightarrow> cpu"
  lks :: "'l \<Rightarrow> spinlock"
  ctl :: "nat \<Rightarrow> 'l ctl"

inductive smp_step :: "'l smp \<Rightarrow> 'l smp \<Rightarrow> bool" where
  acq_begin: "ctl m h = Running \<Longrightarrow> \<not> holding h (lks m l) \<Longrightarrow>
    smp_step m (m\<lparr>cpus := (cpus m)(h := push_off (cpus m h)), ctl := (ctl m)(h := Spinning l)\<rparr>)"
| acq_swap: "ctl m h = Spinning l \<Longrightarrow> \<not> locked (lks m l) \<Longrightarrow>
    smp_step m (m\<lparr>lks := (lks m)(l := (lks m l)\<lparr>locked := True\<rparr>), ctl := (ctl m)(h := Swapped l)\<rparr>)"
| acq_cpu: "ctl m h = Swapped l \<Longrightarrow>
    smp_step m (m\<lparr>lks := (lks m)(l := (lks m l)\<lparr>lkcpu := Some h\<rparr>), ctl := (ctl m)(h := Running)\<rparr>)"
| rel_begin: "ctl m h = Running \<Longrightarrow> holding h (lks m l) \<Longrightarrow>
    smp_step m (m\<lparr>lks := (lks m)(l := (lks m l)\<lparr>lkcpu := None\<rparr>), ctl := (ctl m)(h := Cleared l)\<rparr>)"
| rel_end: "ctl m h = Cleared l \<Longrightarrow> pop_off (cpus m h) = Ok c \<Longrightarrow>
    smp_step m (m\<lparr>lks := (lks m)(l := (lks m l)\<lparr>locked := False\<rparr>),
                  cpus := (cpus m)(h := c), ctl := (ctl m)(h := Running)\<rparr>)"

inductive smp_reachable :: "'l smp \<Rightarrow> bool" where
  smp_init: "(\<And>h. noff (cpus m h) = 0) \<Longrightarrow> (\<And>l. lks m l = initlock) \<Longrightarrow>
    (\<And>h. ctl m h = Running) \<Longrightarrow> smp_reachable m"
| smp_more: "smp_reachable m \<Longrightarrow> smp_step m m' \<Longrightarrow> smp_reachable m'"

text \<open>The locks whose critical section a hart is in, the last access of \<open>release\<close> included.\<close>

definition owns :: "'l smp \<Rightarrow> nat \<Rightarrow> 'l set" where
  "owns m h = {l. holding h (lks m l) \<or> ctl m h = Swapped l \<or> ctl m h = Cleared l}"

definition spins :: "'l smp \<Rightarrow> nat \<Rightarrow> nat" where
  "spins m h = (case ctl m h of Spinning _ \<Rightarrow> 1 | _ \<Rightarrow> 0)"

definition smp_inv :: "'l smp \<Rightarrow> bool" where
  "smp_inv m \<longleftrightarrow>
     (\<forall>h l. l \<in> owns m h \<longrightarrow> locked (lks m l)) \<and>
     (\<forall>h k l. l \<in> owns m h \<longrightarrow> l \<in> owns m k \<longrightarrow> h = k) \<and>
     (\<forall>h l. ctl m h = Swapped l \<or> ctl m h = Cleared l \<longrightarrow> lkcpu (lks m l) = None) \<and>
     (\<forall>l. \<not> locked (lks m l) \<longrightarrow> lkcpu (lks m l) = None) \<and>
     (\<forall>h. finite (owns m h) \<and> noff (cpus m h) = int (card (owns m h) + spins m h)) \<and>
     (\<forall>h. 0 < noff (cpus m h) \<longrightarrow> \<not> sie (cpus m h))"

lemma smp_invI:
  assumes "\<And>h l. l \<in> owns m h \<Longrightarrow> locked (lks m l)"
    and "\<And>h k l. l \<in> owns m h \<Longrightarrow> l \<in> owns m k \<Longrightarrow> h = k"
    and "\<And>h l. ctl m h = Swapped l \<or> ctl m h = Cleared l \<Longrightarrow> lkcpu (lks m l) = None"
    and "\<And>l. \<not> locked (lks m l) \<Longrightarrow> lkcpu (lks m l) = None"
    and "\<And>h. finite (owns m h) \<and> noff (cpus m h) = int (card (owns m h) + spins m h)"
    and "\<And>h. 0 < noff (cpus m h) \<Longrightarrow> \<not> sie (cpus m h)"
  shows "smp_inv m"
  using assms unfolding smp_inv_def by blast

lemma smp_invD:
  assumes "smp_inv m"
  shows "l \<in> owns m h \<Longrightarrow> locked (lks m l)"
    and "l \<in> owns m h \<Longrightarrow> l \<in> owns m k \<Longrightarrow> h = k"
    and "ctl m h = Swapped l \<or> ctl m h = Cleared l \<Longrightarrow> lkcpu (lks m l) = None"
    and "\<not> locked (lks m l) \<Longrightarrow> lkcpu (lks m l) = None"
    and "finite (owns m h)" "noff (cpus m h) = int (card (owns m h) + spins m h)"
    and "0 < noff (cpus m h) \<Longrightarrow> \<not> sie (cpus m h)"
  using assms unfolding smp_inv_def by blast+

lemma owns_notin [dest]: "smp_inv m \<Longrightarrow> \<not> locked (lks m l) \<Longrightarrow> l \<notin> owns m h"
  using smp_invD(1) [of m l h] by auto

lemma smp_inv_acq_begin:
  assumes inv: "smp_inv m" and "ctl m h = Running"
  shows "smp_inv (m\<lparr>cpus := (cpus m)(h := push_off (cpus m h)), ctl := (ctl m)(h := Spinning l)\<rparr>)"
    (is "smp_inv ?m")
proof -
  have o: "owns ?m = owns m" using assms(2) by (auto simp: owns_def fun_eq_iff)
  have s: "spins ?m k = (if k = h then 1 else spins m k)" for k
    by (auto simp: spins_def)
  have h0: "spins m h = 0" using assms(2) by (simp add: spins_def)
  show ?thesis
    by (rule smp_invI; (unfold o s)?)
      (use smp_invD [OF inv] h0 in \<open>auto split: if_splits\<close>)
qed

lemma smp_inv_acq_swap:
  assumes inv: "smp_inv m" and "ctl m h = Spinning l" "\<not> locked (lks m l)"
  shows "smp_inv (m\<lparr>lks := (lks m)(l := (lks m l)\<lparr>locked := True\<rparr>), ctl := (ctl m)(h := Swapped l)\<rparr>)"
    (is "smp_inv ?m")
proof -
  have n: "lkcpu (lks m l) = None" using smp_invD(4) [OF inv assms(3)] .
  have o: "owns ?m k = (if k = h then insert l (owns m h) else owns m k)" for k
    using assms(2) n by (auto simp: owns_def holding_def)
  have ni: "l \<notin> owns m k" for k using owns_notin [OF inv assms(3)] .
  have s: "spins ?m k = (if k = h then 0 else spins m k)" for k
    by (auto simp: spins_def)
  have h0: "spins m h = 1" using assms(2) by (simp add: spins_def)
  show ?thesis
    by (rule smp_invI; (unfold o s)?)
      (use smp_invD [OF inv] h0 n ni in \<open>auto split: if_splits\<close>)
qed

lemma smp_inv_acq_cpu:
  assumes inv: "smp_inv m" and "ctl m h = Swapped l"
  shows "smp_inv (m\<lparr>lks := (lks m)(l := (lks m l)\<lparr>lkcpu := Some h\<rparr>), ctl := (ctl m)(h := Running)\<rparr>)"
    (is "smp_inv ?m")
proof -
  have l: "l \<in> owns m h" "locked (lks m l)" "lkcpu (lks m l) = None"
    using assms(2) smp_invD(1,3) [OF inv] by (auto simp: owns_def)
  have o: "owns ?m = owns m"
    using assms(2) l by (auto simp: owns_def holding_def fun_eq_iff)
  have s: "spins ?m = spins m" using assms(2) by (auto simp: spins_def fun_eq_iff)
  have ne: "k \<noteq> h \<Longrightarrow> l \<notin> owns m k" for k using smp_invD(2) [OF inv l(1)] by auto
  show ?thesis
    by (rule smp_invI; (unfold o s)?)
      (use smp_invD [OF inv] l ne in \<open>auto simp: owns_def split: if_splits\<close>)
qed

lemma smp_inv_rel_begin:
  assumes inv: "smp_inv m" and "ctl m h = Running" "holding h (lks m l)"
  shows "smp_inv (m\<lparr>lks := (lks m)(l := (lks m l)\<lparr>lkcpu := None\<rparr>), ctl := (ctl m)(h := Cleared l)\<rparr>)"
    (is "smp_inv ?m")
proof -
  have o: "owns ?m = owns m"
    using assms(2,3) by (auto simp: owns_def holding_def fun_eq_iff)
  have s: "spins ?m = spins m" using assms(2) by (auto simp: spins_def fun_eq_iff)
  show ?thesis
    by (rule smp_invI; (unfold o s)?)
      (use smp_invD [OF inv] in \<open>auto split: if_splits\<close>)
qed

lemma pop_off_Ok:
  "\<not> sie c \<Longrightarrow> 1 \<le> noff c \<Longrightarrow>
     pop_off c = Ok (c\<lparr>noff := noff c - 1, sie := (noff c = 1 \<and> intena c)\<rparr>)"
  by (cases c) (simp add: pop_off_def Let_def)

lemma smp_release_pops:
  assumes inv: "smp_inv m" and "ctl m h = Cleared l"
  shows "1 \<le> noff (cpus m h)" "\<not> sie (cpus m h)"
proof -
  have "l \<in> owns m h" using assms(2) by (simp add: owns_def)
  then have "0 < card (owns m h)" using smp_invD(5) [OF inv] card_gt_0_iff by blast
  then show "1 \<le> noff (cpus m h)" using smp_invD(6) [OF inv] by simp
  then show "\<not> sie (cpus m h)" using smp_invD(7) [OF inv] by simp
qed

lemma smp_inv_rel_end:
  assumes inv: "smp_inv m" and "ctl m h = Cleared l" "pop_off (cpus m h) = Ok c"
  shows "smp_inv (m\<lparr>lks := (lks m)(l := (lks m l)\<lparr>locked := False\<rparr>),
                    cpus := (cpus m)(h := c), ctl := (ctl m)(h := Running)\<rparr>)"
    (is "smp_inv ?m")
proof -
  note pops = smp_release_pops [OF assms(1,2)]
  have l: "l \<in> owns m h" "locked (lks m l)" "lkcpu (lks m l) = None"
    using assms(2) smp_invD(1,3) [OF inv] by (auto simp: owns_def)
  have ne: "k \<noteq> h \<Longrightarrow> l \<notin> owns m k" for k using smp_invD(2) [OF inv l(1)] by auto
  then have o: "owns ?m k = (if k = h then owns m h - {l} else owns m k)" for k
    using assms(2) l by (auto simp: owns_def holding_def)
  have s: "spins ?m = spins m" using assms(2) by (auto simp: spins_def fun_eq_iff)
  have s0: "spins m h = 0" using assms(2) by (simp add: spins_def)
  have c: "c = (cpus m h)\<lparr>noff := noff (cpus m h) - 1, sie := (noff (cpus m h) = 1 \<and> intena (cpus m h))\<rparr>"
    using assms(3) pop_off_Ok [OF pops(2,1)] by simp
  have cd: "card (owns m h) = Suc (card (owns m h - {l}))"
    using l(1) smp_invD(5) [OF inv] by (metis card_Suc_Diff1)
  have c': "noff c = int (card (owns m h - {l}))" "0 < noff c \<Longrightarrow> \<not> sie c"
    using c cd s0 smp_invD(6) [OF inv, of h] by auto
  show ?thesis
    by (rule smp_invI; (unfold o s)?)
      (use smp_invD [OF inv] l ne s0 c' in \<open>auto split: if_splits\<close>)
qed

lemma smp_reachable_inv: "smp_reachable m \<Longrightarrow> smp_inv m"
proof (induction rule: smp_reachable.induct)
  case (smp_init m)
  have "owns m h = {}" "spins m h = 0" for h
    using smp_init by (auto simp: owns_def spins_def holding_def initlock_def)
  with smp_init show ?case by (intro smp_invI) (auto simp: initlock_def)
next
  case (smp_more m m')
  from smp_more.hyps(2) smp_more.IH show ?case
    by cases (auto intro: smp_inv_acq_begin smp_inv_acq_swap smp_inv_acq_cpu
        smp_inv_rel_begin smp_inv_rel_end)
qed

section \<open>The sequential operations and the interleaving\<close>

text \<open>A call that the sequential model lets return is a run of the steps of its hart.\<close>

lemma acquire_Ok_iff: "acquire h lk c = Ok (lk', c') \<longleftrightarrow>
    \<not> locked lk \<and> lk' = \<lparr>locked = True, lkcpu = Some h\<rparr> \<and> c' = push_off c"
  by (auto simp: acquire_def Let_def holding_def)

lemma release_Ok_iff: "release h lk c = Ok (lk', c') \<longleftrightarrow>
    holding h lk \<and> lk' = \<lparr>locked = False, lkcpu = None\<rparr> \<and> pop_off c = Ok c'"
  by (auto simp: release_def elim!: bnd_eq_OkE)

lemma smp_acquire:
  assumes "smp_reachable m" "ctl m h = Running" "acquire h (lks m l) (cpus m h) = Ok (lk', c')"
  shows "smp_reachable (m\<lparr>lks := (lks m)(l := lk'), cpus := (cpus m)(h := c'), ctl := (ctl m)(h := Running)\<rparr>)"
proof -
  note a = assms(3)[unfolded acquire_Ok_iff]
  have "\<not> holding h (lks m l)" using a by (simp add: holding_def)
  from smp_more [OF smp_more [OF smp_more [OF assms(1) acq_begin [OF assms(2) this]] acq_swap [where l=l and h=h]]
      acq_cpu [where l=l and h=h]]
  show ?thesis using a by (cases "lks m l", cases m) simp
qed

lemma smp_release:
  assumes "smp_reachable m" "ctl m h = Running" "release h (lks m l) (cpus m h) = Ok (lk', c')"
  shows "smp_reachable (m\<lparr>lks := (lks m)(l := lk'), cpus := (cpus m)(h := c'), ctl := (ctl m)(h := Running)\<rparr>)"
proof -
  note a = assms(3)[unfolded release_Ok_iff]
  have "holding h (lks m l)" using a by simp
  from smp_more [OF smp_more [OF assms(1) rel_begin [OF assms(2) this]] rel_end [where l=l and h=h and c=c']]
  show ?thesis using a by (cases "lks m l", cases m) (simp add: holding_def)
qed

section \<open>Properties\<close>


definition smp0 :: "nat smp" where
  "smp0 = \<lparr>cpus = (\<lambda>_. \<lparr>noff = 0, intena = False, sie = True\<rparr>), lks = (\<lambda>_. initlock), ctl = (\<lambda>_. Running)\<rparr>"

definition smp1 :: "nat smp" where
  "smp1 = smp0\<lparr>lks := (lks smp0)(5 := \<lparr>locked = True, lkcpu = Some 1\<rparr>),
     cpus := (cpus smp0)(1 := \<lparr>noff = 1, intena = True, sie = False\<rparr>)\<rparr>"

lemma smp1_reachable: "smp_reachable smp1"
proof -
  have "smp_reachable smp0" by (rule smp_init) (simp_all add: smp0_def)
  from smp_acquire [OF this, of 1 5] show ?thesis
    by (simp add: smp0_def smp1_def acquire_Ok_iff initlock_def push_off_def fun_upd_idem)
qed


text \<open>
  C21. A balanced run of \<open>push_off\<close> and \<open>pop_off\<close> calls, nested or one after the other,
  never panics, ends at depth 0 and leaves the interrupt-enable bit as it was before the
  first call.
\<close>

theorem push_off_pop_off_balanced:
  assumes "depth_ok 0 bs" "noff c = 0"
  shows "\<exists>c'. off_run bs c = Ok c' \<and> noff c' = 0 \<and> sie c' = sie c"
  using off_run_nested [of 0 bs c] assms by simp

text \<open>Witness for C21: two nested calls, then a single one.\<close>

theorem push_off_pop_off_balanced_witness:
  "depth_ok 0 [True, True, False, False, True, False] \<and>
   (\<exists>c'. off_run [True, True, False, False, True, False] \<lparr>noff = 0, intena = False, sie = True\<rparr> = Ok c' \<and>
     noff c' = 0 \<and> sie c')"
  using push_off_pop_off_balanced [of "[True, True, False, False, True, False]"
      "\<lparr>noff = 0, intena = False, sie = True\<rparr>"] by simp

end
