(* ===== verification/Procdata.thy ===== *)
theory Procdata
  imports Kalloc Spinlock
begin

text \<open>
  The process table and the per-CPU state, \<^verbatim>\<open>kernel/proc.h\<close> and the globals of
  \<^verbatim>\<open>kernel/proc.c\<close>: the data every later theory extends.  A pointer into a kernel table is the
  index of the entry (\<open>None\<close> for a null pointer), a sleep channel is the object whose address
  the code sleeps on.  The kernel runs as one hart, \<open>hart\<close>, whose \<open>cpu\<close> record is \<open>thiscpu\<close>;
  what other harts do is the subject of theory \<open>Spinlock\<close>.
\<close>

datatype procstate = UNUSED | USED | SLEEPING | RUNNABLE | RUNNING | ZOMBIE

datatype chan =
    NoChan | ChanProc nat | ChanTicks | ChanLog | ChanBuf nat | ChanInode nat
  | ChanPipeR uint64 | ChanPipeW uint64 | ChanCons | ChanTx | ChanDisk

text \<open>\<^verbatim>\<open>struct context\<close>: the callee-saved registers are one array, \<open>s0\<close> at index 0.\<close>

record kcontext =
  c_ra :: uint64
  c_sp :: uint64
  c_s :: "nat \<Rightarrow> uint64"

record proc =
  p_lock :: spinlock
  p_state :: procstate
  p_chan :: chan
  p_killed :: bool
  p_xstate :: int
  p_pid :: int
  p_parent :: "nat option"
  p_kstack :: uint64
  p_sz :: uint64
  p_pagetable :: uint64
  p_trapframe :: uint64
  p_context :: kcontext
  p_ofile :: "nat \<Rightarrow> nat option"
  p_cwd :: "nat option"
  p_name :: bytes

text \<open>
  Offsets of \<^verbatim>\<open>struct trapframe\<close> in its page; the addresses of the trampoline page and of
  \<^verbatim>\<open>forkret\<close>, \<^verbatim>\<open>usertrap\<close>, \<^verbatim>\<open>uservec\<close> and \<^verbatim>\<open>userret\<close> are fixed by the linker.
\<close>

definition TF_kernel_satp :: nat where "TF_kernel_satp = 0"
definition TF_kernel_sp :: nat where "TF_kernel_sp = 8"
definition TF_kernel_trap :: nat where "TF_kernel_trap = 16"
definition TF_epc :: nat where "TF_epc = 24"
definition TF_kernel_hartid :: nat where "TF_kernel_hartid = 32"
definition TF_ra :: nat where "TF_ra = 40"
definition TF_sp :: nat where "TF_sp = 48"
definition TF_a0 :: nat where "TF_a0 = 112"
definition TF_a1 :: nat where "TF_a1 = 120"
definition TF_a7 :: nat where "TF_a7 = 168"
definition TF_SIZE :: nat where "TF_SIZE = 288"

lemmas TF_defs = TF_kernel_satp_def TF_kernel_sp_def TF_kernel_trap_def TF_epc_def
  TF_kernel_hartid_def TF_ra_def TF_sp_def TF_a0_def TF_a1_def TF_a7_def TF_SIZE_def

record ksyms =
  sym_trampoline :: uint64
  sym_uservec :: uint64
  sym_userret :: uint64
  sym_usertrap :: uint64
  sym_forkret :: uint64
  sym_etext :: uint64

record kproc = kmem +
  procs :: "nat \<Rightarrow> proc"
  cpu_proc :: "nat option"
  thiscpu :: cpu
  cpu_context :: kcontext
  hart :: nat
  initproc :: "nat option"
  nextpid :: int
  wait_lock :: spinlock
  ticks :: uint
  kernel_pagetable :: uint64
  ksym :: ksyms

definition zero_context :: kcontext where
  "zero_context = \<lparr>c_ra = 0, c_sp = 0, c_s = (\<lambda>_. 0)\<rparr>"

text \<open>\<^verbatim>\<open>myproc()\<close>; code that dereferences a null result faults in the kernel.\<close>

definition myproc :: "'a kproc_scheme \<Rightarrow> nat option" where
  "myproc s = cpu_proc s"

definition need_proc :: "'a kproc_scheme \<Rightarrow> nat res" where
  "need_proc s = (case myproc s of None \<Rightarrow> Panic ''kerneltrap'' | Some i \<Rightarrow> Ok i)"

definition upd_proc :: "nat \<Rightarrow> (proc \<Rightarrow> proc) \<Rightarrow> 'a kproc_scheme \<Rightarrow> 'a kproc_scheme" where
  "upd_proc i f s = s\<lparr>procs := (procs s)(i := f (procs s i))\<rparr>"

text \<open>\<^verbatim>\<open>acquire\<close> and \<^verbatim>\<open>release\<close> of \<^verbatim>\<open>p->lock\<close> and of \<^verbatim>\<open>wait_lock\<close> by this hart.\<close>

definition acquire_proc :: "nat \<Rightarrow> 'a kproc_scheme \<Rightarrow> 'a kproc_scheme res" where
  "acquire_proc i s =
     bnd (acquire (hart s) (p_lock (procs s i)) (thiscpu s))
       (\<lambda>(lk, c). Ok (upd_proc i (\<lambda>p. p\<lparr>p_lock := lk\<rparr>) (s\<lparr>thiscpu := c\<rparr>)))"

definition release_proc :: "nat \<Rightarrow> 'a kproc_scheme \<Rightarrow> 'a kproc_scheme res" where
  "release_proc i s =
     bnd (release (hart s) (p_lock (procs s i)) (thiscpu s))
       (\<lambda>(lk, c). Ok (upd_proc i (\<lambda>p. p\<lparr>p_lock := lk\<rparr>) (s\<lparr>thiscpu := c\<rparr>)))"

definition acquire_wait :: "'a kproc_scheme \<Rightarrow> 'a kproc_scheme res" where
  "acquire_wait s =
     bnd (acquire (hart s) (wait_lock s) (thiscpu s)) (\<lambda>(lk, c). Ok (s\<lparr>wait_lock := lk, thiscpu := c\<rparr>))"

definition release_wait :: "'a kproc_scheme \<Rightarrow> 'a kproc_scheme res" where
  "release_wait s =
     bnd (release (hart s) (wait_lock s) (thiscpu s)) (\<lambda>(lk, c). Ok (s\<lparr>wait_lock := lk, thiscpu := c\<rparr>))"

definition holding_proc :: "nat \<Rightarrow> 'a kproc_scheme \<Rightarrow> bool" where
  "holding_proc i s \<longleftrightarrow> holding (hart s) (p_lock (procs s i))"

lemma upd_proc_simps [simp]:
  "procs (upd_proc i f s) = (procs s)(i := f (procs s i))"
  "mem (upd_proc i f s) = mem s" "freelist (upd_proc i f s) = freelist s"
  "kend (upd_proc i f s) = kend s" "cpu_proc (upd_proc i f s) = cpu_proc s"
  "thiscpu (upd_proc i f s) = thiscpu s" "hart (upd_proc i f s) = hart s"
  "initproc (upd_proc i f s) = initproc s" "nextpid (upd_proc i f s) = nextpid s"
  "wait_lock (upd_proc i f s) = wait_lock s" "ticks (upd_proc i f s) = ticks s"
  "ksym (upd_proc i f s) = ksym s" "kernel_pagetable (upd_proc i f s) = kernel_pagetable s"
  by (simp_all add: upd_proc_def)

text \<open>
  \<^verbatim>\<open>wakeup\<close> takes and drops the lock of every other process in turn: it panics if the caller
  holds one of them and spins while somebody else does.
\<close>

definition wakeup :: "chan \<Rightarrow> 'a kproc_scheme \<Rightarrow> 'a kproc_scheme res" where
  "wakeup c s =
     (case find (\<lambda>i. Some i \<noteq> myproc s \<and> locked (p_lock (procs s i))) [0..<NPROC] of
        Some i \<Rightarrow> if holding_proc i s then Panic ''acquire'' else Wait ''spin''
      | None \<Rightarrow> Ok (s\<lparr>procs := (\<lambda>i. if i < NPROC \<and> Some i \<noteq> myproc s \<and>
                                       p_state (procs s i) = SLEEPING \<and> p_chan (procs s i) = c
                                    then (procs s i)\<lparr>p_state := RUNNABLE\<rparr> else procs s i)\<rparr>))"

text \<open>Static data as the loader leaves it: zero, with \<^verbatim>\<open>nextpid\<close> 1.\<close>

definition zero_proc :: proc where
  "zero_proc = \<lparr>p_lock = initlock, p_state = UNUSED, p_chan = NoChan, p_killed = False, p_xstate = 0,
     p_pid = 0, p_parent = None, p_kstack = 0, p_sz = 0, p_pagetable = 0, p_trapframe = 0,
     p_context = zero_context, p_ofile = (\<lambda>_. None), p_cwd = None, p_name = (\<lambda>_. 0)\<rparr>"

definition boot_kproc :: "bytes \<Rightarrow> uint64 \<Rightarrow> uint64 \<Rightarrow> ksyms \<Rightarrow> kproc" where
  "boot_kproc m fl ke syms =
     \<lparr>mem = m, freelist = fl, kend = ke, procs = (\<lambda>_. zero_proc), cpu_proc = None,
      thiscpu = \<lparr>noff = 0, intena = False, sie = False\<rparr>, cpu_context = zero_context, hart = 0,
      initproc = None, nextpid = 1, wait_lock = initlock, ticks = 0, kernel_pagetable = 0, ksym = syms\<rparr>"

section \<open>Waking processes\<close>

text \<open>No process table lock is held, except perhaps the current process's own.\<close>

definition unlocked :: "'a kproc_scheme \<Rightarrow> bool" where
  "unlocked s \<longleftrightarrow> (\<forall>i<NPROC. Some i \<noteq> myproc s \<longrightarrow> \<not> locked (p_lock (procs s i)))"

definition wake1 :: "chan \<Rightarrow> proc \<Rightarrow> proc" where
  "wake1 c p = (if p_state p = SLEEPING \<and> p_chan p = c then p\<lparr>p_state := RUNNABLE\<rparr> else p)"

definition woken :: "chan \<Rightarrow> 'a kproc_scheme \<Rightarrow> 'a kproc_scheme" where
  "woken c s = s\<lparr>procs := (\<lambda>i. if i < NPROC \<and> Some i \<noteq> myproc s then wake1 c (procs s i) else procs s i)\<rparr>"

lemma wake1_simps [simp]:
  "p_lock (wake1 c p) = p_lock p" "p_chan (wake1 c p) = p_chan p" "p_killed (wake1 c p) = p_killed p"
  "p_xstate (wake1 c p) = p_xstate p" "p_pid (wake1 c p) = p_pid p" "p_parent (wake1 c p) = p_parent p"
  "p_kstack (wake1 c p) = p_kstack p" "p_sz (wake1 c p) = p_sz p" "p_pagetable (wake1 c p) = p_pagetable p"
  "p_trapframe (wake1 c p) = p_trapframe p" "p_ofile (wake1 c p) = p_ofile p" "p_cwd (wake1 c p) = p_cwd p"
  "p_name (wake1 c p) = p_name p" "p_context (wake1 c p) = p_context p"
  by (simp_all add: wake1_def)

lemma woken_simps [simp]:
  "mem (woken c s) = mem s" "freelist (woken c s) = freelist s" "kend (woken c s) = kend s"
  "cpu_proc (woken c s) = cpu_proc s" "thiscpu (woken c s) = thiscpu s" "hart (woken c s) = hart s"
  "initproc (woken c s) = initproc s" "nextpid (woken c s) = nextpid s" "wait_lock (woken c s) = wait_lock s"
  "ticks (woken c s) = ticks s" "ksym (woken c s) = ksym s" "kernel_pagetable (woken c s) = kernel_pagetable s"
  by (simp_all add: woken_def)

lemma woken_proc [simp]:
  "p_lock (procs (woken c s) i) = p_lock (procs s i)" "p_chan (procs (woken c s) i) = p_chan (procs s i)"
  "p_killed (procs (woken c s) i) = p_killed (procs s i)" "p_xstate (procs (woken c s) i) = p_xstate (procs s i)"
  "p_pid (procs (woken c s) i) = p_pid (procs s i)" "p_parent (procs (woken c s) i) = p_parent (procs s i)"
  "p_kstack (procs (woken c s) i) = p_kstack (procs s i)" "p_sz (procs (woken c s) i) = p_sz (procs s i)"
  "p_pagetable (procs (woken c s) i) = p_pagetable (procs s i)"
  "p_trapframe (procs (woken c s) i) = p_trapframe (procs s i)"
  "p_ofile (procs (woken c s) i) = p_ofile (procs s i)" "p_cwd (procs (woken c s) i) = p_cwd (procs s i)"
  "p_name (procs (woken c s) i) = p_name (procs s i)" "p_context (procs (woken c s) i) = p_context (procs s i)"
  by (simp_all add: woken_def)

lemma wakeup_unlocked:
  assumes "unlocked s"
  shows "wakeup c s = Ok (woken c s)"
proof -
  have "find (\<lambda>i. Some i \<noteq> myproc s \<and> locked (p_lock (procs s i))) [0..<NPROC] = None"
    using assms by (auto simp: find_None_iff unlocked_def)
  then show ?thesis by (auto simp: wakeup_def woken_def wake1_def fun_eq_iff)
qed

lemma unlocked_woken [simp]: "unlocked (woken c s) = unlocked s"
  by (simp add: unlocked_def myproc_def)

end
