(* ===== verification/Cstring.thy ===== *)
theory Cstring
  imports Prelude
begin

text \<open>
  \<^verbatim>\<open>kernel/string.c\<close>, and the routines of \<^verbatim>\<open>user/ulib.c\<close> that differ from it. A routine that
  writes (\<open>memset\<close>, \<open>memmove\<close>) takes the whole memory and addresses in it, so that overlapping
  regions are visible; a routine that only reads takes the byte arrays its pointers denote. The
  loops are the source's loops; the lemmas give their closed forms (\<^const>\<open>put\<close>, \<^const>\<open>fill\<close>),
  which the other theories use for block moves.
\<close>

section \<open>Definitions\<close>

subsection \<open>memset, memcmp, memmove\<close>

function memset_loop :: "bytes \<Rightarrow> nat \<Rightarrow> byte \<Rightarrow> nat \<Rightarrow> nat \<Rightarrow> bytes" where
  "memset_loop m dst c i n =
     (if i < n then memset_loop (m(dst + i := c)) dst c (i + 1) n else m)"
  by pat_completeness auto
termination
  by (relation "measure (\<lambda>(m, dst, c, i, n). n - i)") auto

declare memset_loop.simps [simp del]

definition memset :: "bytes \<Rightarrow> nat \<Rightarrow> byte \<Rightarrow> nat \<Rightarrow> bytes" where
  "memset m dst c n = memset_loop m dst c 0 n"

fun memcmp :: "bytes \<Rightarrow> bytes \<Rightarrow> nat \<Rightarrow> int" where
  "memcmp s1 s2 0 = 0"
| "memcmp s1 s2 (Suc n) =
     (if s1 0 \<noteq> s2 0 then uint (s1 0) - uint (s2 0)
      else memcmp (\<lambda>i. s1 (Suc i)) (\<lambda>i. s2 (Suc i)) n)"

text \<open>\<open>memmove_up\<close> is the loop \<^verbatim>\<open>*d++ = *s++\<close>, \<open>memmove_down\<close> the loop \<^verbatim>\<open>*--d = *--s\<close>.\<close>

fun memmove_up :: "bytes \<Rightarrow> nat \<Rightarrow> nat \<Rightarrow> nat \<Rightarrow> bytes" where
  "memmove_up m d s 0 = m"
| "memmove_up m d s (Suc n) = memmove_up (m(d := m s)) (d + 1) (s + 1) n"

fun memmove_down :: "bytes \<Rightarrow> nat \<Rightarrow> nat \<Rightarrow> nat \<Rightarrow> bytes" where
  "memmove_down m d s 0 = m"
| "memmove_down m d s (Suc n) = memmove_down (m(d - 1 := m (s - 1))) (d - 1) (s - 1) n"

definition memmove :: "bytes \<Rightarrow> nat \<Rightarrow> nat \<Rightarrow> nat \<Rightarrow> bytes" where
  "memmove m d s n =
     (if n = 0 then m
      else if s < d \<and> s + n > d then memmove_down m (d + n) (s + n) n
      else memmove_up m d s n)"

definition memcpy :: "bytes \<Rightarrow> nat \<Rightarrow> nat \<Rightarrow> nat \<Rightarrow> bytes" where
  "memcpy m d s n = memmove m d s n"

text \<open>The user library's version decides the direction by the addresses alone.\<close>

definition umemmove :: "bytes \<Rightarrow> nat \<Rightarrow> nat \<Rightarrow> int \<Rightarrow> bytes" where
  "umemmove m d s n =
     (if s > d then memmove_up m d s (nat n)
      else memmove_down m (nat (int d + n)) (nat (int s + n)) (nat n))"

subsection \<open>Strings\<close>

fun strncmp :: "bytes \<Rightarrow> bytes \<Rightarrow> nat \<Rightarrow> int" where
  "strncmp p q 0 = 0"
| "strncmp p q (Suc n) =
     (if p 0 \<noteq> 0 \<and> p 0 = q 0 then strncmp (\<lambda>i. p (Suc i)) (\<lambda>i. q (Suc i)) n
      else uint (p 0) - uint (q 0))"

fun strncpy_pad :: "bytes \<Rightarrow> nat \<Rightarrow> nat \<Rightarrow> bytes" where
  "strncpy_pad m s 0 = m"
| "strncpy_pad m s (Suc n) = strncpy_pad (m(s := 0)) (s + 1) n"

fun strncpy :: "bytes \<Rightarrow> nat \<Rightarrow> bytes \<Rightarrow> nat \<Rightarrow> bytes" where
  "strncpy m s t 0 = m"
| "strncpy m s t (Suc n) =
     (if t 0 \<noteq> 0 then strncpy (m(s := t 0)) (s + 1) (\<lambda>i. t (Suc i)) n
      else strncpy_pad (m(s := t 0)) (s + 1) n)"

text \<open>
  \<open>safestrcpy_loop\<close> has the value of \<^verbatim>\<open>n\<close> after \<^verbatim>\<open>--n\<close>; the final \<^verbatim>\<open>*s = 0\<close> is written at the
  place the loop stopped, one past a copied terminator.
\<close>

fun safestrcpy_loop :: "bytes \<Rightarrow> nat \<Rightarrow> bytes \<Rightarrow> nat \<Rightarrow> bytes" where
  "safestrcpy_loop m s t 0 = m(s := 0)"
| "safestrcpy_loop m s t (Suc n) =
     (if t 0 \<noteq> 0 then safestrcpy_loop (m(s := t 0)) (s + 1) (\<lambda>i. t (Suc i)) n
      else m(s := t 0, s + 1 := 0))"

definition safestrcpy :: "bytes \<Rightarrow> nat \<Rightarrow> bytes \<Rightarrow> int \<Rightarrow> bytes" where
  "safestrcpy m s t n = (if n \<le> 0 then m else safestrcpy_loop m s t (nat (n - 1)))"

text \<open>\<open>strlen\<close> returns only on a terminated string; running off the end is \<open>None\<close>.\<close>

partial_function (option) strlen_loop :: "bytes \<Rightarrow> nat \<Rightarrow> nat option" where
  "strlen_loop s n = (if s n \<noteq> 0 then strlen_loop s (n + 1) else Some n)"

definition strlen :: "bytes \<Rightarrow> nat option" where
  "strlen s = strlen_loop s 0"

text \<open>The bytes of a C string held as a list, terminator and what follows it included.\<close>

definition cstr :: "byte list \<Rightarrow> bytes" where
  "cstr xs = (\<lambda>i. if i < length xs then xs ! i else 0)"

section \<open>Closed forms\<close>

lemma memset_loop_eq:
  "memset_loop m dst c i n = (\<lambda>b. if dst + i \<le> b \<and> b < dst + n then c else m b)"
proof (induction m dst c i n rule: memset_loop.induct)
  case (1 m dst c i n)
  show ?case
  proof (cases "i < n")
    case True
    have "memset_loop m dst c i n = memset_loop (m(dst + i := c)) dst c (i + 1) n"
      using True by (subst memset_loop.simps) (simp only: if_True)
    also have "\<dots> = (\<lambda>b. if dst + (i + 1) \<le> b \<and> b < dst + n then c else (m(dst + i := c)) b)"
      using True by (rule "1.IH")
    finally show ?thesis using True by (auto simp: fun_eq_iff)
  next
    case False
    then show ?thesis by (auto simp: memset_loop.simps [of m dst c i n] fun_eq_iff)
  qed
qed

lemma memset_eq: "memset m dst c n = fill m dst n c"
  by (simp add: memset_def memset_loop_eq fill_def)

lemma memmove_up_eq:
  "d \<le> s \<or> s + n \<le> d \<Longrightarrow> memmove_up m d s n = put m d n (\<lambda>i. m (s + i))"
proof (induction n arbitrary: m d s)
  case 0
  then show ?case by simp
next
  case (Suc n)
  have "memmove_up m d s (Suc n) =
      put (m(d := m s)) (d + 1) n (\<lambda>i. (m(d := m s)) (s + 1 + i))"
    using Suc.prems by (simp only: memmove_up.simps) (rule Suc.IH, auto)
  also have "\<dots> = put m d (Suc n) (\<lambda>i. m (s + i))"
  proof
    fix b
    show "put (m(d := m s)) (d + 1) n (\<lambda>i. (m(d := m s)) (s + 1 + i)) b
        = put m d (Suc n) (\<lambda>i. m (s + i)) b"
    proof (cases "d < b \<and> b < d + Suc n")
      case True
      then have "Suc (s + (b - Suc d)) = s + (b - d)" by arith
      moreover from True Suc.prems have "s + (b - d) \<noteq> d" by auto
      ultimately show ?thesis using True by (simp add: put_def)
    qed (auto simp: put_def)
  qed
  finally show ?case .
qed

lemma memmove_down_eq:
  "s \<le> d \<or> d + n \<le> s \<Longrightarrow> memmove_down m (d + n) (s + n) n = put m d n (\<lambda>i. m (s + i))"
proof (induction n arbitrary: m)
  case 0
  then show ?case by simp
next
  case (Suc n)
  let ?m = "m(d + n := m (s + n))"
  have "memmove_down m (d + Suc n) (s + Suc n) (Suc n) = memmove_down ?m (d + n) (s + n) n"
    by simp
  also have "\<dots> = put ?m d n (\<lambda>i. ?m (s + i))"
    using Suc.prems by (intro Suc.IH) auto
  also have "\<dots> = put m d (Suc n) (\<lambda>i. m (s + i))"
  proof
    fix b
    show "put ?m d n (\<lambda>i. ?m (s + i)) b = put m d (Suc n) (\<lambda>i. m (s + i)) b"
    proof (cases "d \<le> b \<and> b < d + n")
      case True
      with Suc.prems have "s + (b - d) \<noteq> d + n" by auto
      with True show ?thesis by (simp add: put_def)
    next
      case False
      then show ?thesis by (cases "b = d + n") (auto simp: put_def)
    qed
  qed
  finally show ?case .
qed

text \<open>Both versions move the bytes the source had before the call, however the regions overlap.\<close>

lemma memmove_eq: "memmove m d s n = put m d n (\<lambda>i. m (s + i))"
  by (auto simp: memmove_def memmove_up_eq memmove_down_eq)

lemma umemmove_eq: "0 \<le> n \<Longrightarrow> umemmove m d s n = put m d (nat n) (\<lambda>i. m (s + i))"
proof (cases "s > d")
  case True
  then show ?thesis by (simp add: umemmove_def memmove_up_eq)
next
  case False
  assume "0 \<le> n"
  with False have "umemmove m d s n = memmove_down m (d + nat n) (s + nat n) (nat n)"
    by (simp add: umemmove_def nat_add_distrib)
  with False show ?thesis by (simp add: memmove_down_eq)
qed

lemma memcmp_eq_0: "memcmp p q n = 0 \<longleftrightarrow> (\<forall>i<n. p i = q i)"
  by (induction p q n rule: memcmp.induct) (auto simp: less_Suc_eq_0_disj word_uint_eq_iff)

lemma all_less_Suc_shift: "(\<forall>j<Suc i. P j) \<longleftrightarrow> P 0 \<and> (\<forall>j<i. P (Suc j))"
  by (auto simp: less_Suc_eq_0_disj)

lemma strncmp_eq_0:
  "strncmp p q n = 0 \<longleftrightarrow> (\<forall>i<n. (\<forall>j<i. p j \<noteq> 0) \<longrightarrow> p i = q i)"
proof (induction n arbitrary: p q)
  case 0
  then show ?case by simp
next
  case (Suc n)
  have rhs: "(\<forall>i<Suc n. (\<forall>j<i. p j \<noteq> 0) \<longrightarrow> p i = q i) \<longleftrightarrow>
      p 0 = q 0 \<and> (\<forall>i<n. p 0 \<noteq> 0 \<and> (\<forall>j<i. p (Suc j) \<noteq> 0) \<longrightarrow> p (Suc i) = q (Suc i))"
    by (simp only: all_less_Suc_shift) simp
  show ?case
  proof (cases "p 0 \<noteq> 0 \<and> p 0 = q 0")
    case True
    then show ?thesis unfolding rhs by (simp add: Suc.IH)
  next
    case False
    then show ?thesis unfolding rhs by (auto simp: word_uint_eq_iff)
  qed
qed

lemma strncpy_pad_eq: "strncpy_pad m s n = fill m s n 0"
  by (induction n arbitrary: m s) (auto simp: fill_def fun_eq_iff)

lemma strncpy_eq:
  "strncpy m s t n = put m s n (\<lambda>i. if \<exists>j<i. t j = 0 then 0 else t i)"
proof (induction n arbitrary: m s t)
  case 0
  then show ?case by simp
next
  case (Suc n)
  show ?case
  proof (cases "t 0 = 0")
    case True
    then show ?thesis by (auto simp: strncpy_pad_eq put_def fill_def fun_eq_iff)
  next
    case False
    have shift: "(\<exists>j<b - s. t j = 0) \<longleftrightarrow> (\<exists>j<b - (s + 1). t (Suc j) = 0)" if "s < b" for b
    proof -
      have "(\<exists>j<Suc (b - (s + 1)). t j = 0) \<longleftrightarrow> (\<exists>j<b - (s + 1). t (Suc j) = 0)"
        using False by (auto simp: less_Suc_eq_0_disj)
      moreover have "Suc (b - (s + 1)) = b - s" using that by simp
      ultimately show ?thesis by simp
    qed
    from False Suc.IH show ?thesis
      by (auto simp: put_def fun_eq_iff shift Suc_diff_Suc)
  qed
qed

lemma strncmp_strncpy: "strncmp t (\<lambda>i. strncpy m s t n (s + i)) n = 0"
  by (auto simp: strncmp_eq_0 strncpy_eq byte_simps)

lemma strlen_loop_eq:
  assumes "s (a + k) = 0" and "\<forall>i<k. s (a + i) \<noteq> 0"
  shows "strlen_loop s a = Some (a + k)"
  using assms
proof (induction k arbitrary: a)
  case 0
  then show ?case by (simp add: strlen_loop.simps)
next
  case (Suc k)
  then have "s a \<noteq> 0" by (metis add.right_neutral zero_less_Suc)
  moreover have "strlen_loop s (a + 1) = Some (a + 1 + k)"
    using Suc.prems by (intro Suc.IH) auto
  ultimately show ?case by (simp add: strlen_loop.simps)
qed

lemma strlen_eq: "s k = 0 \<Longrightarrow> \<forall>i<k. s i \<noteq> 0 \<Longrightarrow> strlen s = Some k"
  using strlen_loop_eq [of s 0 k] by (simp add: strlen_def)

lemma strlen_cstr: "0 \<notin> set xs \<Longrightarrow> strlen (cstr xs) = Some (length xs)"
  by (rule strlen_eq) (auto simp: cstr_def in_set_conv_nth)

end
