(* ===== verification/Vm.thy ===== *)
theory Vm
  imports Procdata Cstring
begin

unbundle bit_operations_syntax

text \<open>
  Virtual memory, \<^verbatim>\<open>kernel/vm.c\<close> and the Sv39 macros of \<^verbatim>\<open>kernel/riscv.h\<close>.  Page tables live in
  the byte memory of \<open>kmem\<close>, reached through the kernel's direct map, so an address of a PTE is
  a physical address.  Data the kernel holds outside physical pages (a buffer on a kernel stack)
  is a byte list: \<open>copyout\<close> takes the list it copies, \<open>copyin\<close> returns the bytes it copied before
  it stopped and whether it succeeded.  The build sets \<^verbatim>\<open>LAB_SYSCALL\<close>, so \<open>uvmalloc\<close> does not
  clear the pages it maps.
\<close>

section \<open>Page-table entries\<close>

definition PTE_V :: uint64 where "PTE_V = 1"
definition PTE_R :: uint64 where "PTE_R = 2"
definition PTE_W :: uint64 where "PTE_W = 4"
definition PTE_X :: uint64 where "PTE_X = 8"
definition PTE_U :: uint64 where "PTE_U = 16"

lemmas pte_bits = PTE_V_def PTE_R_def PTE_W_def PTE_X_def PTE_U_def

definition PA2PTE :: "uint64 \<Rightarrow> uint64" where
  "PA2PTE pa = push_bit 10 (drop_bit 12 pa)"

definition PTE2PA :: "uint64 \<Rightarrow> uint64" where
  "PTE2PA pte = push_bit 12 (drop_bit 10 pte)"

definition PTE_FLAGS :: "uint64 \<Rightarrow> uint64" where
  "PTE_FLAGS pte = pte AND 0x3FF"

definition PX :: "nat \<Rightarrow> uint64 \<Rightarrow> uint64" where
  "PX level va = drop_bit (12 + 9 * level) va AND 0x1FF"

definition MAXVA :: uint64 where "MAXVA = push_bit (9 + 9 + 9 + 12 - 1) 1"
definition TRAMPOLINE :: uint64 where "TRAMPOLINE = MAXVA - 4096"
definition TRAPFRAME :: uint64 where "TRAPFRAME = TRAMPOLINE - 4096"
definition KSTACK :: "nat \<Rightarrow> uint64" where "KSTACK p = TRAMPOLINE - of_nat (p + 1) * 2 * 4096"

definition UART0 :: uint64 where "UART0 = 0x10000000"
definition VIRTIO0 :: uint64 where "VIRTIO0 = 0x10001000"
definition PLIC :: uint64 where "PLIC = 0x0c000000"

lemma unat_MAXVA: "unat MAXVA = 2 ^ 38"
  by (simp add: MAXVA_def push_bit_eq_mult)

section \<open>Walking\<close>

text \<open>A null result is address 0.\<close>

fun walk_loop :: "nat \<Rightarrow> uint64 \<Rightarrow> uint64 \<Rightarrow> bool \<Rightarrow> 'a kmem_scheme \<Rightarrow> uint64 \<times> 'a kmem_scheme" where
  "walk_loop 0 pagetable va alloc s = (pagetable + 8 * PX 0 va, s)"
| "walk_loop (Suc l) pagetable va alloc s =
     (let pte = pagetable + 8 * PX (Suc l) va;
          e = rd64 (mem s) (unat pte)
      in if e AND PTE_V \<noteq> 0 then walk_loop l (PTE2PA e) va alloc s
         else if \<not> alloc then (0, s)
         else let (pg, s1) = kalloc s in
              if pg = 0 then (0, s1)
              else let m2 = memset (mem s1) (unat pg) 0 PGSIZE;
                       m3 = wr64 m2 (unat pte) (PA2PTE pg OR PTE_V)
                   in walk_loop l pg va alloc (s1\<lparr>mem := m3\<rparr>))"

definition walk :: "uint64 \<Rightarrow> uint64 \<Rightarrow> bool \<Rightarrow> 'a kmem_scheme \<Rightarrow> (uint64 \<times> 'a kmem_scheme) res" where
  "walk pagetable va alloc s =
     (if va \<ge> MAXVA then Panic ''walk'' else Ok (walk_loop 2 pagetable va alloc s))"

lemma walk_bound: "walk pt va alloc s = Ok r \<Longrightarrow> unat va < 2 ^ 38"
  by (auto simp: walk_def word_le_nat_alt unat_MAXVA not_le split: if_splits)

definition walkaddr :: "uint64 \<Rightarrow> uint64 \<Rightarrow> 'a kmem_scheme \<Rightarrow> uint64" where
  "walkaddr pagetable va s =
     (if va \<ge> MAXVA then 0
      else let pte = fst (walk_loop 2 pagetable va False s);
               e = rd64 (mem s) (unat pte)
           in if pte = 0 then 0
              else if e AND PTE_V = 0 then 0
              else if e AND PTE_U = 0 then 0
              else PTE2PA e)"

definition ismapped :: "uint64 \<Rightarrow> uint64 \<Rightarrow> 'a kmem_scheme \<Rightarrow> bool res" where
  "ismapped pagetable va s =
     bnd (walk pagetable va False s) (\<lambda>(pte, _).
       Ok (pte \<noteq> 0 \<and> rd64 (mem s) (unat pte) AND PTE_V \<noteq> 0))"

section \<open>Mapping and unmapping\<close>

function mappages_loop ::
  "uint64 \<Rightarrow> uint64 \<Rightarrow> uint64 \<Rightarrow> uint64 \<Rightarrow> uint64 \<Rightarrow> 'a kmem_scheme \<Rightarrow> (int \<times> 'a kmem_scheme) res" where
  "mappages_loop pagetable a fin pa perm s =
     bnd (walk pagetable a True s) (\<lambda>(pte, s1).
       if pte = 0 then Ok (-1, s1)
       else if rd64 (mem s1) (unat pte) AND PTE_V \<noteq> 0 then Panic ''mappages: remap''
       else let s2 = s1\<lparr>mem := wr64 (mem s1) (unat pte) (PA2PTE pa OR perm OR PTE_V)\<rparr> in
            if a = fin then Ok (0, s2)
            else mappages_loop pagetable (a + 4096) fin (pa + 4096) perm s2)"
  by pat_completeness auto
termination
  by (relation "measure (\<lambda>(pt, a, fin, pa, perm, s). 2 ^ 38 + 4096 - unat a)")
    (auto simp: unat_word_ariths dest!: walk_bound)

definition mappages ::
  "uint64 \<Rightarrow> uint64 \<Rightarrow> uint64 \<Rightarrow> uint64 \<Rightarrow> uint64 \<Rightarrow> 'a kmem_scheme \<Rightarrow> (int \<times> 'a kmem_scheme) res" where
  "mappages pagetable va sze pa perm s =
     (if unat va mod PGSIZE \<noteq> 0 then Panic ''mappages: va not aligned''
      else if unat sze mod PGSIZE \<noteq> 0 then Panic ''mappages: size not aligned''
      else if sze = 0 then Panic ''mappages: size''
      else mappages_loop pagetable va (va + sze - 4096) pa perm s)"

lemma mappages_bound: "mappages pt va sze pa perm s = Ok r \<Longrightarrow> unat va < 2 ^ 38"
  by (subst (asm) mappages_def, subst (asm) mappages_loop.simps)
    (auto simp: res_simps dest!: walk_bound split: if_splits)

definition kvmmap ::
  "uint64 \<Rightarrow> uint64 \<Rightarrow> uint64 \<Rightarrow> uint64 \<Rightarrow> uint64 \<Rightarrow> 'a kmem_scheme \<Rightarrow> 'a kmem_scheme res" where
  "kvmmap kpgtbl va pa sz perm s =
     bnd (mappages kpgtbl va sz pa perm s) (\<lambda>(r, s1). if r \<noteq> 0 then Panic ''kvmmap'' else Ok s1)"

definition uvmcreate :: "'a kmem_scheme \<Rightarrow> uint64 \<times> 'a kmem_scheme" where
  "uvmcreate s =
     (let (pagetable, s1) = kalloc s in
      if pagetable = 0 then (0, s1)
      else (pagetable, s1\<lparr>mem := memset (mem s1) (unat pagetable) 0 PGSIZE\<rparr>))"

function uvmunmap_loop ::
  "uint64 \<Rightarrow> uint64 \<Rightarrow> uint64 \<Rightarrow> bool \<Rightarrow> 'a kmem_scheme \<Rightarrow> 'a kmem_scheme res" where
  "uvmunmap_loop pagetable a lim do_free s =
     (if a < lim then
        bnd (walk pagetable a False s) (\<lambda>(pte, _).
          let e = rd64 (mem s) (unat pte) in
          if pte = 0 \<or> e AND PTE_V = 0 then uvmunmap_loop pagetable (a + 4096) lim do_free s
          else if PTE_FLAGS e = PTE_V then Panic ''uvmunmap: not a leaf''
          else bnd (if do_free then kfree (PTE2PA e) s else Ok s) (\<lambda>s1.
                 uvmunmap_loop pagetable (a + 4096) lim do_free
                   (s1\<lparr>mem := wr64 (mem s1) (unat pte) 0\<rparr>)))
      else Ok s)"
  by pat_completeness auto
termination
  by (relation "measure (\<lambda>(pt, a, lim, d, s). 2 ^ 38 + 4096 - unat a)")
    (auto simp: unat_word_ariths dest!: walk_bound)

definition uvmunmap :: "uint64 \<Rightarrow> uint64 \<Rightarrow> uint64 \<Rightarrow> bool \<Rightarrow> 'a kmem_scheme \<Rightarrow> 'a kmem_scheme res" where
  "uvmunmap pagetable va npages do_free s =
     (if unat va mod PGSIZE \<noteq> 0 then Panic ''uvmunmap: not aligned''
      else uvmunmap_loop pagetable va (va + npages * 4096) do_free s)"

text \<open>The page count goes through a 32-bit \<^verbatim>\<open>int\<close>.\<close>

definition uvmdealloc ::
  "uint64 \<Rightarrow> uint64 \<Rightarrow> uint64 \<Rightarrow> 'a kmem_scheme \<Rightarrow> (uint64 \<times> 'a kmem_scheme) res" where
  "uvmdealloc pagetable oldsz newsz s =
     (if newsz \<ge> oldsz then Ok (oldsz, s)
      else if PGROUNDUP newsz < PGROUNDUP oldsz then
        let npages = scast (ucast ((PGROUNDUP oldsz - PGROUNDUP newsz) div 4096) :: uint)
        in bnd (uvmunmap pagetable (PGROUNDUP newsz) npages True s) (\<lambda>s1. Ok (newsz, s1))
      else Ok (newsz, s))"

function uvmalloc_loop ::
  "uint64 \<Rightarrow> uint64 \<Rightarrow> uint64 \<Rightarrow> uint64 \<Rightarrow> uint64 \<Rightarrow> 'a kmem_scheme \<Rightarrow> (uint64 \<times> 'a kmem_scheme) res" where
  "uvmalloc_loop pagetable a oldsz newsz xperm s =
     (if a < newsz then
        let (pg, s1) = kalloc s in
        if pg = 0 then bnd (uvmdealloc pagetable a oldsz s1) (\<lambda>(_, s2). Ok (0, s2))
        else bnd (mappages pagetable a 4096 pg (PTE_R OR PTE_U OR xperm) s1) (\<lambda>(r, s2).
               if r \<noteq> 0 then
                 bnd (kfree pg s2) (\<lambda>s3. bnd (uvmdealloc pagetable a oldsz s3) (\<lambda>(_, s4). Ok (0, s4)))
               else uvmalloc_loop pagetable (a + 4096) oldsz newsz xperm s2)
      else Ok (newsz, s))"
  by pat_completeness auto
termination
  by (relation "measure (\<lambda>(pt, a, old, new, x, s). 2 ^ 38 + 4096 - unat a)")
    (auto simp: unat_word_ariths dest!: mappages_bound)

definition uvmalloc ::
  "uint64 \<Rightarrow> uint64 \<Rightarrow> uint64 \<Rightarrow> uint64 \<Rightarrow> 'a kmem_scheme \<Rightarrow> (uint64 \<times> 'a kmem_scheme) res" where
  "uvmalloc pagetable oldsz newsz xperm s =
     (if newsz < oldsz then Ok (oldsz, s)
      else uvmalloc_loop pagetable (PGROUNDUP oldsz) (PGROUNDUP oldsz) newsz xperm s)"

text \<open>
  \<^verbatim>\<open>freewalk\<close> recurses as deep as the tree in memory goes; the first argument bounds the levels
  below this page (a lemma below shows that 2 is enough for a page table), and \<open>k\<close> counts the
  entries still to visit.
\<close>

fun freewalk_from :: "nat \<Rightarrow> uint64 \<Rightarrow> nat \<Rightarrow> 'a kmem_scheme \<Rightarrow> 'a kmem_scheme res" where
  "freewalk_from n pagetable 0 s = kfree pagetable s"
| "freewalk_from n pagetable (Suc k) s =
     (let slot = unat pagetable + 8 * (512 - Suc k);
          pte = rd64 (mem s) slot
      in if pte AND PTE_V \<noteq> 0 \<and> pte AND (PTE_R OR PTE_W OR PTE_X) = 0 then
           (case n of
              0 \<Rightarrow> Wait ''freewalk: deeper than the bound''
            | Suc n' \<Rightarrow> bnd (freewalk_from n' (PTE2PA pte) 512 s) (\<lambda>s1.
                freewalk_from n pagetable k (s1\<lparr>mem := wr64 (mem s1) slot 0\<rparr>)))
         else if pte AND PTE_V \<noteq> 0 then Panic ''freewalk: leaf''
         else freewalk_from n pagetable k s)"

definition freewalk :: "uint64 \<Rightarrow> 'a kmem_scheme \<Rightarrow> 'a kmem_scheme res" where
  "freewalk pagetable s = freewalk_from 2 pagetable 512 s"

definition uvmfree :: "uint64 \<Rightarrow> uint64 \<Rightarrow> 'a kmem_scheme \<Rightarrow> 'a kmem_scheme res" where
  "uvmfree pagetable sz s =
     bnd (if sz > 0 then uvmunmap pagetable 0 (PGROUNDUP sz div 4096) True s else Ok s)
       (\<lambda>s1. freewalk pagetable s1)"

definition uvmcopy_err :: "uint64 \<Rightarrow> uint64 \<Rightarrow> 'a kmem_scheme \<Rightarrow> (int \<times> 'a kmem_scheme) res" where
  "uvmcopy_err new i s = bnd (uvmunmap new 0 (i div 4096) True s) (\<lambda>s1. Ok (-1, s1))"

function uvmcopy_loop ::
  "uint64 \<Rightarrow> uint64 \<Rightarrow> uint64 \<Rightarrow> uint64 \<Rightarrow> 'a kmem_scheme \<Rightarrow> (int \<times> 'a kmem_scheme) res" where
  "uvmcopy_loop old new i sz s =
     (if i < sz then
        bnd (walk old i False s) (\<lambda>(pte, _).
          let e = rd64 (mem s) (unat pte) in
          if pte = 0 \<or> e AND PTE_V = 0 then uvmcopy_loop old new (i + 4096) sz s
          else let (pg, s1) = kalloc s in
               if pg = 0 then uvmcopy_err new i s1
               else let s2 = s1\<lparr>mem := memmove (mem s1) (unat pg) (unat (PTE2PA e)) PGSIZE\<rparr> in
                    bnd (mappages new i 4096 pg (PTE_FLAGS e) s2) (\<lambda>(r, s3).
                      if r \<noteq> 0 then bnd (kfree pg s3) (uvmcopy_err new i)
                      else uvmcopy_loop old new (i + 4096) sz s3))
      else Ok (0, s))"
  by pat_completeness auto
termination
  by (relation "measure (\<lambda>(old, new, i, sz, s). 2 ^ 38 + 4096 - unat i)")
    (auto simp: unat_word_ariths dest!: walk_bound)

definition uvmcopy :: "uint64 \<Rightarrow> uint64 \<Rightarrow> uint64 \<Rightarrow> 'a kmem_scheme \<Rightarrow> (int \<times> 'a kmem_scheme) res" where
  "uvmcopy old new sz s = uvmcopy_loop old new 0 sz s"

definition uvmclear :: "uint64 \<Rightarrow> uint64 \<Rightarrow> 'a kmem_scheme \<Rightarrow> 'a kmem_scheme res" where
  "uvmclear pagetable va s =
     bnd (walk pagetable va False s) (\<lambda>(pte, _).
       if pte = 0 then Panic ''uvmclear''
       else Ok (s\<lparr>mem := wr64 (mem s) (unat pte) (rd64 (mem s) (unat pte) AND NOT PTE_U)\<rparr>))"

section \<open>Copying to and from user space\<close>

text \<open>
  \<^verbatim>\<open>vmfault\<close> reads the size and page table of the current process, and looks for an existing
  mapping in the page table it is given.
\<close>

definition vmfault :: "uint64 \<Rightarrow> uint64 \<Rightarrow> 'a kproc_scheme \<Rightarrow> (uint64 \<times> 'a kproc_scheme) res" where
  "vmfault pagetable va s =
     bnd (need_proc s) (\<lambda>p.
       if va \<ge> p_sz (procs s p) then Ok (0, s)
       else let va0 = PGROUNDDOWN va in
            bnd (ismapped pagetable va0 s) (\<lambda>already.
              if already then Ok (0, s)
              else let (pg, s1) = kalloc s in
                   if pg = 0 then Ok (0, s1)
                   else let s2 = s1\<lparr>mem := memset (mem s1) (unat pg) 0 PGSIZE\<rparr> in
                        bnd (mappages (p_pagetable (procs s p)) va0 4096 pg (PTE_W OR PTE_U OR PTE_R) s2)
                          (\<lambda>(r, s3). if r \<noteq> 0 then bnd (kfree pg s3) (\<lambda>s4. Ok (0, s4)) else Ok (pg, s3))))"

text \<open>The physical page of a user page, allocated on demand: what both loops do first.\<close>

definition user_page :: "uint64 \<Rightarrow> uint64 \<Rightarrow> 'a kproc_scheme \<Rightarrow> (uint64 \<times> 'a kproc_scheme) res" where
  "user_page pagetable va0 s =
     (let pa0 = walkaddr pagetable va0 s in
      if pa0 = 0 then vmfault pagetable va0 s else Ok (pa0, s))"

lemma page_part_pos: "0 < (4096::nat) - unat (a - PGROUNDDOWN a)"
proof -
  have "PGROUNDDOWN a \<le> a" by (simp add: PGROUNDDOWN_def word_and_le2)
  then have "unat (a - PGROUNDDOWN a) = unat a - unat (PGROUNDDOWN a)" by (rule unat_sub)
  then have "unat (a - PGROUNDDOWN a) = unat a mod 4096"
    by (simp add: unat_PGROUNDDOWN)
  also have "\<dots> < 4096" by (rule mod_less_divisor) simp
  finally show ?thesis by simp
qed

lemma page_part_less: "0 < len \<Longrightarrow> len - min (4096 - unat (a - PGROUNDDOWN a)) len < len"
  using page_part_pos [of a] by (simp add: min_def)

function copyout :: "uint64 \<Rightarrow> uint64 \<Rightarrow> byte list \<Rightarrow> 'a kproc_scheme \<Rightarrow> (int \<times> 'a kproc_scheme) res" where
  "copyout pagetable dstva src s =
     (if length src > 0 then
        let va0 = PGROUNDDOWN dstva in
        if va0 \<ge> MAXVA then Ok (-1, s)
        else bnd (user_page pagetable va0 s) (\<lambda>(pa0, s1).
               if pa0 = 0 then Ok (-1, s1)
               else bnd (walk pagetable va0 False s1) (\<lambda>(pte, _).
                 if pte = 0 then Ok (-1, s1)
                 else if rd64 (mem s1) (unat pte) AND PTE_W = 0 then Ok (-1, s1)
                 else let n = min (PGSIZE - unat (dstva - va0)) (length src);
                          s2 = s1\<lparr>mem := putl (mem s1) (unat (pa0 + (dstva - va0))) (take n src)\<rparr>
                      in copyout pagetable (va0 + 4096) (drop n src) s2))
      else Ok (0, s))"
  by pat_completeness auto
termination
  by (relation "measure (\<lambda>(pt, d, src, s). length src)")
    (auto simp: PGSIZE_def page_part_less)

function copyin ::
  "uint64 \<Rightarrow> uint64 \<Rightarrow> nat \<Rightarrow> 'a kproc_scheme \<Rightarrow> ((byte list \<times> bool) \<times> 'a kproc_scheme) res" where
  "copyin pagetable srcva len s =
     (if len > 0 then
        let va0 = PGROUNDDOWN srcva in
        bnd (user_page pagetable va0 s) (\<lambda>(pa0, s1).
          if pa0 = 0 then Ok (([], False), s1)
          else let n = min (PGSIZE - unat (srcva - va0)) len;
                   xs = getl (mem s1) (unat (pa0 + (srcva - va0))) n
               in bnd (copyin pagetable (va0 + 4096) (len - n) s1) (\<lambda>((ys, ok), s2). Ok ((xs @ ys, ok), s2)))
      else Ok (([], True), s))"
  by pat_completeness auto
termination
  by (relation "measure (\<lambda>(pt, d, len, s). len)")
    (auto simp: PGSIZE_def page_part_less)

text \<open>The inner loop of \<^verbatim>\<open>copyinstr\<close>: the bytes before a NUL, and whether a NUL was met.\<close>

fun copyinstr_page :: "bytes \<Rightarrow> nat \<Rightarrow> nat \<Rightarrow> byte list \<times> bool" where
  "copyinstr_page m p 0 = ([], False)"
| "copyinstr_page m p (Suc n) =
     (if m p = 0 then ([], True)
      else let (xs, got) = copyinstr_page m (p + 1) n in (m p # xs, got))"

lemma copyinstr_page_length: "copyinstr_page m p n = (xs, False) \<Longrightarrow> length xs = n"
  by (induction m p n arbitrary: xs rule: copyinstr_page.induct) (auto split: if_splits prod.splits)

function copyinstr :: "uint64 \<Rightarrow> uint64 \<Rightarrow> nat \<Rightarrow> 'a kmem_scheme \<Rightarrow> byte list \<times> bool" where
  "copyinstr pagetable srcva mx s =
     (if mx > 0 then
        let va0 = PGROUNDDOWN srcva;
            pa0 = walkaddr pagetable va0 s
        in if pa0 = 0 then ([], False)
           else let n = min (PGSIZE - unat (srcva - va0)) mx;
                    (xs, got) = copyinstr_page (mem s) (unat (pa0 + (srcva - va0))) n
                in if got then (xs, True)
                   else let (ys, got') = copyinstr pagetable (va0 + 4096) (mx - n) s in (xs @ ys, got')
      else ([], False))"
  by pat_completeness auto
termination
  by (relation "measure (\<lambda>(pt, d, mx, s). mx)")
    (auto simp: PGSIZE_def page_part_less)

declare mappages_loop.simps [simp del] uvmunmap_loop.simps [simp del] uvmalloc_loop.simps [simp del]
  uvmcopy_loop.simps [simp del] copyout.simps [simp del] copyin.simps [simp del] copyinstr.simps [simp del]

section \<open>The kernel page table\<close>

text \<open>
  \<^verbatim>\<open>proc_mapstacks\<close> of \<^verbatim>\<open>kernel/proc.c\<close> and \<^verbatim>\<open>kvmmake\<close>, whose unchecked null page from \<open>kalloc\<close>
  would be cleared at address 0.
\<close>

fun proc_mapstacks_loop :: "nat list \<Rightarrow> uint64 \<Rightarrow> 'a kmem_scheme \<Rightarrow> 'a kmem_scheme res" where
  "proc_mapstacks_loop [] kpgtbl s = Ok s"
| "proc_mapstacks_loop (p # ps) kpgtbl s =
     (let (pa, s1) = kalloc s in
      if pa = 0 then Panic ''kalloc''
      else bnd (kvmmap kpgtbl (KSTACK p) pa 4096 (PTE_R OR PTE_W) s1) (proc_mapstacks_loop ps kpgtbl))"

definition proc_mapstacks :: "uint64 \<Rightarrow> 'a kmem_scheme \<Rightarrow> 'a kmem_scheme res" where
  "proc_mapstacks kpgtbl s = proc_mapstacks_loop [0..<NPROC] kpgtbl s"

definition kvmmake :: "'a kproc_scheme \<Rightarrow> (uint64 \<times> 'a kproc_scheme) res" where
  "kvmmake s =
     (let (kpgtbl, s1) = kalloc s;
          s2 = s1\<lparr>mem := memset (mem s1) (unat kpgtbl) 0 PGSIZE\<rparr>;
          etext = sym_etext (ksym s)
      in bnd (kvmmap kpgtbl UART0 UART0 4096 (PTE_R OR PTE_W) s2) (\<lambda>s3.
         bnd (kvmmap kpgtbl VIRTIO0 VIRTIO0 4096 (PTE_R OR PTE_W) s3) (\<lambda>s4.
         bnd (kvmmap kpgtbl PLIC PLIC 0x4000000 (PTE_R OR PTE_W) s4) (\<lambda>s5.
         bnd (kvmmap kpgtbl KERNBASE KERNBASE (etext - KERNBASE) (PTE_R OR PTE_X) s5) (\<lambda>s6.
         bnd (kvmmap kpgtbl etext etext (PHYSTOP - etext) (PTE_R OR PTE_W) s6) (\<lambda>s7.
         bnd (kvmmap kpgtbl TRAMPOLINE (sym_trampoline (ksym s)) 4096 (PTE_R OR PTE_X) s7) (\<lambda>s8.
         bnd (proc_mapstacks kpgtbl s8) (\<lambda>s9. Ok (kpgtbl, s9)))))))))"

definition kvminit :: "'a kproc_scheme \<Rightarrow> 'a kproc_scheme res" where
  "kvminit s = bnd (kvmmake s) (\<lambda>(kpgtbl, s1). Ok (s1\<lparr>kernel_pagetable := kpgtbl\<rparr>))"

end
