(* ===== verification/Xlog.thy ===== *)
theory Xlog
  imports Procdata
begin

text \<open>
  The write-ahead log, \<^verbatim>\<open>kernel/log.c\<close>.  A block is an array of bytes of which the first 1024
  (\<^verbatim>\<open>BSIZE\<close>) count; \<open>bview\<close> is what a reader of the buffer cache sees, \<open>disk\<close> what is on the
  disk.  Theory \<open>Bio\<close> shows that the cache gives its clients this view, so a pair of \<^verbatim>\<open>bread\<close> and
  \<^verbatim>\<open>brelse\<close> is an access to \<open>bview\<close> here; the pin counts of logged blocks are what keeps a block of
  the log from leaving the view before it is committed.  \<open>wtrace\<close> records the blocks handed to
  the disk, in order, so that a crash can be placed between any two of them.
\<close>

record klog = kproc +
  disk :: "uint \<Rightarrow> bytes"
  bview :: "uint \<Rightarrow> bytes"
  wtrace :: "(uint \<times> bytes) list"
  log_start :: uint
  log_outstanding :: int
  log_committing :: bool
  log_dev :: uint
  log_lh :: "uint list"

text \<open>A store into the cached block, and \<^verbatim>\<open>bwrite\<close> of it.\<close>

definition blk_put :: "uint \<Rightarrow> bytes \<Rightarrow> 'a klog_scheme \<Rightarrow> 'a klog_scheme" where
  "blk_put b d s = s\<lparr>bview := (bview s)(b := d)\<rparr>"

definition blk_bwrite :: "uint \<Rightarrow> 'a klog_scheme \<Rightarrow> 'a klog_scheme" where
  "blk_bwrite b s = s\<lparr>disk := (disk s)(b := bview s b), wtrace := wtrace s @ [(b, bview s b)]\<rparr>"

section \<open>The header block\<close>

text \<open>\<^verbatim>\<open>struct logheader\<close>: the count at offset 0, the block numbers from offset 4.\<close>

fun put_blocknos :: "bytes \<Rightarrow> nat \<Rightarrow> uint list \<Rightarrow> bytes" where
  "put_blocknos d i [] = d"
| "put_blocknos d i (b # bs) = put_blocknos (wr32 d (4 + 4 * i) b) (i + 1) bs"

definition read_head :: "'a klog_scheme \<Rightarrow> 'a klog_scheme" where
  "read_head s =
     (let lh = bview s (log_start s);
          n = nat (sint (rd32 lh 0))
      in s\<lparr>log_lh := map (\<lambda>i. rd32 lh (4 + 4 * i)) [0..<n]\<rparr>)"

definition write_head :: "'a klog_scheme \<Rightarrow> 'a klog_scheme" where
  "write_head s =
     (let hb = bview s (log_start s);
          hb1 = wr32 hb 0 (of_nat (length (log_lh s)));
          hb2 = put_blocknos hb1 0 (log_lh s)
      in blk_bwrite (log_start s) (blk_put (log_start s) hb2 s))"

section \<open>Commit\<close>

fun install_trans_loop :: "nat \<Rightarrow> uint list \<Rightarrow> 'a klog_scheme \<Rightarrow> 'a klog_scheme" where
  "install_trans_loop tail [] s = s"
| "install_trans_loop tail (b # bs) s =
     (let lbuf = bview s (log_start s + of_nat tail + 1)
      in install_trans_loop (tail + 1) bs (blk_bwrite b (blk_put b lbuf s)))"

definition install_trans :: "'a klog_scheme \<Rightarrow> 'a klog_scheme" where
  "install_trans s = install_trans_loop 0 (log_lh s) s"

fun write_log_loop :: "nat \<Rightarrow> uint list \<Rightarrow> 'a klog_scheme \<Rightarrow> 'a klog_scheme" where
  "write_log_loop tail [] s = s"
| "write_log_loop tail (b # bs) s =
     (let dst = log_start s + of_nat tail + 1
      in write_log_loop (tail + 1) bs (blk_bwrite dst (blk_put dst (bview s b) s)))"

definition write_log :: "'a klog_scheme \<Rightarrow> 'a klog_scheme" where
  "write_log s = write_log_loop 0 (log_lh s) s"

definition commit :: "'a klog_scheme \<Rightarrow> 'a klog_scheme" where
  "commit s =
     (if length (log_lh s) > 0 then
        let s1 = write_log s;
            s2 = write_head s1;
            s3 = install_trans s2;
            s4 = s3\<lparr>log_lh := []\<rparr>
        in write_head s4
      else s)"

definition recover_from_log :: "'a klog_scheme \<Rightarrow> 'a klog_scheme" where
  "recover_from_log s =
     (let s1 = read_head s;
          s2 = install_trans s1;
          s3 = s2\<lparr>log_lh := []\<rparr>
      in write_head s3)"

text \<open>
  \<^verbatim>\<open>sizeof(struct logheader)\<close> is 124, below the block size, so the panic of \<^verbatim>\<open>initlog\<close> is compiled
  out.
\<close>

definition initlog :: "uint \<Rightarrow> uint \<Rightarrow> 'a klog_scheme \<Rightarrow> 'a klog_scheme" where
  "initlog dev logstart s = recover_from_log (s\<lparr>log_start := logstart, log_dev := dev\<rparr>)"

section \<open>Operations\<close>

definition begin_op :: "'a klog_scheme \<Rightarrow> 'a klog_scheme res" where
  "begin_op s =
     (if log_committing s then Wait ''log''
      else if int (length (log_lh s)) + (log_outstanding s + 1) * int MAXOPBLOCKS > int LOGBLOCKS then Wait ''log''
      else Ok (s\<lparr>log_outstanding := log_outstanding s + 1\<rparr>))"

definition end_op :: "'a klog_scheme \<Rightarrow> 'a klog_scheme res" where
  "end_op s =
     (let s1 = s\<lparr>log_outstanding := log_outstanding s - 1\<rparr> in
      if log_committing s1 then Panic ''log.committing''
      else if log_outstanding s1 = 0 then
        let s2 = s1\<lparr>log_committing := True\<rparr>;
            s3 = commit s2;
            s4 = s3\<lparr>log_committing := False\<rparr>
        in wakeup ChanLog s4
      else wakeup ChanLog s1)"

definition log_write :: "uint \<Rightarrow> 'a klog_scheme \<Rightarrow> 'a klog_scheme res" where
  "log_write b s =
     (if length (log_lh s) \<ge> LOGBLOCKS then Panic ''too big a transaction''
      else if log_outstanding s < 1 then Panic ''log_write outside of trans''
      else if b \<in> set (log_lh s) then Ok s
      else Ok (s\<lparr>log_lh := log_lh s @ [b]\<rparr>))"

section \<open>The writes of a commit\<close>

text \<open>
  Every routine above hands a list of blocks to the disk; \<open>emit\<close> is that, and \<open>apply_w\<close> the effect of
  a list of writes, or of the part of it that reached the disk before a crash.
\<close>

definition apply_w :: "(uint \<Rightarrow> bytes) \<Rightarrow> (uint \<times> bytes) list \<Rightarrow> uint \<Rightarrow> bytes" where
  "apply_w d ws = foldl (\<lambda>d (b, x). d(b := x)) d ws"

definition emit_w :: "(uint \<times> bytes) list \<Rightarrow> 'a klog_scheme \<Rightarrow> 'a klog_scheme" where
  "emit_w ws s = s\<lparr>disk := apply_w (disk s) ws, bview := apply_w (bview s) ws, wtrace := wtrace s @ ws\<rparr>"

definition head_block :: "bytes \<Rightarrow> uint list \<Rightarrow> bytes" where
  "head_block hb lh = put_blocknos (wr32 hb 0 (of_nat (length lh))) 0 lh"

definition slot :: "uint \<Rightarrow> nat \<Rightarrow> uint" where
  "slot start i = start + of_nat i + 1"

fun log_w :: "uint \<Rightarrow> nat \<Rightarrow> uint list \<Rightarrow> (uint \<Rightarrow> bytes) \<Rightarrow> (uint \<times> bytes) list" where
  "log_w start t [] v = []"
| "log_w start t (b # bs) v = (slot start t, v b) # log_w start (t + 1) bs v"

fun inst_w :: "uint \<Rightarrow> nat \<Rightarrow> uint list \<Rightarrow> (uint \<Rightarrow> bytes) \<Rightarrow> (uint \<times> bytes) list" where
  "inst_w start t [] v = []"
| "inst_w start t (b # bs) v = (b, v (slot start t)) # inst_w start (t + 1) bs v"

text \<open>The header and the slots of the log.\<close>

definition in_log :: "uint \<Rightarrow> uint \<Rightarrow> bool" where
  "in_log start b \<longleftrightarrow> unat start \<le> unat b \<and> unat b \<le> unat start + LOGBLOCKS"

lemma in_log_start [simp]: "in_log st st"
  by (simp add: in_log_def)

lemma apply_w_simps [simp]:
  "apply_w d [] = d" "apply_w d (w # ws) = apply_w (d(fst w := snd w)) ws"
  "apply_w d (ws @ vs) = apply_w (apply_w d ws) vs"
  by (simp_all add: apply_w_def split_def)

lemma apply_w_other: "b \<notin> fst ` set ws \<Longrightarrow> apply_w d ws b = d b"
  by (induction ws arbitrary: d) auto

lemma emit_w_simps [simp]:
  "disk (emit_w ws s) = apply_w (disk s) ws" "bview (emit_w ws s) = apply_w (bview s) ws"
  "wtrace (emit_w ws s) = wtrace s @ ws" "log_start (emit_w ws s) = log_start s" "log_lh (emit_w ws s) = log_lh s"
  "emit_w [] s = s" "emit_w vs (emit_w ws s) = emit_w (ws @ vs) s"
  by (simp_all add: emit_w_def)

lemma blk_emit: "blk_bwrite b (blk_put b x s) = emit_w [(b, x)] s"
  by (simp add: blk_bwrite_def blk_put_def emit_w_def)

lemma write_head_emit: "write_head s = emit_w [(log_start s, head_block (bview s (log_start s)) (log_lh s))] s"
  by (simp add: write_head_def blk_emit head_block_def Let_def)

lemma slot_unat:
  assumes "unat start + LOGBLOCKS < 2 ^ 32" "i < LOGBLOCKS"
  shows "unat (slot start i) = unat start + i + 1"
proof -
  have "unat start + i + 1 < 2 ^ 32" using assms by simp
  then show ?thesis using assms by (simp add: slot_def unat_word_ariths unat_of_nat param_defs)
qed

lemma slot_in_log:
  assumes "unat start + LOGBLOCKS < 2 ^ 32" "i < LOGBLOCKS"
  shows "in_log start (slot start i) \<and> slot start i \<noteq> start"
proof
  note u = slot_unat [OF assms]
  show "in_log start (slot start i)" using assms(2) by (simp add: in_log_def u)
  show "slot start i \<noteq> start"
  proof
    assume "slot start i = start"
    then have "unat start = unat start + i + 1" using u by (simp only:)
    then show False by simp
  qed
qed

lemma slot_inj:
  assumes "unat start + LOGBLOCKS < 2 ^ 32" "i < LOGBLOCKS" "j < LOGBLOCKS" "slot start i = slot start j"
  shows "i = j"
proof -
  have "unat start + i + 1 = unat start + j + 1"
    using slot_unat [OF assms(1,2)] slot_unat [OF assms(1,3)] unfolding assms(4) by (rule trans [OF sym])
  then show ?thesis by simp
qed

lemma log_w_fst: "fst ` set (log_w start t bs v) = slot start ` {t..<t + length bs}"
proof (induction bs arbitrary: t)
  case (Cons b bs)
  have "{t..<t + length (b # bs)} = insert t {Suc t..<Suc t + length bs}" by auto
  with Cons show ?case by simp
qed simp

lemma inst_w_fst: "fst ` set (inst_w start t bs v) = set bs"
  by (induction bs arbitrary: t) auto

lemma log_w_cong: "(\<And>b. b \<in> set bs \<Longrightarrow> v b = v' b) \<Longrightarrow> log_w start t bs v = log_w start t bs v'"
  by (induction bs arbitrary: t) auto

lemma inst_w_cong:
  "(\<And>i. i < length bs \<Longrightarrow> v (slot start (t + i)) = v' (slot start (t + i))) \<Longrightarrow> inst_w start t bs v = inst_w start t bs v'"
proof (induction bs arbitrary: t)
  case (Cons b bs)
  have "v (slot start (t + 1 + i)) = v' (slot start (t + 1 + i))" if "i < length bs" for i
    using Cons.prems [of "Suc i"] that by simp
  then have "inst_w start (t + 1) bs v = inst_w start (t + 1) bs v'" by (rule Cons.IH)
  then show ?case using Cons.prems [of 0] by simp
qed simp

lemma write_log_emit:
  assumes "\<And>b. b \<in> set bs \<Longrightarrow> \<not> in_log (log_start s) b" "unat (log_start s) + LOGBLOCKS < 2 ^ 32" "t + length bs \<le> LOGBLOCKS"
  shows "write_log_loop t bs s = emit_w (log_w (log_start s) t bs (bview s)) s"
  using assms
proof (induction bs arbitrary: t s)
  case (Cons b bs)
  let ?d = "slot (log_start s) t"
  let ?s = "emit_w [(?d, bview s b)] s"
  have "in_log (log_start s) ?d" using slot_in_log Cons.prems(2,3) by simp
  then have eq: "log_w (log_start s) (t + 1) bs (bview ?s) = log_w (log_start s) (t + 1) bs (bview s)"
    using Cons.prems(1) by (intro log_w_cong) auto
  have "write_log_loop t (b # bs) s = write_log_loop (t + 1) bs ?s" by (simp add: blk_emit slot_def Let_def)
  also have "\<dots> = emit_w (log_w (log_start ?s) (t + 1) bs (bview ?s)) ?s"
    by (rule Cons.IH) (use Cons.prems in auto)
  finally show ?case using eq by simp
qed simp

lemma install_emit:
  assumes "\<And>b. b \<in> set bs \<Longrightarrow> \<not> in_log (log_start s) b" "unat (log_start s) + LOGBLOCKS < 2 ^ 32" "t + length bs \<le> LOGBLOCKS"
  shows "install_trans_loop t bs s = emit_w (inst_w (log_start s) t bs (bview s)) s"
  using assms
proof (induction bs arbitrary: t s)
  case (Cons b bs)
  let ?s = "emit_w [(b, bview s (slot (log_start s) t))] s"
  have eq: "inst_w (log_start s) (t + 1) bs (bview ?s) = inst_w (log_start s) (t + 1) bs (bview s)"
  proof (rule inst_w_cong)
    fix i assume "i < length bs"
    then have "in_log (log_start s) (slot (log_start s) (t + 1 + i))" using slot_in_log Cons.prems(2,3) by simp
    then show "bview ?s (slot (log_start s) (t + 1 + i)) = bview s (slot (log_start s) (t + 1 + i))"
      using Cons.prems(1) [of b] by auto
  qed
  have "install_trans_loop t (b # bs) s = install_trans_loop (t + 1) bs ?s" by (simp add: blk_emit slot_def Let_def)
  also have "\<dots> = emit_w (inst_w (log_start ?s) (t + 1) bs (bview ?s)) ?s"
    by (rule Cons.IH) (use Cons.prems in auto)
  finally show ?case using eq by simp
qed simp

lemma log_w_slot:
  assumes "unat start + LOGBLOCKS < 2 ^ 32" "t + length bs \<le> LOGBLOCKS" "i < length bs"
  shows "apply_w d (log_w start t bs v) (slot start (t + i)) = v (bs ! i)"
  using assms
proof (induction bs arbitrary: t i d)
  case (Cons b bs)
  show ?case
  proof (cases i)
    case 0
    have ne: "slot start t \<noteq> slot start x" if "t < x" "x < t + length (b # bs)" for x
      using slot_inj [OF Cons.prems(1), of t x] Cons.prems(2) that by auto
    have "slot start t \<notin> slot start ` {t + 1..<t + 1 + length bs}"
    proof
      assume "slot start t \<in> slot start ` {t + 1..<t + 1 + length bs}"
      then obtain x where "slot start t = slot start x" "t < x" "x < t + length (b # bs)" by auto
      with ne show False by blast
    qed
    then have "slot start t \<notin> fst ` set (log_w start (t + 1) bs v)" by (simp only: log_w_fst not_False_eq_True)
    then show ?thesis using 0 by (simp add: apply_w_other)
  next
    case (Suc j)
    then show ?thesis using Cons.IH [of "t + 1" j] Cons.prems by simp
  qed
qed simp

text \<open>Installing the blocks of a log gives each block the contents of its slot.\<close>

lemma inst_w_home:
  assumes "distinct bs" "i < length bs"
  shows "apply_w d (inst_w start t bs v) (bs ! i) = v (slot start (t + i))"
  using assms
proof (induction bs arbitrary: t i d)
  case (Cons b bs)
  show ?case
  proof (cases i)
    case 0
    then show ?thesis using Cons.prems by (simp add: apply_w_other inst_w_fst)
  next
    case (Suc j)
    then show ?thesis using Cons.IH [of j "d(b := v (slot start t))" "t + 1"] Cons.prems by (simp del: fun_upd_apply)
  qed
qed simp

section \<open>Reading the header back\<close>

lemma rd32_put_blocknos:
  "rd32 (put_blocknos d i bs) (4 + 4 * j) = (if i \<le> j \<and> j < i + length bs then bs ! (j - i) else rd32 d (4 + 4 * j))"
proof (induction bs arbitrary: d i)
  case (Cons b bs)
  have "rd32 (wr32 d (4 + 4 * i) b) (4 + 4 * j) = (if j = i then b else rd32 d (4 + 4 * j))"
    by (cases "j < i"; cases "j = i") (auto intro!: rd32_wr32_other)
  then show ?case using Cons by (cases "j = i") (auto simp: nth_Cons' Suc_diff_Suc)
qed auto

lemma rd32_put_blocknos_0: "rd32 (put_blocknos d i bs) 0 = rd32 d 0"
  by (induction bs arbitrary: d i) (auto simp: rd32_wr32_other)

lemma head_block_count: "rd32 (head_block hb lh) 0 = of_nat (length lh)"
  by (simp add: head_block_def rd32_put_blocknos_0)

lemma read_head_block:
  assumes "bview s (log_start s) = head_block hb lh" "length lh \<le> LOGBLOCKS"
  shows "read_head s = s\<lparr>log_lh := lh\<rparr>"
proof -
  have "sint (of_nat (length lh) :: uint) = int (length lh)"
    using assms(2) by (simp add: signed_of_nat param_defs signed_take_bit_int_eq_self)
  then have n: "nat (sint (rd32 (head_block hb lh) 0)) = length lh" by (simp add: head_block_count)
  have "map (\<lambda>i. rd32 (head_block hb lh) (4 + 4 * i)) [0..<length lh] = lh"
    by (intro nth_equalityI) (simp_all add: head_block_def rd32_put_blocknos)
  with n show ?thesis using assms(1) by (simp add: read_head_def)
qed

section \<open>Crash and recovery\<close>

text \<open>
  Between transactions the header on the disk is empty and the cache agrees with the disk; during
  one, it may differ on the blocks of the transaction, which lie outside the log.
\<close>

definition log_ok :: "'a klog_scheme \<Rightarrow> bool" where
  "log_ok s \<longleftrightarrow> distinct (log_lh s) \<and> length (log_lh s) \<le> LOGBLOCKS \<and>
     (\<forall>b\<in>set (log_lh s). \<not> in_log (log_start s) b) \<and> unat (log_start s) + LOGBLOCKS < 2 ^ 32 \<and>
     rd32 (disk s (log_start s)) 0 = 0 \<and> (\<forall>b. b \<notin> set (log_lh s) \<longrightarrow> bview s b = disk s b)"

definition commit_w :: "'a klog_scheme \<Rightarrow> (uint \<times> bytes) list" where
  "commit_w s =
     (let st = log_start s; lh = log_lh s; hd1 = head_block (bview s st) lh in
      log_w st 0 lh (bview s) @ [(st, hd1)] @ map (\<lambda>b. (b, bview s b)) lh @ [(st, head_block hd1 [])])"

lemma inst_after_log:
  assumes "unat start + LOGBLOCKS < 2 ^ 32" "length bs \<le> LOGBLOCKS"
    "\<And>i. i < length bs \<Longrightarrow> d (slot start i) = v (bs ! i)"
  shows "inst_w start 0 bs d = map (\<lambda>b. (b, v b)) bs"
proof -
  have "inst_w start t bs d = map (\<lambda>b. (b, v b)) bs" if "\<And>i. i < length bs \<Longrightarrow> d (slot start (t + i)) = v (bs ! i)" for t bs
    using that
  proof (induction bs arbitrary: t)
    case (Cons b bs)
    have "inst_w start (t + 1) bs d = map (\<lambda>b. (b, v b)) bs"
    proof (rule Cons.IH)
      fix i assume "i < length bs"
      then show "d (slot start (t + 1 + i)) = v (bs ! i)" using Cons.prems [of "Suc i"] by simp
    qed
    then show ?case using Cons.prems [of 0] by simp
  qed simp
  then show ?thesis using assms(3) by simp
qed

lemma commit_emit:
  assumes "log_ok s" "log_lh s \<noteq> []"
  shows "commit s = (emit_w (commit_w s) s)\<lparr>log_lh := []\<rparr>"
proof -
  let ?st = "log_start s" and ?lh = "log_lh s"
  have st: "unat ?st + LOGBLOCKS < 2 ^ 32" and len: "length ?lh \<le> LOGBLOCKS" and out: "\<And>b. b \<in> set ?lh \<Longrightarrow> \<not> in_log ?st b"
    using assms(1) by (auto simp: log_ok_def)
  define s1 where "s1 = emit_w (log_w ?st 0 ?lh (bview s)) s"
  have w: "write_log s = s1" unfolding write_log_def s1_def by (rule write_log_emit) (use st len out in auto)
  have "?st \<noteq> slot ?st i" if "i < length ?lh" for i using slot_in_log [OF st, of i] len that by auto
  then have "?st \<notin> fst ` set (log_w ?st 0 ?lh (bview s))" by (auto simp: log_w_fst)
  then have v1: "bview s1 ?st = bview s ?st" by (simp add: s1_def apply_w_other)
  define s2 where "s2 = emit_w [(?st, head_block (bview s ?st) ?lh)] s1"
  have h: "write_head s1 = s2" using v1 by (simp add: write_head_emit s2_def s1_def)
  have l2: "bview s2 (slot ?st i) = bview s (?lh ! i)" if "i < length ?lh" for i
    using log_w_slot [OF st, of 0 ?lh i "bview s" "bview s"] slot_in_log [OF st, of i] len that
    by (simp add: s2_def s1_def)
  have i: "install_trans s2 = emit_w (map (\<lambda>b. (b, bview s b)) ?lh) s2"
  proof -
    have "install_trans s2 = emit_w (inst_w (log_start s2) 0 (log_lh s2) (bview s2)) s2"
      unfolding install_trans_def by (rule install_emit) (use st len out in \<open>auto simp: s2_def s1_def\<close>)
    moreover have "inst_w ?st 0 ?lh (bview s2) = map (\<lambda>b. (b, bview s b)) ?lh"
      by (rule inst_after_log [OF st len]) (rule l2)
    ultimately show ?thesis by (simp add: s2_def s1_def)
  qed
  have st0: "\<not> ?st \<in> set ?lh" using out [of ?st] by auto
  then have v3: "apply_w (bview s2) (map (\<lambda>b. (b, bview s b)) ?lh) ?st = head_block (bview s ?st) ?lh"
    by (subst apply_w_other) (auto simp: s2_def)
  show ?thesis
    using assms(2) w h i v3 by (simp add: commit_def write_head_emit commit_w_def s2_def s1_def emit_w_def Let_def)
qed

lemma apply_map_w: "apply_w d (map (\<lambda>b. (b, v b)) bs) c = (if c \<in> set bs then v c else d c)"
  by (induction bs arbitrary: d) auto

lemma recover_empty:
  assumes "rd32 (bview t (log_start t)) 0 = 0"
  shows "recover_from_log t = (emit_w [(log_start t, head_block (bview t (log_start t)) [])] t)\<lparr>log_lh := []\<rparr>"
proof -
  have "read_head t = t\<lparr>log_lh := []\<rparr>" using assms by (simp add: read_head_def)
  then show ?thesis by (simp add: recover_from_log_def install_trans_def write_head_emit emit_w_def Let_def)
qed

lemma recover_full:
  assumes "bview t (log_start t) = head_block hb lh" "length lh \<le> LOGBLOCKS" "\<And>b. b \<in> set lh \<Longrightarrow> \<not> in_log (log_start t) b"
    "unat (log_start t) + LOGBLOCKS < 2 ^ 32" "\<And>i. i < length lh \<Longrightarrow> bview t (slot (log_start t) i) = v (lh ! i)"
  shows "recover_from_log t =
    (emit_w (map (\<lambda>b. (b, v b)) lh @ [(log_start t, head_block (head_block hb lh) [])]) t)\<lparr>log_lh := []\<rparr>"
proof -
  have r: "read_head t = t\<lparr>log_lh := lh\<rparr>" by (rule read_head_block [OF assms(1,2)])
  have "install_trans (t\<lparr>log_lh := lh\<rparr>) = emit_w (inst_w (log_start t) 0 lh (bview t)) (t\<lparr>log_lh := lh\<rparr>)"
    unfolding install_trans_def using install_emit [of lh "t\<lparr>log_lh := lh\<rparr>" 0] assms(2,3,4) by simp
  moreover have "inst_w (log_start t) 0 lh (bview t) = map (\<lambda>b. (b, v b)) lh"
    by (rule inst_after_log [OF assms(4,2)]) (rule assms(5))
  moreover have "apply_w (bview t) (map (\<lambda>b. (b, v b)) lh) (log_start t) = head_block hb lh"
    using assms(1) assms(3) [of "log_start t"] by (auto simp: apply_map_w)
  ultimately show ?thesis using r by (simp add: recover_from_log_def write_head_emit emit_w_def Let_def)
qed

text \<open>The disk when the machine stops after \<open>k\<close> of the writes of a commit.\<close>

definition crash_disk :: "nat \<Rightarrow> 'a klog_scheme \<Rightarrow> uint \<Rightarrow> bytes" where
  "crash_disk k s = apply_w (disk s) (take k (drop (length (wtrace s)) (wtrace (commit s))))"

lemma length_log_w [simp]: "length (log_w start t bs v) = length bs"
  by (induction bs arbitrary: t) auto

lemma crash_disk_eq: "log_ok s \<Longrightarrow> log_lh s \<noteq> [] \<Longrightarrow> crash_disk k s = apply_w (disk s) (take k (commit_w s))"
  by (simp add: crash_disk_def commit_emit)

lemma crash_early:
  assumes "log_ok s" "log_lh s \<noteq> []" "k \<le> length (log_lh s)"
  shows "crash_disk k s (log_start s) = disk s (log_start s)"
    and "\<not> in_log (log_start s) b \<Longrightarrow> crash_disk k s b = disk s b"
proof -
  let ?st = "log_start s" and ?w = "log_w (log_start s) 0 (log_lh s) (bview s)"
  have st: "unat ?st + LOGBLOCKS < 2 ^ 32" and len: "length (log_lh s) \<le> LOGBLOCKS" using assms(1) by (auto simp: log_ok_def)
  have t: "crash_disk k s = apply_w (disk s) (take k ?w)"
    using assms by (simp add: crash_disk_eq commit_w_def Let_def)
  have w: "fst ` set (take k ?w) \<subseteq> slot ?st ` {..<LOGBLOCKS}"
    using set_take_subset [of k ?w] len by (fastforce simp: log_w_fst dest: image_mono [of _ _ fst])
  have sl: "in_log ?st c \<and> c \<noteq> ?st" if "c \<in> slot ?st ` {..<LOGBLOCKS}" for c
    using that slot_in_log [OF st] by auto
  show "crash_disk k s ?st = disk s ?st" unfolding t by (rule apply_w_other) (use w sl in blast)
  show "crash_disk k s b = disk s b" if "\<not> in_log ?st b"
    unfolding t by (rule apply_w_other) (use w sl that in blast)
qed

text \<open>After the header has been written the log holds the whole transaction.\<close>

lemma crash_committed:
  assumes "log_ok s" "log_lh s \<noteq> []" "length (log_lh s) < k" "k \<le> 2 * length (log_lh s) + 1"
  shows "crash_disk k s (log_start s) = head_block (bview s (log_start s)) (log_lh s)"
    and "i < length (log_lh s) \<Longrightarrow> crash_disk k s (slot (log_start s) i) = bview s (log_lh s ! i)"
    and "\<not> in_log (log_start s) b \<Longrightarrow> b \<notin> set (log_lh s) \<Longrightarrow> crash_disk k s b = disk s b"
proof -
  let ?st = "log_start s" and ?lh = "log_lh s" and ?w = "log_w (log_start s) 0 (log_lh s) (bview s)"
  have st: "unat ?st + LOGBLOCKS < 2 ^ 32" and len: "length ?lh \<le> LOGBLOCKS" and out: "\<And>b. b \<in> set ?lh \<Longrightarrow> \<not> in_log ?st b"
    using assms(1) by (auto simp: log_ok_def)
  define j where "j = k - length ?lh - 1"
  have k: "k = length ?lh + (1 + j)" "j \<le> length ?lh" using assms(3,4) by (auto simp: j_def)
  define d where "d = (apply_w (disk s) ?w)(?st := head_block (bview s ?st) ?lh)"
  have t: "crash_disk k s c = (if c \<in> set (take j ?lh) then bview s c else d c)" for c
    using k(2) unfolding crash_disk_eq [OF assms(1,2)] k(1) commit_w_def Let_def d_def
    by (simp add: take_map apply_map_w)
  have io: "c \<notin> set (take j ?lh)" if "in_log ?st c" for c using that out by (auto dest: in_set_takeD)
  show "crash_disk k s ?st = head_block (bview s ?st) ?lh" using t [of ?st] io by (simp add: d_def)
  show "crash_disk k s (slot ?st i) = bview s (?lh ! i)" if "i < length ?lh"
    using t [of "slot ?st i"] io slot_in_log [OF st, of i] log_w_slot [OF st, of 0 ?lh i "disk s" "bview s"] that len
    by (auto simp: d_def)
  show "crash_disk k s b = disk s b" if "\<not> in_log ?st b" "b \<notin> set ?lh"
  proof -
    have "in_log ?st (slot ?st i)" if "i < length ?lh" for i using slot_in_log [OF st, of i] len that by auto
    then have "b \<notin> slot ?st ` {0..<0 + length ?lh}" using that(1) by auto
    then have "b \<notin> fst ` set ?w" by (simp only: log_w_fst not_False_eq_True)
    moreover have "b \<noteq> ?st" using that(1) by auto
    ultimately show ?thesis using t [of b] that(2) by (auto simp: d_def apply_w_other dest: in_set_takeD)
  qed
qed

lemma crash_done:
  assumes "log_ok s" "log_lh s \<noteq> []" "2 * length (log_lh s) + 1 < k"
  shows "rd32 (crash_disk k s (log_start s)) 0 = 0" "\<not> in_log (log_start s) b \<Longrightarrow> crash_disk k s b = bview s b"
proof -
  let ?st = "log_start s" and ?lh = "log_lh s" and ?n = "2 * length (log_lh s) + 1"
  have a: "take k (commit_w s) = take ?n (commit_w s) @ [(?st, head_block (head_block (bview s ?st) ?lh) [])]"
    using assms(3) by (simp add: commit_w_def Let_def)
  define c where "c = crash_disk ?n s"
  have e: "crash_disk k s = c(?st := head_block (head_block (bview s ?st) ?lh) [])"
    unfolding c_def crash_disk_eq [OF assms(1,2)] a by simp
  show "rd32 (crash_disk k s ?st) 0 = 0" by (simp add: e head_block_count)
  show "crash_disk k s b = bview s b" if b: "\<not> in_log ?st b"
  proof -
    have "b \<noteq> ?st" using b by auto
    moreover have "c b = bview s b"
    proof (cases "b \<in> set ?lh")
      case True
      then show ?thesis unfolding c_def crash_disk_eq [OF assms(1,2)]
        by (simp add: commit_w_def Let_def apply_map_w)
    next
      case False
      have "?n > length ?lh" using assms(2) by (cases ?lh) auto
      with crash_committed(3) [OF assms(1,2) _ _ b False, of ?n] have "c b = disk s b" by (simp add: c_def)
      with False assms(1) show ?thesis by (simp add: log_ok_def)
    qed
    ultimately show ?thesis by (simp add: e)
  qed
qed

section \<open>Concurrent operations on the log\<close>

lemma apply_w_same: "b \<in> fst ` set ws \<or> d b = d' b \<Longrightarrow> apply_w d ws b = apply_w d' ws b"
  by (induction ws arbitrary: d d') auto

lemma commit_clean:
  assumes "log_ok s"
  shows "log_ok (commit s)" "log_lh (commit s) = []" "\<not> in_log (log_start s) b \<Longrightarrow> disk (commit s) b = bview s b"
    "\<exists>d v w. commit s = s\<lparr>disk := d, bview := v, wtrace := w, log_lh := []\<rparr>"
proof -
  have "log_ok (commit s) \<and> log_lh (commit s) = [] \<and> (\<not> in_log (log_start s) b \<longrightarrow> disk (commit s) b = bview s b) \<and>
    (\<exists>d v w. commit s = s\<lparr>disk := d, bview := v, wtrace := w, log_lh := []\<rparr>)"
  proof (cases "log_lh s = []")
    case True
    then have c: "commit s = s" by (simp add: commit_def)
    from True have "s = s\<lparr>disk := disk s, bview := bview s, wtrace := wtrace s, log_lh := []\<rparr>" by simp
    moreover have "disk s b = bview s b" using True assms by (simp add: log_ok_def)
    ultimately show ?thesis unfolding c using True assms by blast
  next
    case False
    note e = commit_emit [OF assms False]
    have c: "crash_disk (2 * length (log_lh s) + 2) s = disk (commit s)"
      unfolding crash_disk_eq [OF assms False] e by (simp add: commit_w_def Let_def)
    have n: "2 * length (log_lh s) + 1 < 2 * length (log_lh s) + 2" by simp
    note d = crash_done [OF assms False n, unfolded c]
    have v: "bview (commit s) x = disk (commit s) x" for x
    proof -
      have "x \<in> fst ` set (commit_w s) \<or> bview s x = disk s x"
        using assms by (auto simp: commit_w_def log_ok_def Let_def image_Un image_image)
      then show ?thesis unfolding e by (simp add: apply_w_same)
    qed
    have "log_ok (commit s)" using d(1) v assms unfolding log_ok_def by (simp add: e)
    moreover have "commit s = s\<lparr>disk := disk (commit s), bview := bview (commit s), wtrace := wtrace (commit s), log_lh := []\<rparr>"
      by (simp add: e emit_w_def)
    moreover have "log_lh (commit s) = []" by (simp add: e)
    ultimately show ?thesis using d(2) by blast
  qed
  then show "log_ok (commit s)" "log_lh (commit s) = []" "\<not> in_log (log_start s) b \<Longrightarrow> disk (commit s) b = bview s b"
    "\<exists>d v w. commit s = s\<lparr>disk := d, bview := v, wtrace := w, log_lh := []\<rparr>" by auto
qed

text \<open>
  File-system calls run concurrently between \<^verbatim>\<open>begin_op\<close> and \<^verbatim>\<open>end_op\<close>.  Beside the kernel's state a
  list holds, for every call in progress, how many times it has logged a block; a call logs at most
  \<^verbatim>\<open>MAXOPBLOCKS\<close> times, and none of the blocks it changes is one of the log's own.
\<close>

inductive log_step :: "klog \<times> nat list \<Rightarrow> klog \<times> nat list \<Rightarrow> bool" where
  op_begins: "begin_op s = Ok s' \<Longrightarrow> log_step (s, u) (s', u @ [0])"
| op_writes: "i < length u \<Longrightarrow> u ! i < MAXOPBLOCKS \<Longrightarrow> \<not> in_log (log_start s) b \<Longrightarrow>
    log_write b (blk_put b x s) = Ok s' \<Longrightarrow> log_step (s, u) (s', u[i := u ! i + 1])"
| op_ends: "i < length u \<Longrightarrow> end_op s = Ok s' \<Longrightarrow> log_step (s, u) (s', take i u @ drop (Suc i) u)"

inductive_cases log_stepE: "log_step c c'"

definition budget :: "nat list \<Rightarrow> nat" where
  "budget u = (\<Sum>n\<leftarrow>u. MAXOPBLOCKS - n)"

definition log_inv :: "klog \<Rightarrow> nat list \<Rightarrow> bool" where
  "log_inv s u \<longleftrightarrow> log_ok s \<and> unlocked s \<and> \<not> log_committing s \<and> log_outstanding s = int (length u) \<and>
     length (log_lh s) + budget u \<le> LOGBLOCKS \<and> (u = [] \<longrightarrow> log_lh s = [])"

lemma budget_split:
  assumes "i < length u"
  shows "budget u = budget (take i u @ drop (Suc i) u) + (MAXOPBLOCKS - u ! i)"
proof -
  have "budget u = budget (take i u @ u ! i # drop (Suc i) u)" using id_take_nth_drop [OF assms] by (rule arg_cong)
  then show ?thesis by (simp add: budget_def)
qed

lemma budget_used: "i < length u \<Longrightarrow> u ! i < MAXOPBLOCKS \<Longrightarrow> Suc (budget (u[i := u ! i + 1])) = budget u"
  by (subst (1) budget_split [of i]) (auto simp: budget_split [of i u])

lemma log_inv_begin:
  assumes "log_inv s u" "begin_op s = Ok s'"
  shows "log_inv s' (u @ [0])"
proof -
  have l: "int (length (log_lh s)) + (int (length u) + 1) * int MAXOPBLOCKS \<le> int LOGBLOCKS" and
    s': "s' = s\<lparr>log_outstanding := log_outstanding s + 1\<rparr>"
    using assms by (auto simp: begin_op_def log_inv_def split: if_splits)
  have "budget u \<le> length u * MAXOPBLOCKS" by (induction u) (auto simp: budget_def)
  moreover have "length (log_lh s) + (length u + 1) * MAXOPBLOCKS \<le> LOGBLOCKS"
    using l by (simp add: algebra_simps flip: of_nat_add of_nat_mult)
  ultimately have "length (log_lh s) + budget (u @ [0]) \<le> LOGBLOCKS" by (simp add: budget_def algebra_simps)
  then show ?thesis using assms(1) by (simp add: log_inv_def s' log_ok_def unlocked_def myproc_def)
qed

lemma log_inv_room:
  assumes "log_inv s u" "i < length u" "u ! i < MAXOPBLOCKS"
  shows "length (log_lh s) < LOGBLOCKS" "0 < log_outstanding s"
  using assms budget_used [OF assms(2,3)] by (auto simp: log_inv_def)

lemma log_write_ok:
  assumes "log_inv s u" "i < length u" "u ! i < MAXOPBLOCKS"
  shows "\<exists>s'. log_write b (blk_put b x s) = Ok s'"
  using log_inv_room [OF assms] by (simp add: log_write_def blk_put_def)

lemma log_inv_write:
  assumes "log_inv s u" "i < length u" "u ! i < MAXOPBLOCKS" "\<not> in_log (log_start s) b" "log_write b (blk_put b x s) = Ok s'"
  shows "log_inv s' (u[i := u ! i + 1])"
proof -
  have s': "s' = s\<lparr>bview := (bview s)(b := x), log_lh := if b \<in> set (log_lh s) then log_lh s else log_lh s @ [b]\<rparr>"
    using assms(5) by (auto simp: log_write_def blk_put_def split: if_splits)
  have "length (log_lh s') \<le> Suc (length (log_lh s))" by (simp add: s')
  then have "length (log_lh s') + budget (u[i := u ! i + 1]) \<le> LOGBLOCKS"
    using assms(1) budget_used [OF assms(2,3)] by (simp add: log_inv_def)
  moreover have "log_ok s'"
    using assms(1,4) log_inv_room [OF assms(1,2,3)] by (auto simp: s' log_inv_def log_ok_def)
  moreover have "u[i := u ! i + 1] \<noteq> []" using assms(2) by auto
  ultimately show ?thesis using assms(1) by (simp add: log_inv_def s' unlocked_def myproc_def)
qed

lemma end_op_ok:
  assumes "log_inv s u" "i < length u"
  shows "\<exists>s'. end_op s = Ok s' \<and> log_inv s' (take i u @ drop (Suc i) u) \<and> log_start s' = log_start s \<and>
    (length u = 1 \<longrightarrow> (\<forall>b. \<not> in_log (log_start s) b \<longrightarrow> disk s' b = bview s b))"
proof (cases "length u = 1")
  case True
  define s2 where "s2 = s\<lparr>log_outstanding := 0, log_committing := True\<rparr>"
  have ok: "log_ok s2" using assms(1) by (simp add: s2_def log_inv_def log_ok_def)
  obtain d v w where e: "commit s2 = s2\<lparr>disk := d, bview := v, wtrace := w, log_lh := []\<rparr>"
    using commit_clean(4) [OF ok] by blast
  define s4 where "s4 = (commit s2)\<lparr>log_committing := False\<rparr>"
  have e4: "s4 = s\<lparr>log_outstanding := 0, disk := d, bview := v, wtrace := w, log_lh := [], log_committing := False\<rparr>"
    unfolding s4_def e by (simp add: s2_def)
  have u: "unlocked s4" unfolding e4 using assms(1) by (simp add: log_inv_def unlocked_def myproc_def)
  have "end_op s = wakeup ChanLog s4"
    using assms(1) True by (simp add: end_op_def log_inv_def s4_def s2_def Let_def)
  then have r: "end_op s = Ok (woken ChanLog s4)" by (simp add: wakeup_unlocked [OF u])
  have t: "take i u @ drop (Suc i) u = []" using True assms(2) by (cases u) auto
  have "log_ok s4" using commit_clean(1) [OF ok] unfolding log_ok_def by (simp add: s4_def)
  then have "log_ok (woken ChanLog s4)" by (simp add: log_ok_def woken_def)
  then have "log_inv (woken ChanLog s4) []" using u by (simp add: log_inv_def budget_def) (simp add: woken_def e4)
  moreover have "disk s4 b = bview s b" if "\<not> in_log (log_start s) b" for b
    using commit_clean(3) [OF ok, of b] that by (simp add: s4_def s2_def)
  moreover have "disk (woken ChanLog s4) = disk s4" "log_start (woken ChanLog s4) = log_start s" by (simp_all add: woken_def e4)
  ultimately show ?thesis unfolding t using r by auto
next
  case False
  define s1 where "s1 = s\<lparr>log_outstanding := log_outstanding s - 1\<rparr>"
  have u: "unlocked s1" using assms(1) by (simp add: s1_def log_inv_def unlocked_def myproc_def)
  have "end_op s = wakeup ChanLog s1"
    using assms False by (auto simp: end_op_def log_inv_def s1_def Let_def)
  then have r: "end_op s = Ok (woken ChanLog s1)" by (simp add: wakeup_unlocked [OF u])
  have n: "take i u @ drop (Suc i) u \<noteq> []" using False assms(2) by (cases u; cases "tl u"; cases i) auto
  have l: "int (length (take i u @ drop (Suc i) u)) = int (length u) - 1" using assms(2) by auto
  have "unlocked (woken ChanLog s1)" using u by simp
  moreover have "log_ok (woken ChanLog s1)" using assms(1) by (simp add: log_inv_def log_ok_def s1_def woken_def)
  moreover have "\<not> log_committing (woken ChanLog s1)" "log_lh (woken ChanLog s1) = log_lh s"
    "log_outstanding (woken ChanLog s1) = int (length u) - 1"
    using assms(1) by (simp_all add: s1_def woken_def log_inv_def)
  moreover have "length (log_lh s) + budget (take i u @ drop (Suc i) u) \<le> LOGBLOCKS"
    using assms(1) budget_split [OF assms(2)] by (simp add: log_inv_def)
  ultimately have "log_inv (woken ChanLog s1) (take i u @ drop (Suc i) u)"
    using n l unfolding log_inv_def by presburger
  then show ?thesis using r False by (simp add: s1_def woken_def)
qed

lemma log_inv_step:
  assumes "log_step (s, u) (s', u')" "log_inv s u"
  shows "log_inv s' u'"
  using assms(1)
proof cases
  case op_begins
  then show ?thesis using log_inv_begin [OF assms(2)] by simp
next
  case (op_writes i b x)
  then show ?thesis using log_inv_write [OF assms(2)] by simp
next
  case (op_ends i)
  then show ?thesis using end_op_ok [OF assms(2), of i] by simp
qed

lemma log_inv_reach: "log_step\<^sup>*\<^sup>* (s0, u0) (s, u) \<Longrightarrow> log_inv s0 u0 \<Longrightarrow> log_inv s u"
proof (induction "(s, u)" arbitrary: s u rule: rtranclp_induct)
  case (step c)
  then show ?case using log_inv_step by (cases c) blast
qed simp

section \<open>Recovery\<close>

text \<open>A rebooted machine whose disk holds a committed transaction that is not installed yet.\<close>

definition committed :: "uint list \<Rightarrow> klog \<Rightarrow> bool" where
  "committed lh t \<longleftrightarrow> bview t = disk t \<and> (\<exists>hb. disk t (log_start t) = head_block hb lh) \<and> distinct lh \<and>
     length lh \<le> LOGBLOCKS \<and> (\<forall>b\<in>set lh. \<not> in_log (log_start t) b) \<and> unat (log_start t) + LOGBLOCKS < 2 ^ 32"

definition logged :: "uint list \<Rightarrow> klog \<Rightarrow> uint \<Rightarrow> bytes" where
  "logged lh t b = the (map_of (zip lh (map (\<lambda>i. disk t (slot (log_start t) i)) [0..<length lh])) b)"

lemma logged_nth: "distinct lh \<Longrightarrow> i < length lh \<Longrightarrow> logged lh t (lh ! i) = disk t (slot (log_start t) i)"
  by (simp add: logged_def map_of_zip_nth)

lemma recover_committed:
  assumes "committed lh t" "disk t (log_start t) = head_block hb lh"
  shows "recover_from_log t =
    (emit_w (map (\<lambda>b. (b, logged lh t b)) lh @ [(log_start t, head_block (head_block hb lh) [])]) t)\<lparr>log_lh := []\<rparr>"
  by (rule recover_full) (use assms in \<open>auto simp: committed_def logged_nth\<close>)

lemma committed_keep:
  assumes "committed lh t" "log_start u = log_start t" "bview u = disk u" "\<forall>b. in_log (log_start t) b \<longrightarrow> disk u b = disk t b"
  shows "committed lh u" "logged lh u = logged lh t"
proof -
  have st: "unat (log_start t) + LOGBLOCKS < 2 ^ 32" "length lh \<le> LOGBLOCKS" using assms(1) by (simp_all add: committed_def)
  show "committed lh u" using assms by (simp add: committed_def)
  have "disk u (slot (log_start t) i) = disk t (slot (log_start t) i)" if "i < length lh" for i
    using slot_in_log [OF st(1), of i] st(2) that assms(4) by simp
  then have "map (\<lambda>i. disk u (slot (log_start u) i)) [0..<length lh] = map (\<lambda>i. disk t (slot (log_start t) i)) [0..<length lh]"
    using assms(2) by auto
  then show "logged lh u = logged lh t" by (intro ext) (simp only: logged_def)
qed

section \<open>Properties\<close>

text \<open>
  C5. A transaction is atomic with respect to crashes.  Stop the machine after any number of the disk
  writes of a commit and run the recovery of the next boot: outside the log, the disk is exactly as
  it was before the transaction if the header had not reached the disk, and has every block of the
  transaction otherwise; and the log is empty and usable again.
\<close>

theorem log_commit_crash_atomic:
  assumes "log_ok s" "log_lh s \<noteq> []"
    and "log_start t = log_start s" "disk t = crash_disk k s" "bview t = disk t"
  shows "(\<forall>b. \<not> in_log (log_start s) b \<longrightarrow>
      disk (recover_from_log t) b = (if k \<le> length (log_lh s) then disk s b else bview s b)) \<and>
    log_ok (recover_from_log t)"
proof -
  let ?st = "log_start s" and ?lh = "log_lh s" and ?r = "recover_from_log t"
  have st: "unat ?st + LOGBLOCKS < 2 ^ 32" and len: "length ?lh \<le> LOGBLOCKS" and out: "\<And>b. b \<in> set ?lh \<Longrightarrow> \<not> in_log ?st b"
    and cl: "\<And>b. b \<notin> set ?lh \<Longrightarrow> bview s b = disk s b"
    using assms(1) by (auto simp: log_ok_def)
  have e: "disk ?r = (disk t)(?st := head_block (disk t ?st) []) \<and> bview ?r = disk ?r \<and> log_lh ?r = [] \<and> log_start ?r = ?st"
    if "rd32 (disk t ?st) 0 = 0"
    using recover_empty [of t] that assms(3,5) by simp
  have ok: "log_ok ?r" if "rd32 (disk ?r ?st) 0 = 0" "bview ?r = disk ?r" "log_lh ?r = []" "log_start ?r = ?st"
    using that st by (simp add: log_ok_def)
  consider (early) "k \<le> length ?lh" | (mid) "length ?lh < k" "k \<le> 2 * length ?lh + 1" | (late) "2 * length ?lh + 1 < k"
    by linarith
  then show ?thesis
  proof cases
    case early
    note c = crash_early [OF assms(1,2) early]
    have "rd32 (disk t ?st) 0 = 0" using c(1) assms(1,4) by (simp add: log_ok_def)
    from e [OF this] c(2) early assms(4) show ?thesis by (auto intro!: ok simp: head_block_count)
  next
    case late
    note c = crash_done [OF assms(1,2) late]
    have "rd32 (disk t ?st) 0 = 0" using c(1) assms(4) by simp
    from e [OF this] c(2) late assms(4) show ?thesis by (auto intro!: ok simp: head_block_count)
  next
    case mid
    note c = crash_committed [OF assms(1,2) mid]
    have r: "?r = (emit_w (map (\<lambda>b. (b, bview s b)) ?lh @ [(log_start t, head_block (head_block (bview s ?st) ?lh) [])]) t)\<lparr>log_lh := []\<rparr>"
      by (rule recover_full) (use c(1,2) assms(3-5) len out st in auto)
    have "disk ?r b = bview s b" if b: "\<not> in_log ?st b" for b
      using r assms(3,4) c(3) [OF b] cl [of b] b by (auto simp: apply_map_w)
    moreover have "log_ok ?r" by (rule ok) (use r assms(3-5) in \<open>auto simp: head_block_count\<close>)
    ultimately show ?thesis using mid by auto
  qed
qed

text \<open>An idle log at block 2, its machine with a zero disk.\<close>

definition ex_klog :: klog where
  "ex_klog = kproc.extend (boot_kproc (\<lambda>_. 0) 0 0 (ksyms.make 0 0 0 0 0 0)) (klog.fields (\<lambda>_ _. 0) (\<lambda>_ _. 0) [] 2 0 False 1 [])"

lemma ex_klog_simps [simp]:
  "disk ex_klog = (\<lambda>_ _. 0)" "bview ex_klog = (\<lambda>_ _. 0)" "log_start ex_klog = 2" "log_lh ex_klog = []"
  "log_outstanding ex_klog = 0" "\<not> log_committing ex_klog" "unlocked ex_klog"
  by (simp_all add: ex_klog_def klog.defs kproc.defs boot_kproc_def unlocked_def zero_proc_def initlock_def)

lemma ex_log_inv: "log_inv ex_klog []"
  by (simp add: log_inv_def log_ok_def budget_def LOGBLOCKS_def MAXOPBLOCKS_def rd32_def)

text \<open>Witness for C5: block 100 is logged and the machine stops after two of the four writes.\<close>

theorem log_commit_crash_atomic_witness:
  "let s = ex_klog\<lparr>bview := (\<lambda>_ _. 0)(100 := (\<lambda>_. 7)), log_lh := [100]\<rparr>;
       t = ex_klog\<lparr>disk := crash_disk 2 s, bview := crash_disk 2 s\<rparr>
   in disk (recover_from_log t) 100 = (\<lambda>_. 7) \<and> log_ok (recover_from_log t)"
proof -
  define s where "s = ex_klog\<lparr>bview := (\<lambda>_ _. 0)(100 := (\<lambda>_. 7)), log_lh := [100]\<rparr>"
  have "log_ok s" using ex_log_inv
    by (simp add: s_def log_ok_def log_inv_def in_log_def LOGBLOCKS_def MAXOPBLOCKS_def)
  moreover have "\<not> in_log (log_start s) 100" by (simp add: s_def in_log_def LOGBLOCKS_def MAXOPBLOCKS_def)
  ultimately show ?thesis
    using log_commit_crash_atomic [of s "ex_klog\<lparr>disk := crash_disk 2 s, bview := crash_disk 2 s\<rparr>" 2]
    by (simp add: s_def Let_def)
qed

text \<open>
  C7. Recovery may itself be interrupted: if the machine stops after any number of the writes of
  recovery and recovers again, the blocks outside the log end as if recovery had run once.
\<close>

theorem log_recovery_restartable:
  fixes t u :: klog
  assumes "committed lh t" "log_start u = log_start t" "bview u = disk u"
    "disk u = apply_w (disk t) (take j (drop (length (wtrace t)) (wtrace (recover_from_log t))))"
    "\<not> in_log (log_start t) b"
  shows "disk (recover_from_log u) b = disk (recover_from_log t) b"
proof -
  let ?st = "log_start t"
  obtain hb where hb: "disk t ?st = head_block hb lh" using assms(1) by (auto simp: committed_def)
  note rt = recover_committed [OF assms(1) hb]
  let ?W = "map (\<lambda>b. (b, logged lh t b)) lh @ [(?st, head_block (head_block hb lh) [])]"
  have du: "disk u = apply_w (disk t) (take j ?W)" using assms(4) by (simp add: rt)
  have b: "b \<noteq> ?st" using assms(5) by auto
  show ?thesis
  proof (cases "j \<le> length lh")
    case True
    have "x \<notin> fst ` set (take j (map (\<lambda>b. (b, logged lh t b)) lh))" if "in_log ?st x" for x
      using assms(1) that by (auto simp: committed_def take_map dest: in_set_takeD)
    then have k: "\<forall>x. in_log ?st x \<longrightarrow> disk u x = disk t x" using True by (simp add: du apply_w_other)
    note c = committed_keep [OF assms(1,2,3) k]
    have "disk u (log_start u) = head_block hb lh" using k hb assms(2) by simp
    from recover_committed [OF c(1) this] have "disk (recover_from_log u) b = (if b \<in> set lh then logged lh t b else disk u b)"
      using b assms(2) by (simp add: c(2) apply_map_w)
    moreover have "disk (recover_from_log t) b = (if b \<in> set lh then logged lh t b else disk t b)"
      using b by (simp add: rt apply_map_w)
    moreover have "disk u b = disk t b" if "b \<notin> set lh"
      using that b True unfolding du by (intro apply_w_other) (auto simp: take_map dest: in_set_takeD)
    ultimately show ?thesis by simp
  next
    case False
    then have "take j ?W = ?W" by simp
    have d: "disk u = disk (recover_from_log t)" unfolding du \<open>take j ?W = ?W\<close> by (simp add: rt)
    then have "rd32 (bview u (log_start u)) 0 = 0" using assms(2,3) by (simp add: rt head_block_count)
    from recover_empty [OF this] show ?thesis using b assms(2) by (simp add: d)
  qed
qed

text \<open>Witness for C7: a committed transaction of block 100, its recovery stopped after one write.\<close>

theorem log_recovery_restartable_witness:
  "let d = (\<lambda>_ :: uint. \<lambda>_. 0)(2 := head_block (\<lambda>_. 0) [100], 3 := (\<lambda>_. 7)); t = ex_klog\<lparr>disk := d, bview := d\<rparr>;
       e = apply_w d (take 1 (drop (length (wtrace t)) (wtrace (recover_from_log t)))); u = ex_klog\<lparr>disk := e, bview := e\<rparr>
   in committed [100] t \<and> disk (recover_from_log u) 100 = disk (recover_from_log t) 100"
proof -
  define d where "d = (\<lambda>_ :: uint. \<lambda>_. 0)(2 := head_block (\<lambda>_. 0) [100], 3 := (\<lambda>_. 7 :: byte))"
  define t where "t = ex_klog\<lparr>disk := d, bview := d\<rparr>"
  have c: "committed [100] t"
    by (auto simp: committed_def t_def d_def in_log_def LOGBLOCKS_def MAXOPBLOCKS_def)
  have "\<not> in_log (log_start t) 100" by (simp add: t_def in_log_def LOGBLOCKS_def MAXOPBLOCKS_def)
  then have "disk (recover_from_log u) 100 = disk (recover_from_log t) 100"
    if "u = ex_klog\<lparr>disk := e, bview := e\<rparr>" "e = apply_w d (take 1 (drop (length (wtrace t)) (wtrace (recover_from_log t))))" for u e
    by (intro log_recovery_restartable [OF c, of u 1 100]) (use that in \<open>simp_all add: t_def\<close>)
  with c show ?thesis unfolding Let_def t_def d_def by blast
qed



text \<open>
  C8. \<^verbatim>\<open>end_op\<close> of the last call in progress commits: it does not panic, every block outside the
  log is then on the disk as the calls left it, and the log is idle and empty.
\<close>

theorem end_op_commits:
  assumes "log_inv s [n]"
  shows "\<exists>s'. end_op s = Ok s' \<and> log_inv s' [] \<and> log_lh s' = [] \<and>
    (\<forall>b. \<not> in_log (log_start s) b \<longrightarrow> disk s' b = bview s b)"
  using end_op_ok [OF assms, of 0] by (auto simp: log_inv_def)

text \<open>Witness for C8.\<close>

theorem end_op_commits_witness:
  "\<exists>s'. end_op (ex_klog\<lparr>bview := (\<lambda>_ _. 0)(100 := (\<lambda>_. 7)), log_lh := [100], log_outstanding := 1\<rparr>) = Ok s' \<and>
     disk s' 100 = (\<lambda>_. 7) \<and> log_lh s' = []"
proof -
  have "log_inv (ex_klog\<lparr>bview := (\<lambda>_ _. 0)(100 := (\<lambda>_. 7)), log_lh := [100], log_outstanding := 1\<rparr>) [1]"
    using ex_log_inv by (simp add: log_inv_def log_ok_def budget_def LOGBLOCKS_def MAXOPBLOCKS_def in_log_def unlocked_def myproc_def)
  from end_op_commits [OF this] show ?thesis by (auto simp: in_log_def LOGBLOCKS_def MAXOPBLOCKS_def)
qed

text \<open>
  When the log is full, \<^verbatim>\<open>log_write\<close> panics even for a block the log already holds, although
  logging it again needs no space: the test for room comes before the search for the block.
\<close>

lemma log_write_full_panics: "length (log_lh s) = LOGBLOCKS \<Longrightarrow> b \<in> set (log_lh s) \<Longrightarrow> \<exists>e. log_write b s = Panic e"
  by (simp add: log_write_def)

end
