(* ===== verification/Sleeplock.thy ===== *)
theory Sleeplock
  imports Prelude
begin

text \<open>
  Sleep locks, \<^verbatim>\<open>kernel/sleeplock.c\<close> and \<^verbatim>\<open>kernel/sleeplock.h\<close>.  The inner spin lock
  is taken and dropped inside each operation (\<^verbatim>\<open>sleep\<close> gives it up while the process is off
  the CPU), so an operation is one step of its process up to the moment it would sleep:
  \<open>Wait ''sleep''\<close>.  The step relation runs any number of processes against one lock.
\<close>

record sleeplock =
  sl_locked :: bool
  sl_pid :: int

definition initsleeplock :: sleeplock where
  "initsleeplock = \<lparr>sl_locked = False, sl_pid = 0\<rparr>"

definition acquiresleep :: "int \<Rightarrow> sleeplock \<Rightarrow> sleeplock res" where
  "acquiresleep pid lk =
     (if sl_locked lk then Wait ''sleep'' else Ok \<lparr>sl_locked = True, sl_pid = pid\<rparr>)"

definition releasesleep :: "sleeplock \<Rightarrow> sleeplock" where
  "releasesleep lk = lk\<lparr>sl_locked := False, sl_pid := 0\<rparr>"

definition holdingsleep :: "int \<Rightarrow> sleeplock \<Rightarrow> bool" where
  "holdingsleep pid lk \<longleftrightarrow> sl_locked lk \<and> sl_pid lk = pid"

section \<open>Processes competing for one lock\<close>

text \<open>
  \<open>SRetry\<close> is a process that was woken and is about to test \<^verbatim>\<open>lk->locked\<close> again in the loop
  of \<^verbatim>\<open>acquiresleep\<close>.  A kill also wakes a sleeper (\<open>sl_killed\<close>), which goes round the loop.
\<close>

datatype slctl = SIdle | SAsleep | SRetry | SHold

record slsys =
  sl_lock :: sleeplock
  sl_ctl :: "int \<Rightarrow> slctl"

definition wake_sleepers :: "(int \<Rightarrow> slctl) \<Rightarrow> int \<Rightarrow> slctl" where
  "wake_sleepers f p = (if f p = SAsleep then SRetry else f p)"

inductive sl_step :: "slsys \<Rightarrow> slsys \<Rightarrow> bool" where
  sl_get: "sl_ctl m p \<in> {SIdle, SRetry} \<Longrightarrow> acquiresleep p (sl_lock m) = Ok lk \<Longrightarrow>
    sl_step m (m\<lparr>sl_lock := lk, sl_ctl := (sl_ctl m)(p := SHold)\<rparr>)"
| sl_sleep: "sl_ctl m p \<in> {SIdle, SRetry} \<Longrightarrow> acquiresleep p (sl_lock m) = Wait w \<Longrightarrow>
    sl_step m (m\<lparr>sl_ctl := (sl_ctl m)(p := SAsleep)\<rparr>)"
| sl_release: "sl_ctl m p = SHold \<Longrightarrow>
    sl_step m (m\<lparr>sl_lock := releasesleep (sl_lock m), sl_ctl := (wake_sleepers (sl_ctl m))(p := SIdle)\<rparr>)"
| sl_killed: "sl_ctl m p = SAsleep \<Longrightarrow> sl_step m (m\<lparr>sl_ctl := (sl_ctl m)(p := SRetry)\<rparr>)"

inductive sl_reachable :: "slsys \<Rightarrow> bool" where
  sl_init: "sl_reachable \<lparr>sl_lock = initsleeplock, sl_ctl = (\<lambda>_. SIdle)\<rparr>"
| sl_more: "sl_reachable m \<Longrightarrow> sl_step m m' \<Longrightarrow> sl_reachable m'"

definition sl_inv :: "slsys \<Rightarrow> bool" where
  "sl_inv m \<longleftrightarrow> (\<forall>p. sl_ctl m p = SHold \<longleftrightarrow> holdingsleep p (sl_lock m)) \<and>
     (\<forall>p. sl_ctl m p = SAsleep \<longrightarrow> sl_locked (sl_lock m))"

lemma sl_step_inv: "sl_step m m' \<Longrightarrow> sl_inv m \<Longrightarrow> sl_inv m'"
proof (induction rule: sl_step.induct)
  case (sl_get m p lk)
  then show ?case
    by (auto simp: sl_inv_def acquiresleep_def holdingsleep_def split: if_splits)
next
  case (sl_sleep m p w)
  then have "sl_ctl m p \<noteq> SHold" by auto
  with sl_sleep show ?case by (simp add: sl_inv_def acquiresleep_def split: if_splits)
next
  case (sl_release m p)
  then show ?case
    by (auto simp: sl_inv_def holdingsleep_def releasesleep_def wake_sleepers_def split: if_splits)
next
  case (sl_killed m p)
  then have "sl_ctl m p \<noteq> SHold" by simp
  with sl_killed have "\<not> holdingsleep p (sl_lock m)" unfolding sl_inv_def by blast
  with sl_killed show ?case by (auto simp: sl_inv_def)
qed

lemma sl_reachable_inv: "sl_reachable m \<Longrightarrow> sl_inv m"
proof (induction rule: sl_reachable.induct)
  case sl_init
  show ?case by (simp add: sl_inv_def holdingsleep_def initsleeplock_def)
next
  case (sl_more m m')
  then show ?case using sl_step_inv by blast
qed

section \<open>Property\<close>

text \<open>
  C22. Sleep locks exclude and lose no wakeup: in every interleaving, a process that returned
  from \<open>acquiresleep\<close> and has not released is the one \<open>holdingsleep\<close> answers for and no other
  process is in that position; and while any process is asleep on the lock, the lock is held by
  some process, which will wake it on release.
\<close>

theorem sleeplock_exclusive_no_lost_wakeup:
  assumes "sl_reachable m"
  shows "(\<forall>p. sl_ctl m p = SHold \<longleftrightarrow> holdingsleep p (sl_lock m)) \<and>
    (\<forall>p q. sl_ctl m p = SHold \<longrightarrow> sl_ctl m q = SHold \<longrightarrow> p = q) \<and>
    (\<forall>p. sl_ctl m p = SAsleep \<longrightarrow> (\<exists>q. sl_ctl m q = SHold))"
proof -
  have h: "sl_ctl m p = SHold \<longleftrightarrow> sl_locked (sl_lock m) \<and> sl_pid (sl_lock m) = p" for p
    using sl_reachable_inv [OF assms] by (simp add: sl_inv_def holdingsleep_def)
  have a: "sl_locked (sl_lock m)" if "sl_ctl m p = SAsleep" for p
    using sl_reachable_inv [OF assms] that unfolding sl_inv_def by blast
  show ?thesis using a unfolding h holdingsleep_def by blast
qed

text \<open>Witness for C22: process 7 holds the lock, process 9 sleeps on it.\<close>

theorem sleeplock_exclusive_no_lost_wakeup_witness:
  "\<exists>m. sl_reachable m \<and> sl_ctl m 9 = SAsleep \<and> sl_ctl m 7 = SHold \<and> holdingsleep 7 (sl_lock m) \<and>
     (\<exists>q. sl_ctl m q = SHold)"
proof -
  let ?m = "\<lparr>sl_lock = \<lparr>sl_locked = True, sl_pid = 7\<rparr>, sl_ctl = (\<lambda>_. SIdle)(7 := SHold)\<rparr>"
  let ?n = "\<lparr>sl_lock = \<lparr>sl_locked = True, sl_pid = 7\<rparr>, sl_ctl = (\<lambda>_. SIdle)(7 := SHold, 9 := SAsleep)\<rparr>"
  have "sl_step \<lparr>sl_lock = initsleeplock, sl_ctl = (\<lambda>_. SIdle)\<rparr> ?m"
    using sl_get [of "\<lparr>sl_lock = initsleeplock, sl_ctl = (\<lambda>_. SIdle)\<rparr>" 7]
    by (simp add: acquiresleep_def initsleeplock_def)
  moreover have "sl_step ?m ?n"
    using sl_sleep [of ?m 9 "''sleep''"] by (simp add: acquiresleep_def)
  ultimately have r: "sl_reachable ?n" using sl_init sl_more by blast
  have "sl_ctl ?n 9 = SAsleep \<longrightarrow> (\<exists>q. sl_ctl ?n q = SHold)"
    using sleeplock_exclusive_no_lost_wakeup [OF r] by blast
  with r show ?thesis by (intro exI [of _ ?n]) (simp add: holdingsleep_def)
qed

end
