(* ===== verification/Fs.thy ===== *)
theory Fs
  imports Vm Xlog Sleeplock Cstring
begin

unbundle bit_operations_syntax

text \<open>
  The file system, \<^verbatim>\<open>kernel/fs.c\<close> on the layout of \<^verbatim>\<open>kernel/fs.h\<close>: block allocator, inodes,
  directories and path names, over the block view of theory \<open>Xlog\<close>.  An inode pointer is an index
  into \<open>itable\<close>.  The critical sections of \<^verbatim>\<open>itable.lock\<close> are single steps, the sleep lock of an
  inode is explicit and its release wakes the processes that wait for it.  A path or a path
  element is the list of its bytes without the terminating NUL.
\<close>

section \<open>Layout\<close>

definition BSIZE :: nat where [param_defs]: "BSIZE = 1024"
definition ROOTINO :: uint where [param_defs]: "ROOTINO = 1"
definition FSMAGIC :: uint where [param_defs]: "FSMAGIC = 0x10203040"
definition NDIRECT :: nat where [param_defs]: "NDIRECT = 12"
definition NINDIRECT :: nat where [param_defs]: "NINDIRECT = BSIZE div 4"
definition MAXFILE :: nat where [param_defs]: "MAXFILE = NDIRECT + NINDIRECT"
definition DINODE_SIZE :: nat where [param_defs]: "DINODE_SIZE = 64"
definition IPB :: nat where [param_defs]: "IPB = BSIZE div DINODE_SIZE"
definition BPB :: nat where [param_defs]: "BPB = BSIZE * 8"
definition DIRSIZ :: nat where [param_defs]: "DIRSIZ = 14"
definition DIRENT_SIZE :: nat where [param_defs]: "DIRENT_SIZE = 16"
definition T_DIR :: ushort where [param_defs]: "T_DIR = 1"
definition T_FILE :: ushort where [param_defs]: "T_FILE = 2"
definition T_DEVICE :: ushort where [param_defs]: "T_DEVICE = 3"

record superblock =
  sb_magic :: uint
  sb_size :: uint
  sb_nblocks :: uint
  sb_ninodes :: uint
  sb_nlog :: uint
  sb_logstart :: uint
  sb_inodestart :: uint
  sb_bmapstart :: uint

record inode =
  i_dev :: uint
  i_inum :: uint
  i_ref :: int
  i_lock :: sleeplock
  i_valid :: bool
  i_type :: ushort
  i_major :: ushort
  i_minor :: ushort
  i_nlink :: ushort
  i_size :: uint
  i_addrs :: "nat \<Rightarrow> uint"

record kfs = klog +
  sb :: superblock
  itable :: "nat \<Rightarrow> inode"

definition IBLOCK :: "uint \<Rightarrow> 'a kfs_scheme \<Rightarrow> uint" where
  "IBLOCK i s = i div of_nat IPB + sb_inodestart (sb s)"

definition BBLOCK :: "uint \<Rightarrow> 'a kfs_scheme \<Rightarrow> uint" where
  "BBLOCK b s = b div of_nat BPB + sb_bmapstart (sb s)"

definition upd_inode :: "nat \<Rightarrow> (inode \<Rightarrow> inode) \<Rightarrow> 'a kfs_scheme \<Rightarrow> 'a kfs_scheme" where
  "upd_inode i f s = s\<lparr>itable := (itable s)(i := f (itable s i))\<rparr>"

text \<open>Change the cached copy of a block and log it: the pattern modify, \<^verbatim>\<open>log_write\<close>, \<^verbatim>\<open>brelse\<close>.\<close>

definition blk_log :: "uint \<Rightarrow> bytes \<Rightarrow> 'a klog_scheme \<Rightarrow> 'a klog_scheme res" where
  "blk_log b d s = log_write b (blk_put b d s)"

section \<open>Blocks\<close>

definition readsb :: "'a kfs_scheme \<Rightarrow> 'a kfs_scheme" where
  "readsb s =
     (let d = bview s 1 in
      s\<lparr>sb := \<lparr>sb_magic = rd32 d 0, sb_size = rd32 d 4, sb_nblocks = rd32 d 8, sb_ninodes = rd32 d 12,
               sb_nlog = rd32 d 16, sb_logstart = rd32 d 20, sb_inodestart = rd32 d 24, sb_bmapstart = rd32 d 28\<rparr>\<rparr>)"

definition bzero :: "uint \<Rightarrow> 'a klog_scheme \<Rightarrow> 'a klog_scheme res" where
  "bzero bno s = blk_log bno (memset (bview s bno) 0 0 BSIZE) s"

text \<open>The inner loop of \<^verbatim>\<open>balloc\<close>: the first clear bit from \<open>bi\<close> on.\<close>

function balloc_bits :: "bytes \<Rightarrow> nat \<Rightarrow> nat \<Rightarrow> nat \<Rightarrow> nat option" where
  "balloc_bits d b bi lim =
     (if bi < BPB \<and> b + bi < lim then
        if d (bi div 8) AND push_bit (bi mod 8) 1 = 0 then Some bi
        else balloc_bits d b (bi + 1) lim
      else None)"
  by pat_completeness auto
termination
  by (relation "measure (\<lambda>(d, b, bi, lim). BPB - bi)") auto

function balloc_loop :: "nat \<Rightarrow> 'a kfs_scheme \<Rightarrow> (uint \<times> 'a kfs_scheme) res" where
  "balloc_loop b s =
     (if b < unat (sb_size (sb s)) then
        let bno = BBLOCK (of_nat b) s; d = bview s bno in
        case balloc_bits d b 0 (unat (sb_size (sb s))) of
          Some bi \<Rightarrow>
            bnd (blk_log bno (d(bi div 8 := d (bi div 8) OR push_bit (bi mod 8) 1)) s) (\<lambda>s1.
            bnd (bzero (of_nat (b + bi)) s1) (\<lambda>s2. Ok (of_nat (b + bi), s2)))
        | None \<Rightarrow> balloc_loop (b + BPB) s
      else Ok (0, s))"
  by pat_completeness auto
termination
  by (relation "measure (\<lambda>(b, s). unat (sb_size (sb s)) - b)") (auto simp: param_defs)

declare balloc_bits.simps [simp del] balloc_loop.simps [simp del]

definition balloc :: "'a kfs_scheme \<Rightarrow> (uint \<times> 'a kfs_scheme) res" where
  "balloc s = balloc_loop 0 s"

definition bfree :: "uint \<Rightarrow> 'a kfs_scheme \<Rightarrow> 'a kfs_scheme res" where
  "bfree b s =
     (let bno = BBLOCK b s;
          d = bview s bno;
          bi = unat b mod BPB;
          m = push_bit (bi mod 8) 1
      in if d (bi div 8) AND m = 0 then Panic ''freeing free block''
         else blk_log bno (d(bi div 8 := d (bi div 8) AND NOT m)) s)"

section \<open>Inodes\<close>

definition iinit :: "'a kfs_scheme \<Rightarrow> 'a kfs_scheme" where
  "iinit s = s\<lparr>itable := (\<lambda>i. if i < NINODE then (itable s i)\<lparr>i_lock := initsleeplock\<rparr> else itable s i)\<rparr>"

text \<open>The offset of a disk inode in its block, and reading and writing its fields.\<close>

definition dinode_off :: "uint \<Rightarrow> nat" where
  "dinode_off inum = (unat inum mod IPB) * DINODE_SIZE"

fun wr_addrs :: "bytes \<Rightarrow> nat \<Rightarrow> (nat \<Rightarrow> uint) \<Rightarrow> nat \<Rightarrow> bytes" where
  "wr_addrs d a f 0 = d"
| "wr_addrs d a f (Suc n) = wr32 (wr_addrs d a f n) (a + 4 * n) (f n)"

definition dinode_write :: "inode \<Rightarrow> bytes \<Rightarrow> bytes" where
  "dinode_write ip d =
     (let o0 = dinode_off (i_inum ip);
          d1 = wr16 d o0 (i_type ip);
          d2 = wr16 d1 (o0 + 2) (i_major ip);
          d3 = wr16 d2 (o0 + 4) (i_minor ip);
          d4 = wr16 d3 (o0 + 6) (i_nlink ip);
          d5 = wr32 d4 (o0 + 8) (i_size ip)
      in wr_addrs d5 (o0 + 12) (i_addrs ip) (NDIRECT + 1))"

definition dinode_read :: "bytes \<Rightarrow> inode \<Rightarrow> inode" where
  "dinode_read d ip =
     (let o0 = dinode_off (i_inum ip) in
      ip\<lparr>i_type := rd16 d o0, i_major := rd16 d (o0 + 2), i_minor := rd16 d (o0 + 4),
         i_nlink := rd16 d (o0 + 6), i_size := rd32 d (o0 + 8),
         i_addrs := (\<lambda>j. if j < NDIRECT + 1 then rd32 d (o0 + 12 + 4 * j) else i_addrs ip j)\<rparr>)"

definition iupdate :: "nat \<Rightarrow> 'a kfs_scheme \<Rightarrow> 'a kfs_scheme res" where
  "iupdate i s =
     (let ip = itable s i; b = IBLOCK (i_inum ip) s in blk_log b (dinode_write ip (bview s b)) s)"

definition iget :: "uint \<Rightarrow> uint \<Rightarrow> 'a kfs_scheme \<Rightarrow> (nat \<times> 'a kfs_scheme) res" where
  "iget dev inum s =
     (case find (\<lambda>i. i_ref (itable s i) > 0 \<and> i_dev (itable s i) = dev \<and> i_inum (itable s i) = inum) [0..<NINODE] of
        Some i \<Rightarrow> Ok (i, upd_inode i (\<lambda>x. x\<lparr>i_ref := i_ref x + 1\<rparr>) s)
      | None \<Rightarrow>
         (case find (\<lambda>i. i_ref (itable s i) = 0) [0..<NINODE] of
            None \<Rightarrow> Panic ''iget: no inodes''
          | Some i \<Rightarrow> Ok (i, upd_inode i (\<lambda>x. x\<lparr>i_dev := dev, i_inum := inum, i_ref := 1, i_valid := False\<rparr>) s)))"

fun ialloc_loop :: "nat list \<Rightarrow> uint \<Rightarrow> ushort \<Rightarrow> 'a kfs_scheme \<Rightarrow> (nat option \<times> 'a kfs_scheme) res" where
  "ialloc_loop [] dev type s = Ok (None, s)"
| "ialloc_loop (inum # inums) dev type s =
     (let b = IBLOCK (of_nat inum) s;
          d = bview s b;
          o0 = dinode_off (of_nat inum)
      in if rd16 d o0 = 0 then
           bnd (blk_log b (wr16 (memset d o0 0 DINODE_SIZE) o0 type) s) (\<lambda>s1.
           bnd (iget dev (of_nat inum) s1) (\<lambda>(i, s2). Ok (Some i, s2)))
         else ialloc_loop inums dev type s)"

definition ialloc :: "uint \<Rightarrow> ushort \<Rightarrow> 'a kfs_scheme \<Rightarrow> (nat option \<times> 'a kfs_scheme) res" where
  "ialloc dev type s = ialloc_loop [1..<unat (sb_ninodes (sb s))] dev type s"

definition idup :: "nat \<Rightarrow> 'a kfs_scheme \<Rightarrow> 'a kfs_scheme" where
  "idup i s = upd_inode i (\<lambda>x. x\<lparr>i_ref := i_ref x + 1\<rparr>) s"

definition iget_by_inum :: "uint \<Rightarrow> 'a kfs_scheme \<Rightarrow> (nat \<times> 'a kfs_scheme) res" where
  "iget_by_inum inum s = iget ROOTDEV inum s"

text \<open>The identity of the process that takes a sleep lock.\<close>

definition mypid :: "'a kproc_scheme \<Rightarrow> int res" where
  "mypid s = bnd (need_proc s) (\<lambda>p. Ok (p_pid (procs s p)))"

definition ilock :: "nat \<Rightarrow> 'a kfs_scheme \<Rightarrow> 'a kfs_scheme res" where
  "ilock i s =
     (if i_ref (itable s i) < 1 then Panic ''ilock''
      else bnd (mypid s) (\<lambda>pid.
           bnd (acquiresleep pid (i_lock (itable s i))) (\<lambda>lk.
             let s1 = upd_inode i (\<lambda>x. x\<lparr>i_lock := lk\<rparr>) s in
             if \<not> i_valid (itable s1 i) then
               let ip = dinode_read (bview s1 (IBLOCK (i_inum (itable s1 i)) s1)) (itable s1 i);
                   s2 = upd_inode i (\<lambda>_. ip\<lparr>i_valid := True\<rparr>) s1
               in if i_type ip = 0 then Panic ''ilock: no type'' else Ok s2
             else Ok s1)))"

definition releasesleep_inode :: "nat \<Rightarrow> 'a kfs_scheme \<Rightarrow> 'a kfs_scheme res" where
  "releasesleep_inode i s =
     wakeup (ChanInode i) (upd_inode i (\<lambda>x. x\<lparr>i_lock := releasesleep (i_lock x)\<rparr>) s)"

definition iunlock :: "nat \<Rightarrow> 'a kfs_scheme \<Rightarrow> 'a kfs_scheme res" where
  "iunlock i s =
     bnd (mypid s) (\<lambda>pid.
       if \<not> holdingsleep pid (i_lock (itable s i)) \<or> i_ref (itable s i) < 1 then Panic ''iunlock''
       else releasesleep_inode i s)"

fun itrunc_direct :: "nat list \<Rightarrow> nat \<Rightarrow> 'a kfs_scheme \<Rightarrow> 'a kfs_scheme res" where
  "itrunc_direct [] i s = Ok s"
| "itrunc_direct (j # js) i s =
     (if i_addrs (itable s i) j \<noteq> 0 then
        bnd (bfree (i_addrs (itable s i) j) s) (\<lambda>s1.
          itrunc_direct js i (upd_inode i (\<lambda>x. x\<lparr>i_addrs := (i_addrs x)(j := 0)\<rparr>) s1))
      else itrunc_direct js i s)"

text \<open>The loop over the indirect block frees the blocks its cached copy names.\<close>

fun itrunc_indirect :: "nat list \<Rightarrow> uint \<Rightarrow> 'a kfs_scheme \<Rightarrow> 'a kfs_scheme res" where
  "itrunc_indirect [] b s = Ok s"
| "itrunc_indirect (j # js) b s =
     (let a = rd32 (bview s b) (4 * j) in
      if a \<noteq> 0 then bnd (bfree a s) (itrunc_indirect js b) else itrunc_indirect js b s)"

definition itrunc :: "nat \<Rightarrow> 'a kfs_scheme \<Rightarrow> 'a kfs_scheme res" where
  "itrunc i s =
     bnd (itrunc_direct [0..<NDIRECT] i s) (\<lambda>s1.
     bnd (let b = i_addrs (itable s1 i) NDIRECT in
          if b \<noteq> 0 then
            bnd (itrunc_indirect [0..<NINDIRECT] b s1) (\<lambda>s2.
            bnd (bfree b s2) (\<lambda>s3.
              Ok (upd_inode i (\<lambda>x. x\<lparr>i_addrs := (i_addrs x)(NDIRECT := 0)\<rparr>) s3)))
          else Ok s1) (\<lambda>s4.
     iupdate i (upd_inode i (\<lambda>x. x\<lparr>i_size := 0\<rparr>) s4)))"

definition iput :: "nat \<Rightarrow> 'a kfs_scheme \<Rightarrow> 'a kfs_scheme res" where
  "iput i s =
     bnd (if i_ref (itable s i) = 1 \<and> i_valid (itable s i) \<and> i_nlink (itable s i) = 0 then
            bnd (mypid s) (\<lambda>pid.
            bnd (acquiresleep pid (i_lock (itable s i))) (\<lambda>lk.
            bnd (itrunc i (upd_inode i (\<lambda>x. x\<lparr>i_lock := lk\<rparr>) s)) (\<lambda>s1.
            bnd (iupdate i (upd_inode i (\<lambda>x. x\<lparr>i_type := 0\<rparr>) s1)) (\<lambda>s2.
              releasesleep_inode i (upd_inode i (\<lambda>x. x\<lparr>i_valid := False\<rparr>) s2)))))
          else Ok s) (\<lambda>s3.
     Ok (upd_inode i (\<lambda>x. x\<lparr>i_ref := i_ref x - 1\<rparr>) s3))"

definition iunlockput :: "nat \<Rightarrow> 'a kfs_scheme \<Rightarrow> 'a kfs_scheme res" where
  "iunlockput i s = bnd (iunlock i s) (iput i)"

fun ireclaim_loop :: "nat list \<Rightarrow> uint \<Rightarrow> 'a kfs_scheme \<Rightarrow> 'a kfs_scheme res" where
  "ireclaim_loop [] dev s = Ok s"
| "ireclaim_loop (inum # inums) dev s =
     (let d = bview s (IBLOCK (of_nat inum) s);
          o0 = dinode_off (of_nat inum)
      in if rd16 d o0 \<noteq> 0 \<and> rd16 d (o0 + 6) = 0 then
           bnd (iget dev (of_nat inum) s) (\<lambda>(i, s1).
           bnd (begin_op s1) (\<lambda>s2.
           bnd (ilock i s2) (\<lambda>s3.
           bnd (iunlock i s3) (\<lambda>s4.
           bnd (iput i s4) (\<lambda>s5.
           bnd (end_op s5) (ireclaim_loop inums dev))))))
         else ireclaim_loop inums dev s)"

definition ireclaim :: "uint \<Rightarrow> 'a kfs_scheme \<Rightarrow> 'a kfs_scheme res" where
  "ireclaim dev s = ireclaim_loop [1..<unat (sb_ninodes (sb s))] dev s"

definition fsinit :: "uint \<Rightarrow> 'a kfs_scheme \<Rightarrow> 'a kfs_scheme res" where
  "fsinit dev s =
     (let s1 = readsb s in
      if sb_magic (sb s1) \<noteq> FSMAGIC then Panic ''invalid file system''
      else ireclaim dev (initlog dev (sb_logstart (sb s1)) s1))"

section \<open>Inode content\<close>

definition bmap :: "nat \<Rightarrow> nat \<Rightarrow> 'a kfs_scheme \<Rightarrow> (uint \<times> 'a kfs_scheme) res" where
  "bmap i bn s =
     (if bn < NDIRECT then
        if i_addrs (itable s i) bn = 0 then
          bnd (balloc s) (\<lambda>(addr, s1).
            if addr = 0 then Ok (0, s1)
            else Ok (addr, upd_inode i (\<lambda>x. x\<lparr>i_addrs := (i_addrs x)(bn := addr)\<rparr>) s1))
        else Ok (i_addrs (itable s i) bn, s)
      else let bn1 = bn - NDIRECT in
      if bn1 < NINDIRECT then
        bnd (if i_addrs (itable s i) NDIRECT = 0 then
               bnd (balloc s) (\<lambda>(addr, s1).
                 if addr = 0 then Ok (0, s1)
                 else Ok (addr, upd_inode i (\<lambda>x. x\<lparr>i_addrs := (i_addrs x)(NDIRECT := addr)\<rparr>) s1))
             else Ok (i_addrs (itable s i) NDIRECT, s)) (\<lambda>(ind, s2).
          if ind = 0 then Ok (0, s2)
          else let addr = rd32 (bview s2 ind) (4 * bn1) in
               if addr = 0 then
                 bnd (balloc s2) (\<lambda>(addr', s3).
                   if addr' \<noteq> 0
                   then bnd (blk_log ind (wr32 (bview s3 ind) (4 * bn1) addr') s3) (\<lambda>s4. Ok (addr', s4))
                   else Ok (addr', s3))
               else Ok (addr, s2))
      else Panic ''bmap: out of range'')"

record stat =
  st_dev :: uint
  st_ino :: uint
  st_type :: ushort
  st_nlink :: ushort
  st_size :: uint64

definition stati :: "inode \<Rightarrow> stat" where
  "stati ip = \<lparr>st_dev = i_dev ip, st_ino = i_inum ip, st_type = i_type ip, st_nlink = i_nlink ip,
     st_size = ucast (i_size ip)\<rparr>"

text \<open>
  Where \<open>readi\<close> delivers and where \<open>writei\<close> takes its bytes: a user address, a page of physical
  memory the kernel addresses directly, or an object on the kernel stack.  \<open>either_copyout\<close> and
  \<open>either_copyin\<close> are those of \<^verbatim>\<open>kernel/proc.c\<close>; the latter returns the bytes it copied.
\<close>

datatype dst = UserDst uint64 | MemDst uint64 | StackDst

datatype src = UserSrc uint64 | MemSrc uint64 | StackSrc "byte list"

fun dst_add :: "dst \<Rightarrow> nat \<Rightarrow> dst" where
  "dst_add (UserDst a) m = UserDst (a + of_nat m)"
| "dst_add (MemDst a) m = MemDst (a + of_nat m)"
| "dst_add StackDst m = StackDst"

fun src_add :: "src \<Rightarrow> nat \<Rightarrow> src" where
  "src_add (UserSrc a) m = UserSrc (a + of_nat m)"
| "src_add (MemSrc a) m = MemSrc (a + of_nat m)"
| "src_add (StackSrc xs) m = StackSrc (drop m xs)"

fun either_copyout :: "dst \<Rightarrow> byte list \<Rightarrow> 'a kproc_scheme \<Rightarrow> (int \<times> 'a kproc_scheme) res" where
  "either_copyout (UserDst a) xs s = bnd (need_proc s) (\<lambda>p. copyout (p_pagetable (procs s p)) a xs s)"
| "either_copyout (MemDst a) xs s = Ok (0, s\<lparr>mem := putl (mem s) (unat a) xs\<rparr>)"
| "either_copyout StackDst xs s = Ok (0, s)"

fun either_copyin :: "src \<Rightarrow> nat \<Rightarrow> 'a kproc_scheme \<Rightarrow> ((byte list \<times> bool) \<times> 'a kproc_scheme) res" where
  "either_copyin (UserSrc a) m s = bnd (need_proc s) (\<lambda>p. copyin (p_pagetable (procs s p)) a m s)"
| "either_copyin (MemSrc a) m s = Ok ((getl (mem s) (unat a) m, True), s)"
| "either_copyin (StackSrc xs) m s = Ok ((take m xs, True), s)"

text \<open>
  The loop of \<^verbatim>\<open>readi\<close>; it returns \<open>tot\<close>, or -1 when copying out fails, and the bytes delivered.
\<close>

function readi_loop ::
  "nat \<Rightarrow> dst \<Rightarrow> nat \<Rightarrow> nat \<Rightarrow> nat \<Rightarrow> byte list \<Rightarrow> 'a kfs_scheme \<Rightarrow> ((int \<times> byte list) \<times> 'a kfs_scheme) res" where
  "readi_loop i dst off n tot acc s =
     (if tot < n then
        bnd (bmap i (off div BSIZE) s) (\<lambda>(addr, s1).
          if addr = 0 then Ok ((int tot, acc), s1)
          else let m = min (n - tot) (BSIZE - off mod BSIZE);
                   xs = getl (bview s1 addr) (off mod BSIZE) m
               in bnd (either_copyout dst xs s1) (\<lambda>(r, s2).
                    if r = -1 then Ok ((-1, acc), s2)
                    else readi_loop i (dst_add dst m) (off + m) n (tot + m) (acc @ xs) s2))
      else Ok ((int tot, acc), s))"
  by pat_completeness auto
termination
  by (relation "measure (\<lambda>(i, dst, off, n, tot, acc, s). n - tot)")
    (auto simp: param_defs min_def)

definition readi ::
  "nat \<Rightarrow> dst \<Rightarrow> uint \<Rightarrow> uint \<Rightarrow> 'a kfs_scheme \<Rightarrow> ((int \<times> byte list) \<times> 'a kfs_scheme) res" where
  "readi i dst off n s =
     (let sz = i_size (itable s i) in
      if off > sz \<or> off + n < off then Ok ((0, []), s)
      else let n1 = (if off + n > sz then sz - off else n)
           in readi_loop i dst (unat off) (unat n1) 0 [] s)"

text \<open>
  The loop of \<^verbatim>\<open>writei\<close>, with the offset it stops at.  When copying in fails half way the bytes
  copied so far stay in the cached block, unlogged.
\<close>

function writei_loop ::
  "nat \<Rightarrow> src \<Rightarrow> nat \<Rightarrow> nat \<Rightarrow> nat \<Rightarrow> 'a kfs_scheme \<Rightarrow> ((nat \<times> nat) \<times> 'a kfs_scheme) res" where
  "writei_loop i src off n tot s =
     (if tot < n then
        bnd (bmap i (off div BSIZE) s) (\<lambda>(addr, s1).
          if addr = 0 then Ok ((tot, off), s1)
          else let m = min (n - tot) (BSIZE - off mod BSIZE) in
               bnd (either_copyin src m s1) (\<lambda>((xs, ok), s2).
                 let d = putl (bview s2 addr) (off mod BSIZE) xs in
                 if \<not> ok then Ok ((tot, off), blk_put addr d s2)
                 else bnd (blk_log addr d s2) (\<lambda>s3.
                        writei_loop i (src_add src m) (off + m) n (tot + m) s3)))
      else Ok ((tot, off), s))"
  by pat_completeness auto
termination
  by (relation "measure (\<lambda>(i, src, off, n, tot, s). n - tot)")
    (auto simp: param_defs min_def)

declare readi_loop.simps [simp del] writei_loop.simps [simp del]

definition writei :: "nat \<Rightarrow> src \<Rightarrow> uint \<Rightarrow> uint \<Rightarrow> 'a kfs_scheme \<Rightarrow> (int \<times> 'a kfs_scheme) res" where
  "writei i src off n s =
     (if off > i_size (itable s i) \<or> off + n < off then Ok (-1, s)
      else if unat (off + n) > MAXFILE * BSIZE then Ok (-1, s)
      else bnd (writei_loop i src (unat off) (unat n) 0 s) (\<lambda>((tot, off'), s1).
           let s2 = (if off' > unat (i_size (itable s1 i))
                     then upd_inode i (\<lambda>x. x\<lparr>i_size := of_nat off'\<rparr>) s1 else s1)
           in bnd (iupdate i s2) (\<lambda>s3. Ok (int tot, s3))))"

section \<open>Directories\<close>

text \<open>A directory entry is 16 bytes: the inode number, then the name padded with NULs.\<close>

definition dirent_inum :: "byte list \<Rightarrow> ushort" where
  "dirent_inum de = rd16 (cstr de) 0"

definition dirent_name :: "byte list \<Rightarrow> bytes" where
  "dirent_name de = (\<lambda>i. cstr de (i + 2))"

definition dirent_bytes :: "ushort \<Rightarrow> bytes \<Rightarrow> byte list" where
  "dirent_bytes inum name = [ucast inum, ucast (drop_bit 8 inum)] @ getl name 0 DIRSIZ"

definition namecmp :: "bytes \<Rightarrow> bytes \<Rightarrow> int" where
  "namecmp s t = strncmp s t DIRSIZ"

text \<open>The directory is locked, so its size does not change during the scan.\<close>

function dirlookup_loop ::
  "nat \<Rightarrow> byte list \<Rightarrow> nat \<Rightarrow> nat \<Rightarrow> 'a kfs_scheme \<Rightarrow> ((nat \<times> uint) option \<times> 'a kfs_scheme) res" where
  "dirlookup_loop dp name off sz s =
     (if off < sz then
        bnd (readi dp StackDst (of_nat off) (of_nat DIRENT_SIZE) s) (\<lambda>((r, de), s1).
          if r \<noteq> int DIRENT_SIZE then Panic ''dirlookup read''
          else if dirent_inum de \<noteq> 0 \<and> namecmp (cstr name) (dirent_name de) = 0 then
            bnd (iget (i_dev (itable s1 dp)) (ucast (dirent_inum de)) s1) (\<lambda>(ip, s2). Ok (Some (ip, of_nat off), s2))
          else dirlookup_loop dp name (off + DIRENT_SIZE) sz s1)
      else Ok (None, s))"
  by pat_completeness auto
termination
  by (relation "measure (\<lambda>(dp, name, off, sz, s). sz - off)") (auto simp: param_defs)

definition dirlookup ::
  "nat \<Rightarrow> byte list \<Rightarrow> 'a kfs_scheme \<Rightarrow> ((nat \<times> uint) option \<times> 'a kfs_scheme) res" where
  "dirlookup dp name s =
     (if i_type (itable s dp) \<noteq> T_DIR then Panic ''dirlookup not DIR''
      else dirlookup_loop dp name 0 (unat (i_size (itable s dp))) s)"

function dirlink_scan :: "nat \<Rightarrow> nat \<Rightarrow> nat \<Rightarrow> 'a kfs_scheme \<Rightarrow> (nat \<times> 'a kfs_scheme) res" where
  "dirlink_scan dp off sz s =
     (if off < sz then
        bnd (readi dp StackDst (of_nat off) (of_nat DIRENT_SIZE) s) (\<lambda>((r, de), s1).
          if r \<noteq> int DIRENT_SIZE then Panic ''dirlink read''
          else if dirent_inum de = 0 then Ok (off, s1)
          else dirlink_scan dp (off + DIRENT_SIZE) sz s1)
      else Ok (off, s))"
  by pat_completeness auto
termination
  by (relation "measure (\<lambda>(dp, off, sz, s). sz - off)") (auto simp: param_defs)

declare dirlookup_loop.simps [simp del] dirlink_scan.simps [simp del]

definition dirlink :: "nat \<Rightarrow> byte list \<Rightarrow> uint \<Rightarrow> 'a kfs_scheme \<Rightarrow> (int \<times> 'a kfs_scheme) res" where
  "dirlink dp name inum s =
     bnd (dirlookup dp name s) (\<lambda>(found, s1).
       case found of
         Some (ip, _) \<Rightarrow> bnd (iput ip s1) (\<lambda>s2. Ok (-1, s2))
       | None \<Rightarrow>
           bnd (dirlink_scan dp 0 (unat (i_size (itable s1 dp))) s1) (\<lambda>(off, s2).
             let de = dirent_bytes (ucast inum) (strncpy (\<lambda>_. 0) 0 (cstr name) DIRSIZ) in
             bnd (writei dp (StackSrc de) (of_nat off) (of_nat DIRENT_SIZE) s2) (\<lambda>(r, s3).
               Ok (if r \<noteq> int DIRENT_SIZE then -1 else 0, s3))))"

section \<open>Paths\<close>

definition slash :: byte where "slash = 0x2f"

definition skipelem :: "byte list \<Rightarrow> (byte list \<times> byte list) option" where
  "skipelem path =
     (let p1 = dropWhile (\<lambda>c. c = slash) path in
      if p1 = [] then None
      else let s = takeWhile (\<lambda>c. c \<noteq> slash) p1;
               p2 = dropWhile (\<lambda>c. c \<noteq> slash) p1
           in Some (dropWhile (\<lambda>c. c = slash) p2, take DIRSIZ s))"

lemma skipelem_shorter: "skipelem path = Some (rest, name) \<Longrightarrow> length rest < length path"
proof -
  assume a: "skipelem path = Some (rest, name)"
  let ?p = "dropWhile (\<lambda>c. c = slash) path"
  have ne: "?p \<noteq> []" and r: "rest = dropWhile (\<lambda>c. c = slash) (dropWhile (\<lambda>c. c \<noteq> slash) ?p)"
    using a by (auto simp: skipelem_def Let_def split: if_splits)
  obtain c cs where c: "?p = c # cs" using ne by (cases ?p) auto
  have "c \<noteq> slash" using c hd_dropWhile [OF ne] by auto
  then have "length (dropWhile (\<lambda>c. c \<noteq> slash) ?p) \<le> length cs"
    using c length_dropWhile_le [of "\<lambda>c. c \<noteq> slash" cs] by simp
  then have "length rest \<le> length cs" using r length_dropWhile_le le_trans by blast
  moreover have "length ?p \<le> length path" by (rule length_dropWhile_le)
  ultimately show ?thesis using c by simp
qed

function namex_loop ::
  "nat \<Rightarrow> byte list \<Rightarrow> bool \<Rightarrow> byte list \<Rightarrow> 'a kfs_scheme \<Rightarrow> ((nat option \<times> byte list) \<times> 'a kfs_scheme) res" where
  "namex_loop ip path parent name s =
     (case skipelem path of
        None \<Rightarrow> if parent then bnd (iput ip s) (\<lambda>s1. Ok ((None, name), s1)) else Ok ((Some ip, name), s)
      | Some (rest, nm) \<Rightarrow>
          bnd (ilock ip s) (\<lambda>s1.
            if i_type (itable s1 ip) \<noteq> T_DIR then bnd (iunlockput ip s1) (\<lambda>s2. Ok ((None, nm), s2))
            else if parent \<and> rest = [] then bnd (iunlock ip s1) (\<lambda>s2. Ok ((Some ip, nm), s2))
            else bnd (dirlookup ip nm s1) (\<lambda>(found, s2).
                   bnd (iunlockput ip s2) (\<lambda>s3.
                     case found of
                       None \<Rightarrow> Ok ((None, nm), s3)
                     | Some (nxt, _) \<Rightarrow> namex_loop nxt rest parent nm s3))))"
  by pat_completeness auto
termination
  by (relation "measure (\<lambda>(ip, path, parent, name, s). length path)")
    (auto dest: skipelem_shorter)

declare namex_loop.simps [simp del]

definition namex ::
  "byte list \<Rightarrow> bool \<Rightarrow> 'a kfs_scheme \<Rightarrow> ((nat option \<times> byte list) \<times> 'a kfs_scheme) res" where
  "namex path parent s =
     bnd (if path \<noteq> [] \<and> hd path = slash then iget ROOTDEV ROOTINO s
          else bnd (need_proc s) (\<lambda>p.
                 case p_cwd (procs s p) of
                   None \<Rightarrow> Panic ''kerneltrap''
                 | Some i \<Rightarrow> Ok (i, idup i s)))
       (\<lambda>(ip, s1). namex_loop ip path parent [] s1)"

definition namei :: "byte list \<Rightarrow> 'a kfs_scheme \<Rightarrow> (nat option \<times> 'a kfs_scheme) res" where
  "namei path s = bnd (namex path False s) (\<lambda>((ip, _), s1). Ok (ip, s1))"

definition nameiparent ::
  "byte list \<Rightarrow> 'a kfs_scheme \<Rightarrow> ((nat option \<times> byte list) \<times> 'a kfs_scheme) res" where
  "nameiparent path s = namex path True s"

end
