(* ===== verification/Printf.thy ===== *)
theory Printf
  imports Prelude
begin

unbundle bit_operations_syntax

text \<open>
  The formatter that \<^verbatim>\<open>kernel/printf.c\<close> and \<^verbatim>\<open>user/printf.c\<close> share, as a function from the format
  and its arguments to the characters printed.  A character is what is handed to \<^verbatim>\<open>consputc\<close>;
  \<open>None\<close> is the value 0x100, which the kernel's \<^verbatim>\<open>consputc\<close> takes for \<^verbatim>\<open>BACKSPACE\<close>.  Formatting is
  \<open>None\<close> when the arguments do not fit the format, which the language leaves undefined.  The two
  \<^verbatim>\<open>printint\<close> differ: the user one converts the value to a 32-bit \<^verbatim>\<open>uint\<close> first.
\<close>

datatype parg = PInt uint64 | PStr "byte list option"

definition digits :: "byte list" where
  "digits = map (\<lambda>c. of_nat (of_char c)) ''0123456789abcdef''"

definition udigits :: "byte list" where
  "udigits = map (\<lambda>c. of_nat (of_char c)) ''0123456789ABCDEF''"

text \<open>The digits of \<open>x\<close>, most significant first: the buffer of \<^verbatim>\<open>printint\<close>, read backwards.\<close>

function print_digits :: "byte list \<Rightarrow> nat \<Rightarrow> nat \<Rightarrow> byte list" where
  "print_digits ds b x =
     (if x div b \<noteq> 0 \<and> 1 < b then print_digits ds b (x div b) @ [ds ! (x mod b)] else [ds ! (x mod b)])"
  by pat_completeness auto
termination
  by (relation "measure (\<lambda>(ds, b, x). x)") (auto intro: Euclidean_Rings.div_less_dividend simp: div_greater_zero_iff)

declare print_digits.simps [simp del]

definition printint :: "uint64 \<Rightarrow> nat \<Rightarrow> bool \<Rightarrow> byte list" where
  "printint xx b sg =
     (let neg = (sg \<and> sint xx < 0);
          x = (if neg then - xx else xx)
      in (if neg then [0x2d] else []) @ print_digits digits b (unat x))"

definition uprintint :: "uint64 \<Rightarrow> nat \<Rightarrow> bool \<Rightarrow> byte list" where
  "uprintint xx b sg =
     (let neg = (sg \<and> sint xx < 0);
          x = (ucast (if neg then - xx else xx) :: uint)
      in (if neg then [0x2d] else []) @ print_digits udigits b (unat x))"

fun printptr_digits :: "byte list \<Rightarrow> nat \<Rightarrow> uint64 \<Rightarrow> byte list" where
  "printptr_digits ds 0 x = []"
| "printptr_digits ds (Suc k) x = ds ! unat (drop_bit 60 x) # printptr_digits ds k (push_bit 4 x)"

definition printptr :: "byte list \<Rightarrow> uint64 \<Rightarrow> byte list" where
  "printptr ds x = [0x30, 0x78] @ printptr_digits ds 16 x"

text \<open>A conversion: an integer of 32 or 64 bits in a base, signed or not, and the others.\<close>

datatype conv = CInt bool nat bool | CPtr | CChr | CStr | CPercent | CUnknown byte

text \<open>The conversion that the characters after a percent sign select, and how many characters it
  takes beyond the first.\<close>

definition conversion :: "byte \<Rightarrow> byte \<Rightarrow> byte \<Rightarrow> conv \<times> nat" where
  "conversion c0 c1 c2 =
     (if c0 = 0x64 then (CInt False 10 True, 0)
      else if c0 = 0x6c \<and> c1 = 0x64 then (CInt True 10 True, 1)
      else if c0 = 0x6c \<and> c1 = 0x6c \<and> c2 = 0x64 then (CInt True 10 True, 2)
      else if c0 = 0x75 then (CInt False 10 False, 0)
      else if c0 = 0x6c \<and> c1 = 0x75 then (CInt True 10 False, 1)
      else if c0 = 0x6c \<and> c1 = 0x6c \<and> c2 = 0x75 then (CInt True 10 False, 2)
      else if c0 = 0x78 then (CInt False 16 False, 0)
      else if c0 = 0x6c \<and> c1 = 0x78 then (CInt True 16 False, 1)
      else if c0 = 0x6c \<and> c1 = 0x6c \<and> c2 = 0x78 then (CInt True 16 False, 2)
      else if c0 = 0x70 then (CPtr, 0)
      else if c0 = 0x63 then (CChr, 0)
      else if c0 = 0x73 then (CStr, 0)
      else if c0 = 0x25 then (CPercent, 0)
      else (CUnknown c0, 0))"

text \<open>\<^verbatim>\<open>va_arg\<close> of an \<^verbatim>\<open>int\<close> sign-extends the low half of the argument, of a \<^verbatim>\<open>uint32\<close> zero-extends it.\<close>

definition va_int :: "bool \<Rightarrow> bool \<Rightarrow> uint64 \<Rightarrow> uint64" where
  "va_int long sg x =
     (if long then x else if sg then scast (ucast x :: uint) else ucast (ucast x :: uint))"

definition null_str :: "byte list" where
  "null_str = map (\<lambda>c. of_nat (of_char c)) ''(null)''"

fun conv_out ::
  "(uint64 \<Rightarrow> nat \<Rightarrow> bool \<Rightarrow> byte list) \<Rightarrow> byte list \<Rightarrow> conv \<Rightarrow> parg list \<Rightarrow>
   (byte option list \<times> parg list) option" where
  "conv_out pint ds (CInt long b sg) (PInt x # as) = Some (map Some (pint (va_int long sg x) b sg), as)"
| "conv_out pint ds CPtr (PInt x # as) = Some (map Some (printptr ds x), as)"
| "conv_out pint ds CChr (PInt x # as) =
     Some ([if (ucast x :: uint) = 0x100 then None else Some (ucast x)], as)"
| "conv_out pint ds CStr (PStr (Some s) # as) = Some (map Some s, as)"
| "conv_out pint ds CStr (PStr None # as) = Some (map Some null_str, as)"
| "conv_out pint ds CPercent as = Some ([Some 0x25], as)"
| "conv_out pint ds (CUnknown c) as = Some ([Some 0x25, Some c], as)"
| "conv_out pint ds _ _ = None"

definition char_at :: "byte list \<Rightarrow> nat \<Rightarrow> byte" where
  "char_at xs i = (if i < length xs then xs ! i else 0)"

function format_out ::
  "(uint64 \<Rightarrow> nat \<Rightarrow> bool \<Rightarrow> byte list) \<Rightarrow> byte list \<Rightarrow> byte list \<Rightarrow> parg list \<Rightarrow> byte option list option" where
  "format_out pint ds fmt as =
     (case fmt of
        [] \<Rightarrow> Some []
      | cx # r \<Rightarrow>
          if cx \<noteq> 0x25 then map_option ((#) (Some cx)) (format_out pint ds r as)
          else case r of
                 [] \<Rightarrow> Some []
               | c0 # r0 \<Rightarrow>
                   let (cv, k) = conversion c0 (char_at r0 0) (char_at r0 1) in
                   case conv_out pint ds cv as of
                     None \<Rightarrow> None
                   | Some (out, as1) \<Rightarrow> map_option ((@) out) (format_out pint ds (drop k r0) as1))"
  by pat_completeness auto
termination
  by (relation "measure (\<lambda>(pint, ds, fmt, as). length fmt)") auto

declare format_out.simps [simp del]

definition kformat :: "byte list \<Rightarrow> parg list \<Rightarrow> byte option list option" where
  "kformat = format_out printint digits"

text \<open>The user's \<^verbatim>\<open>putc\<close> takes a \<^verbatim>\<open>char\<close>, so that 0x100 is printed as NUL.\<close>

definition uformat :: "byte list \<Rightarrow> parg list \<Rightarrow> byte list option" where
  "uformat fmt as =
     map_option (map (\<lambda>c. case c of None \<Rightarrow> 0 | Some ch \<Rightarrow> ch)) (format_out uprintint udigits fmt as)"

section \<open>Reading back what was printed\<close>

text \<open>The value of a numeral: a minus sign, then digits of either case.\<close>

definition digit_val :: "byte \<Rightarrow> nat" where
  "digit_val c = (if c \<le> 0x39 then unat c - 0x30 else if c \<le> 0x46 then unat c - 0x37 else unat c - 0x57)"

definition nat_of_numeral :: "nat \<Rightarrow> byte list \<Rightarrow> nat" where
  "nat_of_numeral b cs = foldl (\<lambda>a c. a * b + digit_val c) 0 cs"

definition int_of_numeral :: "nat \<Rightarrow> byte list \<Rightarrow> int" where
  "int_of_numeral b cs =
     (if cs \<noteq> [] \<and> hd cs = 0x2d then - int (nat_of_numeral b (tl cs)) else int (nat_of_numeral b cs))"

definition digit_table :: "byte list \<Rightarrow> nat \<Rightarrow> bool" where
  "digit_table ds b \<longleftrightarrow> 1 < b \<and> list_all (\<lambda>i. digit_val (ds ! i) = i \<and> ds ! i \<noteq> 0x2d) [0..<b]"

lemma digit_tables: "digit_table digits 10" "digit_table digits 16" "digit_table udigits 10" "digit_table udigits 16"
  by code_simp+

lemma digit_tableD:
  assumes "digit_table ds b"
  shows "1 < b" "i < b \<Longrightarrow> digit_val (ds ! i) = i" "i < b \<Longrightarrow> ds ! i \<noteq> 0x2d"
  using assms by (auto simp: digit_table_def list_all_iff)

lemma print_digits_val:
  assumes "digit_table ds b"
  shows "nat_of_numeral b (print_digits ds b x) = x"
  using assms
proof (induction ds b x rule: print_digits.induct)
  case (1 ds b x)
  have b: "1 < b" using 1(2) by (rule digit_tableD)
  have m: "digit_val (ds ! (x mod b)) = x mod b" by (rule digit_tableD [OF 1(2)]) (use b in simp)
  show ?case
  proof (cases "x div b = 0")
    case True
    moreover have "x mod b = x" using True mult_div_mod_eq [of b x] by simp
    ultimately show ?thesis using m by (subst print_digits.simps) (simp add: nat_of_numeral_def)
  next
    case False
    then have "foldl (\<lambda>a c. a * b + digit_val c) 0 (print_digits ds b (x div b)) = x div b"
      using 1 b by (simp add: nat_of_numeral_def)
    then show ?thesis using m b False by (subst print_digits.simps) (simp add: nat_of_numeral_def)
  qed
qed

lemma print_digits_length:
  assumes "1 < b" "x < b ^ n" "0 < n"
  shows "length (print_digits ds b x) \<le> n"
  using assms
proof (induction n arbitrary: x)
  case (Suc n)
  show ?case
  proof (cases "x div b = 0")
    case True
    then show ?thesis by (subst print_digits.simps) simp
  next
    case False
    have lt: "x div b < b ^ n" using Suc.prems by (simp add: less_mult_imp_div_less mult.commute)
    with False have "0 < n" by (cases n) auto
    then have "length (print_digits ds b (x div b)) \<le> n" using Suc.IH Suc.prems(1) lt by blast
    then show ?thesis by (subst print_digits.simps) simp
  qed
qed simp

lemma print_digits_hd: "digit_table ds b \<Longrightarrow> print_digits ds b x \<noteq> [] \<and> hd (print_digits ds b x) \<noteq> 0x2d"
proof (induction ds b x rule: print_digits.induct)
  case (1 ds b x)
  have b: "1 < b" using 1(2) by (rule digit_tableD)
  have "ds ! (x mod b) \<noteq> 0x2d" by (rule digit_tableD [OF 1(2)]) (use b in simp)
  then show ?case using 1 b by (cases "x div b = 0") (simp_all add: print_digits.simps [of ds b x])
qed

lemma unat_neg_sint:
  fixes x :: uint64
  assumes "sint x < 0"
  shows "int (unat (- x)) = - sint x" "unat (- x) \<le> 2 ^ 63"
proof -
  have r: "- (2 ^ 63) \<le> sint x" using sint_greater_eq [of x] by simp
  have "uint (- x) = (- uint x) mod 2 ^ 64" by (simp add: uint_word_ariths)
  also have "uint x = sint x mod 2 ^ 64" by (simp add: uint_sint take_bit_eq_mod)
  also have "(- (sint x mod 2 ^ 64)) mod 2 ^ 64 = (- sint x) mod 2 ^ 64" by (rule mod_minus_eq)
  also have "\<dots> = - sint x" using r assms by (intro mod_pos_pos_trivial) auto
  finally show u: "int (unat (- x)) = - sint x" by simp
  have "int (unat (- x)) \<le> int (2 ^ 63)" using u r by simp
  then show "unat (- x) \<le> 2 ^ 63" by (simp only: of_nat_le_iff)
qed

lemma sint_eq_uint:
  fixes x :: uint64
  assumes "\<not> sint x < 0"
  shows "int (unat x) = sint x" "unat x < 2 ^ 63"
proof -
  have r: "sint x < 2 ^ 63" using sint_less [of x] by simp
  have "uint x = sint x mod 2 ^ 64" by (simp add: uint_sint take_bit_eq_mod)
  also have "\<dots> = sint x" using r assms by (intro mod_pos_pos_trivial) auto
  finally show u: "int (unat x) = sint x" by simp
  have "int (unat x) < int (2 ^ 63)" using u r by simp
  then show "unat x < 2 ^ 63" by (simp only: of_nat_less_iff)
qed

lemma numeral_of_digits:
  assumes "digit_table ds b"
  shows "int_of_numeral b (print_digits ds b x) = int x" "int_of_numeral b (0x2d # print_digits ds b x) = - int x"
  using print_digits_val [OF assms] print_digits_hd [OF assms, of x] by (auto simp: int_of_numeral_def)

section \<open>Properties\<close>


text \<open>
  C17. The user library's \<open>printint\<close> keeps only the low 32 bits of the magnitude, so that \<^verbatim>\<open>%lu\<close> prints the
  argument modulo two to the 32nd power; it agrees with the kernel's on values that fit 32 bits.
\<close>

theorem uprintint_truncates:
  "int_of_numeral 10 (uprintint x 10 False) = uint x mod 2 ^ 32 \<and>
   int_of_numeral 16 (uprintint x 16 False) = uint x mod 2 ^ 32 \<and>
   uprintint (2 ^ 32 + 7) 10 False = printint 7 10 False"
proof -
  have "int (unat (ucast x :: uint)) = uint x mod 2 ^ 32" by (simp add: unsigned_ucast_eq take_bit_eq_mod zmod_int)
  moreover have "uprintint (2 ^ 32 + 7) 10 False = printint 7 10 False" by code_simp
  ultimately show ?thesis
    using numeral_of_digits(1) [OF digit_tables(3)] numeral_of_digits(1) [OF digit_tables(4)] by (simp add: uprintint_def)
qed

end
