(* ===== verification/Uart.thy ===== *)
theory Uart
  imports Fs Printf
begin

unbundle bit_operations_syntax

text \<open>
  The serial line, \<^verbatim>\<open>kernel/uart.c\<close>, and what is printed on it: \<^verbatim>\<open>consputc\<close> of
  \<^verbatim>\<open>kernel/console.c\<close>, \<^verbatim>\<open>printf\<close> and \<^verbatim>\<open>panic\<close> of \<^verbatim>\<open>kernel/printf.c\<close>, and \<^verbatim>\<open>procdump\<close> of
  \<^verbatim>\<open>kernel/proc.c\<close>.  The interrupt handler is in theory \<open>Console\<close>.  The device is the list
  of values written to its registers, in order, the characters waiting in its receive FIFO, and
  whether its transmitter is idle.  \<^verbatim>\<open>uartwrite\<close> returns the characters still to be sent when it
  goes to sleep on a busy transmitter.
\<close>

definition INPUT_BUF_SIZE :: nat where [param_defs]: "INPUT_BUF_SIZE = 128"

record kcons = kfs +
  uart_writes :: "(nat \<times> byte) list"
  uart_rx :: "byte list"
  uart_idle :: bool
  tx_busy :: bool
  panicking :: bool
  panicked :: bool
  cons_buf :: "nat \<Rightarrow> byte"
  cons_r :: uint
  cons_w :: uint
  cons_e :: uint
  devsw_console :: bool

section \<open>The serial line\<close>

definition THR :: nat where "THR = 0"
definition IER :: nat where "IER = 1"
definition FCR :: nat where "FCR = 2"
definition LCR :: nat where "LCR = 3"

definition WriteReg :: "nat \<Rightarrow> byte \<Rightarrow> 'a kcons_scheme \<Rightarrow> 'a kcons_scheme" where
  "WriteReg reg v s = s\<lparr>uart_writes := uart_writes s @ [(reg, v)]\<rparr>"

definition uartinit :: "'a kcons_scheme \<Rightarrow> 'a kcons_scheme" where
  "uartinit s =
     (let s1 = WriteReg IER 0 s;
          s2 = WriteReg LCR 0x80 s1;
          s3 = WriteReg 0 3 s2;
          s4 = WriteReg 1 0 s3;
          s5 = WriteReg LCR 3 s4;
          s6 = WriteReg FCR (1 OR 6) s5
      in WriteReg IER (2 OR 1) s6)"

fun uartwrite :: "byte list \<Rightarrow> 'a kcons_scheme \<Rightarrow> byte list \<times> 'a kcons_scheme" where
  "uartwrite [] s = ([], s)"
| "uartwrite (c # cs) s =
     (if tx_busy s then (c # cs, s)
      else uartwrite cs ((WriteReg THR c s)\<lparr>tx_busy := True\<rparr>))"

text \<open>Interrupts are off around the transfer unless the kernel is already panicking.\<close>

definition uartputc_sync :: "byte \<Rightarrow> 'a kcons_scheme \<Rightarrow> 'a kcons_scheme res" where
  "uartputc_sync c s =
     (let s1 = (if panicking s then s else s\<lparr>thiscpu := push_off (thiscpu s)\<rparr>) in
      if panicked s1 then Wait ''halted''
      else if \<not> uart_idle s1 then Wait ''uart''
      else let s2 = WriteReg THR c s1 in
           if panicking s2 then Ok s2
           else bnd (pop_off (thiscpu s2)) (\<lambda>cpu. Ok (s2\<lparr>thiscpu := cpu\<rparr>)))"

definition uartgetc :: "'a kcons_scheme \<Rightarrow> byte option \<times> 'a kcons_scheme" where
  "uartgetc s = (case uart_rx s of [] \<Rightarrow> (None, s) | c # cs \<Rightarrow> (Some c, s\<lparr>uart_rx := cs\<rparr>))"

section \<open>Printing\<close>

text \<open>\<open>None\<close> is \<^verbatim>\<open>BACKSPACE\<close>.\<close>

definition consputc :: "byte option \<Rightarrow> 'a kcons_scheme \<Rightarrow> 'a kcons_scheme res" where
  "consputc c s =
     (case c of
        None \<Rightarrow> bnd (uartputc_sync 8 s) (\<lambda>s1. bnd (uartputc_sync 0x20 s1) (uartputc_sync 8))
      | Some ch \<Rightarrow> uartputc_sync ch s)"

fun emit :: "byte option list \<Rightarrow> 'a kcons_scheme \<Rightarrow> 'a kcons_scheme res" where
  "emit [] s = Ok s"
| "emit (c # cs) s = bnd (consputc c s) (emit cs)"

definition kprintf :: "byte list \<Rightarrow> parg list \<Rightarrow> 'a kcons_scheme \<Rightarrow> 'a kcons_scheme res" where
  "kprintf fmt as s = (case kformat fmt as of None \<Rightarrow> Panic ''va_arg'' | Some out \<Rightarrow> emit out s)"

definition ascii :: "string \<Rightarrow> byte list" where
  "ascii cs = map (\<lambda>c. of_nat (of_char c)) cs"

text \<open>What \<^verbatim>\<open>panic\<close> does before it spins for ever.\<close>

definition panic_print :: "byte list \<Rightarrow> 'a kcons_scheme \<Rightarrow> 'a kcons_scheme res" where
  "panic_print msg s =
     bnd (kprintf (ascii ''panic: '') [] (s\<lparr>panicking := True\<rparr>)) (\<lambda>s1.
       bnd (kprintf (ascii ''%s'' @ [10]) [PStr (Some msg)] s1) (\<lambda>s2. Ok (s2\<lparr>panicked := True\<rparr>)))"

fun state_name :: "procstate \<Rightarrow> byte list" where
  "state_name UNUSED = ascii ''unused''"
| "state_name USED = ascii ''used''"
| "state_name SLEEPING = ascii ''sleep ''"
| "state_name RUNNABLE = ascii ''runble''"
| "state_name RUNNING = ascii ''run   ''"
| "state_name ZOMBIE = ascii ''zombie''"

text \<open>The characters of a name, up to its NUL or the end of its 16 bytes.\<close>

definition name_chars :: "bytes \<Rightarrow> byte list" where
  "name_chars nm = takeWhile (\<lambda>c. c \<noteq> 0) (map nm [0..<16])"

fun procdump_loop :: "nat list \<Rightarrow> 'a kcons_scheme \<Rightarrow> 'a kcons_scheme res" where
  "procdump_loop [] s = Ok s"
| "procdump_loop (i # is) s =
     (let p = procs s i in
      if p_state p = UNUSED then procdump_loop is s
      else bnd (kprintf (ascii ''%d %s %s'')
                  [PInt (word_of_int (p_pid p)), PStr (Some (state_name (p_state p))), PStr (Some (name_chars (p_name p)))] s)
             (\<lambda>s1. bnd (kprintf [10] [] s1) (procdump_loop is)))"

definition procdump :: "'a kcons_scheme \<Rightarrow> 'a kcons_scheme res" where
  "procdump s = bnd (kprintf [10] [] s) (procdump_loop [0..<NPROC])"

end
