(* ===== verification/Pagetable.thy ===== *)
theory Pagetable
  imports Vm
begin

unbundle bit_operations_syntax

text \<open>
  Page tables as trees.  \<open>ptree k m l p\<close>: page \<open>p\<close> of memory \<open>m\<close> is the root of a page table
  with \<open>l\<close> levels below it, made of legal, pairwise distinct pages (\<open>k\<close> is the end of the
  kernel); \<open>nodes\<close> are its pages and \<open>leaf\<close> the entry it holds for a virtual address, 0 where
  there is none.  The operations of \<open>Vm\<close> are specified by what they do to \<open>leaf\<close>.
\<close>

section \<open>Trees in memory\<close>

definition valid :: "uint64 \<Rightarrow> bool" where
  "valid e \<longleftrightarrow> e AND PTE_V \<noteq> 0"

definition ent :: "bytes \<Rightarrow> uint64 \<Rightarrow> nat \<Rightarrow> uint64" where
  "ent m p i = rd64 m (unat p + 8 * i)"

definition idx :: "nat \<Rightarrow> uint64 \<Rightarrow> nat" where
  "idx l va = unat (PX l va)"

definition legal :: "uint64 \<Rightarrow> uint64 \<Rightarrow> bool" where
  "legal k p \<longleftrightarrow> 0 < k \<and> unat p mod 4096 = 0 \<and> k \<le> p \<and> p < PHYSTOP"

fun nodes :: "bytes \<Rightarrow> nat \<Rightarrow> uint64 \<Rightarrow> uint64 set" where
  "nodes m 0 p = {p}"
| "nodes m (Suc l) p = insert p (\<Union>i\<in>{i. i < 512 \<and> valid (ent m p i)}. nodes m l (PTE2PA (ent m p i)))"

fun ptree :: "uint64 \<Rightarrow> bytes \<Rightarrow> nat \<Rightarrow> uint64 \<Rightarrow> bool" where
  "ptree k m 0 p \<longleftrightarrow> legal k p"
| "ptree k m (Suc l) p \<longleftrightarrow> legal k p \<and>
     (\<forall>i<512. valid (ent m p i) \<longrightarrow> PTE_FLAGS (ent m p i) = PTE_V \<and>
        ptree k m l (PTE2PA (ent m p i)) \<and> p \<notin> nodes m l (PTE2PA (ent m p i))) \<and>
     (\<forall>i<512. \<forall>j<512. i \<noteq> j \<longrightarrow> valid (ent m p i) \<longrightarrow> valid (ent m p j) \<longrightarrow>
        nodes m l (PTE2PA (ent m p i)) \<inter> nodes m l (PTE2PA (ent m p j)) = {})"

fun leafpage :: "bytes \<Rightarrow> nat \<Rightarrow> uint64 \<Rightarrow> uint64 \<Rightarrow> uint64 option" where
  "leafpage m 0 p va = Some p"
| "leafpage m (Suc l) p va =
     (let e = ent m p (idx (Suc l) va) in if valid e then leafpage m l (PTE2PA e) va else None)"

definition leaf :: "bytes \<Rightarrow> nat \<Rightarrow> uint64 \<Rightarrow> uint64 \<Rightarrow> uint64" where
  "leaf m l p va = (case leafpage m l p va of None \<Rightarrow> 0 | Some q \<Rightarrow> ent m q (idx 0 va))"

lemma not_valid_0 [simp]: "\<not> valid 0"
  by (simp add: valid_def)

lemma idx_less [simp]: "idx l va < 512"
proof -
  have "PX l va \<le> 0x1FF" by (simp add: PX_def word_and_le1)
  then show ?thesis by (simp add: idx_def word_le_nat_alt)
qed

lemma leaf_0 [simp]: "leaf m 0 p va = ent m p (idx 0 va)"
  by (simp add: leaf_def)

lemma leaf_Suc: "leaf m (Suc l) p va =
    (if valid (ent m p (idx (Suc l) va)) then leaf m l (PTE2PA (ent m p (idx (Suc l) va))) va else 0)"
  by (simp add: leaf_def Let_def)

lemma root_in_nodes [simp]: "p \<in> nodes m l p"
  by (cases l) auto

lemma child_nodes: "i < 512 \<Longrightarrow> valid (ent m p i) \<Longrightarrow> nodes m l (PTE2PA (ent m p i)) \<subseteq> nodes m (Suc l) p"
  by auto

lemma ptree_legal: "ptree k m l p \<Longrightarrow> q \<in> nodes m l p \<Longrightarrow> legal k q"
  by (induction l arbitrary: p) auto

lemma legal_root: "ptree k m l p \<Longrightarrow> legal k p"
  by (cases l) auto

lemma ptree_child:
  "ptree k m (Suc l) p \<Longrightarrow> i < 512 \<Longrightarrow> valid (ent m p i) \<Longrightarrow> ptree k m l (PTE2PA (ent m p i))"
  by simp

lemma leafpage_in_nodes: "leafpage m l p va = Some q \<Longrightarrow> q \<in> nodes m l p"
proof (induction l arbitrary: p)
  case (Suc l)
  then show ?case by (auto simp: Let_def split: if_splits intro!: exI [of _ "idx (Suc l) va"])
qed simp

lemma legal_gap:
  assumes "legal k p" "legal k q" "p \<noteq> q"
  shows "unat p + 4096 \<le> unat q \<or> unat q + 4096 \<le> unat p"
proof -
  have "unat p \<noteq> unat q" using assms(3) by (simp add: word_unat_eq_iff)
  then show ?thesis
    using aligned_gap [of "unat p" 4096 "unat q"] aligned_gap [of "unat q" 4096 "unat p"] assms(1,2)
    unfolding legal_def by linarith
qed

lemma legal_bound: "legal k p \<Longrightarrow> unat p + 4096 \<le> 0x88000000 \<and> p \<noteq> 0"
proof -
  assume l: "legal k p"
  then have "unat p < 0x88000000" by (simp add: legal_def word_less_nat_alt unat_PHYSTOP)
  moreover from l have "unat p mod 4096 = 0" by (simp add: legal_def)
  ultimately have "unat p + 4096 \<le> 0x88000000"
    using aligned_gap [of "unat p" 4096 "0x88000000"] by simp
  moreover have "p \<noteq> 0" using l by (auto simp: legal_def)
  ultimately show ?thesis by simp
qed

lemma page_ok_legal: "0 < kend s \<Longrightarrow> page_ok s p \<longleftrightarrow> legal (kend s) p"
  by (auto simp: page_ok_def legal_def PGSIZE_def)

text \<open>The address the walk computes for an entry does not wrap.\<close>

lemma slot_addr:
  assumes "legal k p"
  shows "unat (p + 8 * PX l va) = unat p + 8 * idx l va" "p + 8 * PX l va \<noteq> 0"
proof -
  have b: "unat p + 4096 \<le> 0x88000000" using legal_bound [OF assms] by simp
  have i: "unat (PX l va) < 512" using idx_less [of l va] by (simp add: idx_def)
  have "unat (8 * PX l va) = 8 * unat (PX l va)"
    using i by (simp add: unat_word_ariths)
  then show u: "unat (p + 8 * PX l va) = unat p + 8 * idx l va"
    using b i by (simp add: unat_word_ariths idx_def)
  show "p + 8 * PX l va \<noteq> 0"
  proof
    assume "p + 8 * PX l va = 0"
    then have "unat p = 0" using u by simp
    then show False using legal_bound [OF assms] by (simp add: unat_eq_zero)
  qed
qed

section \<open>Framing\<close>

definition agree :: "bytes \<Rightarrow> bytes \<Rightarrow> uint64 set \<Rightarrow> bool" where
  "agree m m' S \<longleftrightarrow> (\<forall>q\<in>S. \<forall>i<4096. m' (unat q + i) = m (unat q + i))"

lemma agree_mono: "agree m m' T \<Longrightarrow> S \<subseteq> T \<Longrightarrow> agree m m' S"
  by (auto simp: agree_def)

lemma agree_ent: "agree m m' S \<Longrightarrow> p \<in> S \<Longrightarrow> i < 512 \<Longrightarrow> ent m' p i = ent m p i"
  unfolding ent_def agree_def by (rule rd64_cong) (simp add: add.assoc)

lemma agree_tree:
  assumes "agree m m' (nodes m l p)"
  shows "nodes m' l p = nodes m l p \<and> (ptree k m' l p \<longleftrightarrow> ptree k m l p) \<and>
    leafpage m' l p va = leafpage m l p va"
  using assms
proof (induction l arbitrary: p)
  case 0
  then show ?case by simp
next
  case (Suc l)
  have e: "ent m' p i = ent m p i" if "i < 512" for i
    using agree_ent [OF Suc.prems _ that] by simp
  have c: "nodes m' l (PTE2PA (ent m p i)) = nodes m l (PTE2PA (ent m p i)) \<and>
      (ptree k m' l (PTE2PA (ent m p i)) \<longleftrightarrow> ptree k m l (PTE2PA (ent m p i))) \<and>
      leafpage m' l (PTE2PA (ent m p i)) va = leafpage m l (PTE2PA (ent m p i)) va"
    if "i < 512" "valid (ent m p i)" for i
    by (rule Suc.IH, rule agree_mono [OF Suc.prems]) (use that in auto)
  have "nodes m' (Suc l) p = nodes m (Suc l) p" using e c by auto
  moreover have "ptree k m' (Suc l) p \<longleftrightarrow> ptree k m (Suc l) p" using e c by auto
  moreover have "leafpage m' (Suc l) p va = leafpage m (Suc l) p va"
    using e [of "idx (Suc l) va"] c [of "idx (Suc l) va"] by (simp add: Let_def)
  ultimately show ?case by blast
qed

lemma agree_leaf:
  assumes "agree m m' (nodes m l p)"
  shows "leaf m' l p va = leaf m l p va"
proof (cases "leafpage m l p va")
  case None
  then show ?thesis using agree_tree [OF assms, of 0 va] by (simp add: leaf_def)
next
  case (Some q)
  then have "ent m' q (idx 0 va) = ent m q (idx 0 va)"
    using agree_ent [OF assms leafpage_in_nodes [OF Some]] by simp
  with Some show ?thesis using agree_tree [OF assms, of 0 va] by (simp add: leaf_def)
qed

section \<open>Updating one subtree\<close>

lemma subtree_upd:
  assumes t: "ptree k m (Suc l) p" and i: "i < 512" "valid (ent m p i)"
    and c: "c = PTE2PA (ent m p i)"
    and ag: "agree m m' (nodes m (Suc l) p - nodes m l c)"
    and t': "ptree k m' l c" and n': "nodes m' l c = nodes m l c \<union> N"
    and N: "N \<inter> nodes m (Suc l) p = {}"
  shows "ptree k m' (Suc l) p \<and> nodes m' (Suc l) p = nodes m (Suc l) p \<union> N \<and>
    leafpage m' (Suc l) p va = (if idx (Suc l) va = i then leafpage m' l c va else leafpage m (Suc l) p va) \<and>
    leaf m' (Suc l) p va = (if idx (Suc l) va = i then leaf m' l c va else leaf m (Suc l) p va)"
proof -
  let ?c = "\<lambda>j. PTE2PA (ent m p j)"
  have pn: "p \<notin> nodes m l c" using t i c by auto
  have e: "ent m' p j = ent m p j" if "j < 512" for j
    using agree_ent [OF ag _ that] pn by simp
  have disj: "nodes m l (?c j) \<inter> nodes m l c = {}" if "j < 512" "j \<noteq> i" "valid (ent m p j)" for j
    using t i that unfolding c by auto
  have agj: "agree m m' (nodes m l (?c j))" if "j < 512" "j \<noteq> i" "valid (ent m p j)" for j
    by (rule agree_mono [OF ag]) (use disj [OF that] that child_nodes [of j m p l] in blast)
  have nj: "nodes m' l (?c j) = nodes m l (?c j)" "ptree k m' l (?c j)"
    if "j < 512" "j \<noteq> i" "valid (ent m p j)" for j
    using agree_tree [OF agj [OF that]] ptree_child [OF t that(1,3)] by blast+
  have sub: "nodes m l (?c j) \<subseteq> nodes m (Suc l) p" if "j < 512" "valid (ent m p j)" for j
    using that by auto
  have nall: "nodes m' l (?c j) = nodes m l (?c j) \<union> (if j = i then N else {})"
    if "j < 512" "valid (ent m p j)" for j
    using that nj(1) [of j] n' c by auto
  have nodes: "nodes m' (Suc l) p = nodes m (Suc l) p \<union> N"
    using i by (auto simp: e nall split: if_splits)
  have "ptree k m' (Suc l) p"
  proof (simp only: ptree.simps, intro conjI allI impI)
    show "legal k p" using t by simp
  next
    fix j assume j: "j < 512" "valid (ent m' p j)"
    then have j': "valid (ent m p j)" using e by simp
    show "PTE_FLAGS (ent m' p j) = PTE_V" using t j j' e by simp
    show "ptree k m' l (PTE2PA (ent m' p j))"
      using j j' e nj(2) [of j] t' c by (cases "j = i") auto
    have "p \<notin> nodes m l (?c j)" using t j j' by auto
    moreover have "p \<notin> N" using N by auto
    ultimately show "p \<notin> nodes m' l (PTE2PA (ent m' p j))"
      using j j' e nall [of j] by (simp split: if_splits)
  next
    fix j j' assume a: "j < 512" "j' < 512" "j \<noteq> j'" "valid (ent m' p j)" "valid (ent m' p j')"
    then have v: "valid (ent m p j)" "valid (ent m p j')" using e by auto
    have "nodes m l (?c j) \<inter> nodes m l (?c j') = {}" using t a(1-3) v by simp
    moreover have "N \<inter> nodes m l (?c j) = {}" "N \<inter> nodes m l (?c j') = {}"
      using N sub a(1,2) v by blast+
    ultimately show "nodes m' l (PTE2PA (ent m' p j)) \<inter> nodes m' l (PTE2PA (ent m' p j')) = {}"
      using a v by (auto simp: e nall split: if_splits)
  qed
  moreover have lp: "leafpage m' (Suc l) p va =
      (if idx (Suc l) va = i then leafpage m' l c va else leafpage m (Suc l) p va)"
    using i c e [of "idx (Suc l) va"] agree_tree [OF agj [of "idx (Suc l) va"], of k va]
    by (auto simp: Let_def)
  moreover have "leaf m' (Suc l) p va = (if idx (Suc l) va = i then leaf m' l c va else leaf m (Suc l) p va)"
    using i c e [of "idx (Suc l) va"] agree_leaf [OF agj [of "idx (Suc l) va"], of va]
    by (auto simp: leaf_Suc)
  ultimately show ?thesis using nodes by blast
qed

text \<open>A cleared page is a page table without entries.\<close>

lemma ent_zero: "(\<And>i. i < 4096 \<Longrightarrow> m (unat p + i) = 0) \<Longrightarrow> j < 512 \<Longrightarrow> ent m p j = 0"
proof -
  assume z: "\<And>i. i < 4096 \<Longrightarrow> m (unat p + i) = 0" and j: "j < 512"
  have "ent m p j = rd64 (\<lambda>_. 0) 0"
    unfolding ent_def by (rule rd64_cong) (use z j in \<open>simp add: add.assoc\<close>)
  then show ?thesis by (simp add: rd64_def rd32_def)
qed

lemma zero_tree:
  assumes "\<And>i. i < 4096 \<Longrightarrow> m (unat p + i) = 0" "legal k p"
  shows "ptree k m l p \<and> nodes m l p = {p} \<and> leaf m l p va = 0"
  using ent_zero [of m p] assms by (cases l) (auto simp: leaf_Suc)

text \<open>Hanging a cleared page below an empty entry of the root.\<close>

lemma PA2PTE_valid: "valid (PA2PTE pg OR PTE_V)" "PTE_FLAGS (PA2PTE pg OR PTE_V) = PTE_V"
proof -
  have "(PA2PTE pg OR PTE_V) AND PTE_V = PTE_V"
    by (rule bit_word_eqI) (auto simp: bit_simps PTE_V_def)
  then show "valid (PA2PTE pg OR PTE_V)" by (simp add: valid_def PTE_V_def)
  have x: "(0x3FF::uint64) = mask 10" by (simp add: mask_eq_exp_minus_1)
  show "PTE_FLAGS (PA2PTE pg OR PTE_V) = PTE_V"
    unfolding PTE_FLAGS_def x
    by (rule bit_word_eqI) (auto simp: bit_simps PTE_V_def PA2PTE_def)
qed

lemma page_bits: "unat (pg::uint64) mod 4096 = 0 \<Longrightarrow> bit pg n \<Longrightarrow> 12 \<le> n"
proof -
  assume a: "unat pg mod 4096 = 0" and b: "bit pg n"
  have "unat (take_bit 12 pg) = 0" using a
    by (simp only: unsigned_take_bit_eq) (simp add: take_bit_eq_mod)
  then have "take_bit 12 pg = 0" by (simp only: unat_eq_zero)
  then have "\<not> bit (take_bit 12 pg) n" by simp
  with b show ?thesis by (simp add: bit_take_bit_iff)
qed

lemma flag_bits: "f AND NOT (0x3FF::uint64) = 0 \<Longrightarrow> bit f n \<Longrightarrow> n < 10"
proof -
  assume a: "f AND NOT (0x3FF::uint64) = 0" and b: "bit f n"
  have x: "(0x3FF::uint64) = mask 10" by (simp add: mask_eq_exp_minus_1)
  from a have "\<not> bit (f AND NOT (mask 10)) n" unfolding x by simp
  with b show ?thesis by (auto simp: bit_simps dest: bit_imp_le_length)
qed

lemma PTE2PA_PA2PTE:
  assumes "unat pg mod 4096 = 0" "f AND NOT 0x3FF = 0"
  shows "PTE2PA (PA2PTE pg OR f) = pg"
proof (rule bit_word_eqI)
  fix n assume n: "n < LENGTH(64)"
  show "bit (PTE2PA (PA2PTE pg OR f)) n = bit pg n"
    using n page_bits [OF assms(1), of n] flag_bits [OF assms(2), of "n - 2"]
    by (auto simp: PTE2PA_def PA2PTE_def bit_simps)
qed

text \<open>Writing one entry: the other entries of the page and every other page keep their value.\<close>

lemma ent_wr64:
  assumes "legal k p" "legal k q" "i < 512" "j < 512"
  shows "ent (wr64 m (unat p + 8 * i) v) q j = (if q = p \<and> j = i then v else ent m q j)"
proof (cases "q = p")
  case True
  show ?thesis
  proof (cases "j = i")
    case False
    then have "unat p + 8 * i + 8 \<le> unat p + 8 * j \<or> unat p + 8 * j + 8 \<le> unat p + 8 * i" by linarith
    then show ?thesis using True False by (simp add: ent_def rd64_wr64_other)
  qed (simp add: True ent_def)
next
  case False
  have "rd64 (wr64 m (unat p + 8 * i) v) (unat q + 8 * j) = rd64 m (unat q + 8 * j)"
    by (rule rd64_wr64_other) (use legal_gap [OF assms(1,2)] False assms(3,4) in auto)
  with False show ?thesis by (simp add: ent_def)
qed

lemma agree_wr64:
  assumes "legal k p" "i < 512" "\<And>q. q \<in> S \<Longrightarrow> legal k q \<and> q \<noteq> p"
  shows "agree m (wr64 m (unat p + 8 * i) v) S"
  unfolding agree_def
proof (intro ballI allI impI)
  fix q j assume "q \<in> S" "j < (4096::nat)"
  then show "wr64 m (unat p + 8 * i) v (unat q + j) = m (unat q + j)"
    using legal_gap [OF assms(1), of q] assms(2,3) by (intro wr64_frame) fastforce
qed

lemma agree_fill:
  assumes "legal k p" "\<And>q. q \<in> S \<Longrightarrow> legal k q \<and> q \<noteq> p"
  shows "agree m (fill m (unat p) 4096 c) S"
  unfolding agree_def
proof (intro ballI allI impI)
  fix q j assume "q \<in> S" "j < (4096::nat)"
  then show "fill m (unat p) 4096 c (unat q + j) = m (unat q + j)"
    using legal_gap [OF assms(1), of q] assms(2) by (intro fill_outside) fastforce
qed

lemma agree_trans: "agree m1 m2 S \<Longrightarrow> agree m2 m3 S \<Longrightarrow> agree m1 m3 S"
  by (simp add: agree_def)

lemma attach:
  fixes m pg p i
  defines "m' \<equiv> wr64 (fill m (unat pg) 4096 0) (unat p + 8 * i) (PA2PTE pg OR PTE_V)"
  assumes t: "ptree k m (Suc l) p" and i: "i < 512" "\<not> valid (ent m p i)"
    and pg: "legal k pg" "pg \<notin> nodes m (Suc l) p"
  shows "ptree k m' (Suc l) p \<and> nodes m' (Suc l) p = insert pg (nodes m (Suc l) p) \<and>
    leaf m' (Suc l) p va = leaf m (Suc l) p va \<and> ent m' p i = PA2PTE pg OR PTE_V \<and> PTE2PA (ent m' p i) = pg"
proof -
  let ?c = "\<lambda>j. PTE2PA (ent m p j)"
  have lp: "legal k p" using t by simp
  have ne: "p \<noteq> pg" using pg(2) by auto
  have f: "agree m (fill m (unat pg) 4096 0) (nodes m (Suc l) p)"
    by (rule agree_fill [OF pg(1)]) (use ptree_legal [OF t] pg(2) in auto)
  have e: "ent m' p j = (if j = i then PA2PTE pg OR PTE_V else ent m p j)" if "j < 512" for j
    using that ent_wr64 [OF lp lp i(1) that] agree_ent [OF f _ that] unfolding m'_def by simp
  have ei: "PTE2PA (PA2PTE pg OR PTE_V) = pg"
    by (rule PTE2PA_PA2PTE) (use pg(1) in \<open>simp_all add: legal_def PTE_V_def\<close>)
  have z: "m' (unat pg + j) = 0" if "j < 4096" for j
  proof -
    have "agree (fill m (unat pg) 4096 0) m' {pg}"
      unfolding m'_def by (rule agree_wr64 [OF lp i(1)]) (use ne pg in auto)
    then show ?thesis using that by (simp add: agree_def fill_inside)
  qed
  have zt: "ptree k m' l pg \<and> nodes m' l pg = {pg} \<and> leaf m' l pg va = 0"
    by (rule zero_tree) (use z pg(1) in auto)
  have cp: "p \<notin> nodes m l (?c j)" "nodes m l (?c j) \<subseteq> nodes m (Suc l) p" "ptree k m l (?c j)"
    if "j < 512" "valid (ent m p j)" for j
    using t that by auto
  have agj: "agree m m' (nodes m l (?c j))" if "j < 512" "valid (ent m p j)" for j
    unfolding m'_def
  proof (rule agree_trans [OF agree_mono [OF f cp(2) [OF that]] agree_wr64 [OF lp i(1)]])
    fix q assume "q \<in> nodes m l (?c j)"
    then show "legal k q \<and> q \<noteq> p"
      using cp [OF that] ptree_legal [OF t] by blast
  qed
  have nj: "nodes m' l (?c j) = nodes m l (?c j)" "ptree k m' l (?c j)" if "j < 512" "valid (ent m p j)" for j
    using agree_tree [OF agj [OF that]] cp(3) [OF that] by blast+
  have pgj: "pg \<notin> nodes m l (?c j)" if "j < 512" "valid (ent m p j)" for j
    using cp(2) [OF that] pg(2) by blast
  have "nodes m' (Suc l) p = insert pg (nodes m (Suc l) p)"
    using i zt by (auto simp: e ei nj PA2PTE_valid split: if_splits)
  moreover have "ptree k m' (Suc l) p"
  proof (simp only: ptree.simps, intro conjI allI impI)
    show "legal k p" by (rule lp)
  next
    fix j assume "j < 512" "valid (ent m' p j)"
    then show "PTE_FLAGS (ent m' p j) = PTE_V" "ptree k m' l (PTE2PA (ent m' p j))"
      "p \<notin> nodes m' l (PTE2PA (ent m' p j))"
      using t zt ne nj [of j] cp(1) [of j] by (auto simp: e ei PA2PTE_valid split: if_splits)
  next
    fix j j' assume a: "j < 512" "j' < 512" "j \<noteq> j'" "valid (ent m' p j)" "valid (ent m' p j')"
    have "nodes m l (?c j) \<inter> nodes m l (?c j') = {}" if "j \<noteq> i" "j' \<noteq> i"
      using t a that by (simp add: e)
    with a zt show "nodes m' l (PTE2PA (ent m' p j)) \<inter> nodes m' l (PTE2PA (ent m' p j')) = {}"
      using nj(1) [of j] nj(1) [of j'] pgj [of j] pgj [of j'] by (auto simp: e ei split: if_splits)
  qed
  moreover have "leaf m' (Suc l) p va = leaf m (Suc l) p va"
    using i(2) zt agree_leaf [OF agj [of "idx (Suc l) va"], of va]
    by (auto simp: leaf_Suc e ei PA2PTE_valid)
  ultimately show ?thesis using e [OF i(1)] ei by simp
qed

declare nodes.simps(2) [simp del] ptree.simps(2) [simp del]

section \<open>The walk\<close>

lemma pte_addr:
  assumes "legal k p"
  shows "rd64 m (unat (p + 8 * PX l va)) = ent m p (idx l va)"
  by (simp add: slot_addr [OF assms] ent_def)

lemma walk_noalloc:
  "ptree k (mem s) l p \<Longrightarrow> walk_loop l p va False s =
     (case leafpage (mem s) l p va of None \<Rightarrow> 0 | Some q \<Rightarrow> q + 8 * PX 0 va, s)"
proof (induction l arbitrary: p)
  case 0
  show ?case by simp
next
  case (Suc l)
  have e: "rd64 (mem s) (unat (p + 8 * PX (Suc l) va)) = ent (mem s) p (idx (Suc l) va)"
    by (rule pte_addr [OF legal_root [OF Suc.prems]])
  show ?case
  proof (cases "valid (ent (mem s) p (idx (Suc l) va))")
    case True
    then show ?thesis using Suc.IH [OF ptree_child [OF Suc.prems _ True]] by (simp add: e Let_def valid_def)
  next
    case False
    then show ?thesis by (simp add: e Let_def valid_def)
  qed
qed

text \<open>Nothing but memory and the free list changed.\<close>

definition memonly :: "'a kmem_scheme \<Rightarrow> 'a kmem_scheme \<Rightarrow> bool" where
  "memonly s s' \<longleftrightarrow> (\<exists>m f. s' = s\<lparr>mem := m, freelist := f\<rparr>)"

lemma memonly_refl [simp]: "memonly s s"
  unfolding memonly_def by (rule exI [of _ "mem s"], rule exI [of _ "freelist s"]) simp

lemma memonly_trans [trans]:
  assumes "memonly s s1" "memonly s1 s2"
  shows "memonly s s2"
proof -
  obtain m f m' f' where "s1 = s\<lparr>mem := m, freelist := f\<rparr>" "s2 = s1\<lparr>mem := m', freelist := f'\<rparr>"
    using assms unfolding memonly_def by blast
  then have "s2 = s\<lparr>mem := m', freelist := f'\<rparr>" by simp
  then show ?thesis unfolding memonly_def by blast
qed

lemma memonly_upd [simp]: "memonly s (s\<lparr>mem := m\<rparr>)" "memonly s (s\<lparr>freelist := f\<rparr>)"
  unfolding memonly_def
  by (rule exI [of _ m], rule exI [of _ "freelist s"], simp)
    (rule exI [of _ "mem s"], rule exI [of _ f], simp)

lemma memonly_kend: "memonly s s' \<Longrightarrow> kend s' = kend s"
  by (auto simp: memonly_def)

text \<open>
  What the allocating walk guarantees: it takes pages from the front of the free list, adds
  them to the tree, changes no translation and no page outside the tree, and fails only when
  the list is used up.
\<close>

definition walk_post ::
  "nat \<Rightarrow> uint64 \<Rightarrow> uint64 \<Rightarrow> uint64 list \<Rightarrow> 'a kmem_scheme \<Rightarrow> uint64 \<Rightarrow> 'a kmem_scheme \<Rightarrow> uint64 list \<Rightarrow> uint64 list \<Rightarrow> bool" where
  "walk_post l p va xs s a s' ys zs \<longleftrightarrow>
     xs = ys @ zs \<and> freepages s' zs \<and> memonly s s' \<and>
     ptree (kend s) (mem s') l p \<and> nodes (mem s') l p = nodes (mem s) l p \<union> set ys \<and>
     (\<forall>va'. leaf (mem s') l p va' = leaf (mem s) l p va') \<and>
     agree (mem s) (mem s') {q. legal (kend s) q \<and> q \<notin> nodes (mem s) l p \<and> q \<notin> set ys} \<and>
     (if a = 0 then zs = [] else \<exists>q. leafpage (mem s') l p va = Some q \<and> a = q + 8 * PX 0 va)"

lemma walk_post_child:
  assumes t: "ptree (kend s) (mem s) (Suc l) p" and v: "valid (ent (mem s) p (idx (Suc l) va))"
    and c: "c = PTE2PA (ent (mem s) p (idx (Suc l) va))"
    and d: "set xs \<inter> nodes (mem s) (Suc l) p = {}"
    and w: "walk_post l c va xs s a s' ys zs"
  shows "walk_post (Suc l) p va xs s a s' ys zs"
proof -
  have sub: "nodes (mem s) l c \<subseteq> nodes (mem s) (Suc l) p" unfolding c by (rule child_nodes [OF idx_less v])
  have ys: "set ys \<inter> nodes (mem s) (Suc l) p = {}" using w d by (auto simp: walk_post_def)
  have ag: "agree (mem s) (mem s') (nodes (mem s) (Suc l) p - nodes (mem s) l c)"
    by (rule agree_mono [where T = "{q. legal (kend s) q \<and> q \<notin> nodes (mem s) l c \<and> q \<notin> set ys}"])
      (use w ys ptree_legal [OF t] in \<open>auto simp: walk_post_def\<close>)
  note u = subtree_upd [OF t idx_less v c ag, of "set ys"]
  have u': "ptree (kend s) (mem s') (Suc l) p \<and> nodes (mem s') (Suc l) p = nodes (mem s) (Suc l) p \<union> set ys \<and>
      leafpage (mem s') (Suc l) p va' =
        (if idx (Suc l) va' = idx (Suc l) va then leafpage (mem s') l c va' else leafpage (mem s) (Suc l) p va') \<and>
      leaf (mem s') (Suc l) p va' =
        (if idx (Suc l) va' = idx (Suc l) va then leaf (mem s') l c va' else leaf (mem s) (Suc l) p va')" for va'
    by (rule u) (use w ys in \<open>auto simp: walk_post_def\<close>)
  have lf: "leaf (mem s') (Suc l) p va' = leaf (mem s) (Suc l) p va'" for va'
    using u' [of va'] w v c by (auto simp: walk_post_def leaf_Suc)
  have ag2: "agree (mem s) (mem s') {q. legal (kend s) q \<and> q \<notin> nodes (mem s) (Suc l) p \<and> q \<notin> set ys}"
    by (rule agree_mono [where T = "{q. legal (kend s) q \<and> q \<notin> nodes (mem s) l c \<and> q \<notin> set ys}"])
      (use w sub in \<open>auto simp: walk_post_def\<close>)
  show ?thesis unfolding walk_post_def
    using w u' lf ag2 by (simp only: walk_post_def if_True simp_thms) (metis (no_types))
qed

text \<open>One page taken and attached.\<close>

lemma attach_state:
  fixes s x p i v
  defines "s2 \<equiv> s\<lparr>freelist := rd64 (mem s) (unat x), mem := wr64 (fill (mem s) (unat x) 4096 0) (unat p + 8 * i) v\<rparr>"
  assumes fp: "freepages s (x # xs)" and p: "legal (kend s) p" "p \<notin> set (x # xs)" and i: "i < 512"
  shows "freepages s2 xs" "agree (mem s) (mem s2) {q. legal (kend s) q \<and> q \<noteq> p \<and> q \<noteq> x}"
proof -
  have k: "0 < kend s" and x: "legal (kend s) x" "x \<notin> set xs" and lx: "\<And>y. y \<in> set xs \<Longrightarrow> legal (kend s) y"
    using fp by (auto simp: freepages_def page_ok_legal)
  have f: "agree (mem s) (fill (mem s) (unat x) 4096 0) {q. legal (kend s) q \<and> q \<noteq> p \<and> q \<noteq> x}"
    by (rule agree_fill [OF x(1)]) auto
  have w: "agree (fill (mem s) (unat x) 4096 0) (mem s2) {q. legal (kend s) q \<and> q \<noteq> p \<and> q \<noteq> x}"
    unfolding s2_def by (simp, rule agree_wr64 [OF p(1) i]) auto
  show ag: "agree (mem s) (mem s2) {q. legal (kend s) q \<and> q \<noteq> p \<and> q \<noteq> x}"
    by (rule agree_trans [OF f w])
  have "freepages (s\<lparr>freelist := rd64 (mem s) (unat x)\<rparr>\<lparr>mem := mem s2\<rparr>) xs"
  proof (rule freepages_mem_frame [OF kalloc_Cons(2) [OF fp]])
    fix y and j :: nat assume y: "y \<in> set xs" and j: "j < 8"
    then have "legal (kend s) y \<and> y \<noteq> p \<and> y \<noteq> x" using lx x(2) p(2) by auto
    then show "mem s2 (unat y + j) = mem (s\<lparr>freelist := rd64 (mem s) (unat x)\<rparr>) (unat y + j)"
      using ag j by (simp add: agree_def)
  qed
  then show "freepages s2 xs" unfolding s2_def by simp
qed

lemma walk_post_attach:
  fixes s x p l va
  defines "s2 \<equiv> s\<lparr>freelist := rd64 (mem s) (unat x),
      mem := wr64 (fill (mem s) (unat x) 4096 0) (unat p + 8 * idx (Suc l) va) (PA2PTE x OR PTE_V)\<rparr>"
  assumes t: "ptree (kend s) (mem s) (Suc l) p" and inv: "\<not> valid (ent (mem s) p (idx (Suc l) va))"
    and fp: "freepages s (x # xs)" and d: "set (x # xs) \<inter> nodes (mem s) (Suc l) p = {}"
    and w: "walk_post (Suc l) p va xs s2 a s' ys zs"
  shows "walk_post (Suc l) p va (x # xs) s a s' (x # ys) zs"
proof -
  have x: "legal (kend s) x" "x \<notin> nodes (mem s) (Suc l) p" using fp d by (auto simp: freepages_def page_ok_legal)
  have at: "ptree (kend s) (mem s2) (Suc l) p \<and> nodes (mem s2) (Suc l) p = insert x (nodes (mem s) (Suc l) p) \<and>
      leaf (mem s2) (Suc l) p va' = leaf (mem s) (Suc l) p va'" for va'
    using attach [OF t idx_less inv x, of va'] unfolding s2_def by simp
  have ag: "agree (mem s) (mem s2) {q. legal (kend s) q \<and> q \<noteq> p \<and> q \<noteq> x}"
    unfolding s2_def by (rule attach_state(2) [OF fp]) (use d legal_root [OF t] in auto)
  have k: "kend s2 = kend s" by (simp add: s2_def)
  have "agree (mem s) (mem s') {q. legal (kend s) q \<and> q \<notin> nodes (mem s) (Suc l) p \<and> q \<notin> set (x # ys)}"
    by (rule agree_trans [OF agree_mono [OF ag] agree_mono
          [where T = "{q. legal (kend s) q \<and> q \<notin> nodes (mem s2) (Suc l) p \<and> q \<notin> set ys}"]])
      (use w at k in \<open>auto simp: walk_post_def\<close>)
  moreover have "memonly s s2" unfolding s2_def by (rule memonly_trans [OF memonly_upd(2) memonly_upd(1)])
  moreover have "memonly s2 s'" using w by (simp add: walk_post_def)
  ultimately show ?thesis using w at k memonly_trans [of s s2 s'] unfolding walk_post_def
    by (simp del: leafpage.simps)
qed

lemma walk_alloc:
  assumes "ptree (kend s) (mem s) l p" "freepages s xs" "set xs \<inter> nodes (mem s) l p = {}"
    "walk_loop l p va True s = (a, s')"
  shows "\<exists>ys zs. walk_post l p va xs s a s' ys zs \<and> length ys \<le> l"
  using assms
proof (induction l arbitrary: p s xs)
  case 0
  have "p + 8 * PX 0 va \<noteq> 0" using slot_addr [OF legal_root [OF 0(1)]] by blast
  then have "walk_post 0 p va xs s a s' [] xs" using 0 by (auto simp: walk_post_def agree_def)
  then show ?case by (metis le_refl list.size(3))
next
  case (Suc l)
  have valid_case: "\<exists>ys zs. walk_post (Suc l) p va xs s a s' ys zs \<and> length ys \<le> l"
    if t: "ptree (kend s) (mem s) (Suc l) p" and v: "valid (ent (mem s) p (idx (Suc l) va))"
      and fp: "freepages s xs" and d: "set xs \<inter> nodes (mem s) (Suc l) p = {}"
      and w: "walk_loop (Suc l) p va True s = (a, s')" for s :: "'a kmem_scheme" and xs
  proof -
    define c where "c = PTE2PA (ent (mem s) p (idx (Suc l) va))"
    have "nodes (mem s) l c \<subseteq> nodes (mem s) (Suc l) p" unfolding c_def by (rule child_nodes [OF idx_less v])
    then have d': "set xs \<inter> nodes (mem s) l c = {}" using d by blast
    have "walk_loop l c va True s = (a, s')"
      using w v by (simp add: pte_addr [OF legal_root [OF t]] valid_def Let_def c_def)
    from Suc.IH [OF _ fp d' this] ptree_child [OF t idx_less v]
    obtain ys zs where w': "walk_post l c va xs s a s' ys zs" "length ys \<le> l" unfolding c_def by blast
    from walk_post_child [OF t v c_def d w'(1)] w'(2) show ?thesis by blast
  qed
  show ?case
  proof (cases "valid (ent (mem s) p (idx (Suc l) va))")
    case True
    then show ?thesis using valid_case Suc.prems le_SucI by blast
  next
    case False
    note t = Suc.prems(1) and lp = legal_root [OF Suc.prems(1)]
    show ?thesis
    proof (cases xs)
      case Nil
      then have "a = 0" "s' = s" using Suc.prems(2,4) False
        by (simp_all add: kalloc_Nil pte_addr [OF lp] valid_def Let_def)
      then have "walk_post (Suc l) p va xs s a s' [] []"
        using Nil Suc.prems(1,2) by (simp add: walk_post_def agree_def)
      then show ?thesis by (metis list.size(3) le0)
    next
      case (Cons x xs')
      define s2 where "s2 = s\<lparr>freelist := rd64 (mem s) (unat x),
        mem := wr64 (fill (mem s) (unat x) 4096 0) (unat p + 8 * idx (Suc l) va) (PA2PTE x OR PTE_V)\<rparr>"
      note fp = Suc.prems(2) [unfolded Cons] and d = Suc.prems(3) [unfolded Cons]
      have x: "legal (kend s) x" "x \<notin> nodes (mem s) (Suc l) p" "x \<notin> set xs'" "x \<noteq> 0"
        using fp d legal_bound [of "kend s" x] by (auto simp: freepages_def page_ok_legal)
      have at: "ptree (kend s) (mem s2) (Suc l) p" "nodes (mem s2) (Suc l) p = insert x (nodes (mem s) (Suc l) p)"
        "valid (ent (mem s2) p (idx (Suc l) va))" "PTE2PA (ent (mem s2) p (idx (Suc l) va)) = x"
        using attach [OF t idx_less False x(1,2), of 0] PA2PTE_valid(1) [of x] unfolding s2_def by auto
      have "freepages s2 xs'" unfolding s2_def
        by (rule attach_state(1) [OF fp lp]) (use d in auto)
      moreover have "walk_loop (Suc l) p va True s2 = (a, s')"
      proof -
        have "walk_loop (Suc l) p va True s = walk_loop l x va True s2"
          using False x(4) kalloc_Cons(1) [OF fp]
          by (simp add: slot_addr [OF lp] ent_def valid_def Let_def memset_eq PGSIZE_def s2_def)
        moreover have "walk_loop (Suc l) p va True s2 = walk_loop l x va True s2"
          using at(3,4) by (simp add: pte_addr [OF lp] valid_def Let_def)
        ultimately show ?thesis using Suc.prems(4) by simp
      qed
      moreover have "set xs' \<inter> nodes (mem s2) (Suc l) p = {}" using at(2) d x(3) by auto
      moreover have "kend s2 = kend s" by (simp add: s2_def)
      ultimately obtain ys zs where w': "walk_post (Suc l) p va xs' s2 a s' ys zs" "length ys \<le> l"
        using valid_case [of s2 xs'] at by auto
      from walk_post_attach [OF t False fp d w'(1) [unfolded s2_def]]
      have "walk_post (Suc l) p va xs s a s' (x # ys) zs" using Cons by simp
      moreover have "length (x # ys) \<le> Suc l" using w'(2) by simp
      ultimately show ?thesis by blast
    qed
  qed
qed

section \<open>Writing a leaf\<close>

lemma leaf_write:
  fixes m q va w
  defines "m' \<equiv> wr64 m (unat q + 8 * idx 0 va) w"
  assumes "ptree k m l p" "leafpage m l p va = Some q"
  shows "ptree k m' l p \<and> nodes m' l p = nodes m l p \<and>
    leaf m' l p va' = (if \<forall>j\<le>l. idx j va' = idx j va then w else leaf m l p va') \<and>
    leafpage m' l p va' = leafpage m l p va'"
  using assms(2,3)
proof (induction l arbitrary: p)
  case 0
  then have q: "q = p" "legal k p" by auto
  then show ?case using ent_wr64 [OF q(2) q(2) idx_less idx_less, of m 0 va w 0 va']
    by (auto simp: m'_def)
next
  case (Suc l)
  define c where "c = PTE2PA (ent m p (idx (Suc l) va))"
  have v: "valid (ent m p (idx (Suc l) va))" and lp: "leafpage m l c va = Some q"
    using Suc.prems(2) by (auto simp: Let_def c_def split: if_splits)
  have tc: "ptree k m l c" unfolding c_def
    using Suc.prems(1) v by (simp add: ptree.simps(2))
  have IH: "ptree k m' l c \<and> nodes m' l c = nodes m l c \<and>
    leaf m' l c va' = (if \<forall>j\<le>l. idx j va' = idx j va then w else leaf m l c va') \<and>
    leafpage m' l c va' = leafpage m l c va'"
    by (rule Suc.IH [OF tc lp])
  have qn: "q \<in> nodes m l c" by (rule leafpage_in_nodes [OF lp])
  have "agree m m' (nodes m (Suc l) p - nodes m l c)"
    unfolding m'_def
    by (rule agree_wr64 [OF ptree_legal [OF tc qn] idx_less]) (use ptree_legal [OF Suc.prems(1)] qn in auto)
  note u = subtree_upd [OF Suc.prems(1) idx_less v c_def this, of "{}" va']
  have "ptree k m' (Suc l) p \<and> nodes m' (Suc l) p = nodes m (Suc l) p \<and>
    leafpage m' (Suc l) p va' = (if idx (Suc l) va' = idx (Suc l) va then leafpage m' l c va' else leafpage m (Suc l) p va') \<and>
    leaf m' (Suc l) p va' = (if idx (Suc l) va' = idx (Suc l) va then leaf m' l c va' else leaf m (Suc l) p va')"
    using u IH by simp
  moreover have "leaf m (Suc l) p va' = leaf m l c va'" if "idx (Suc l) va' = idx (Suc l) va"
    using that v by (simp add: leaf_Suc c_def)
  moreover have "leafpage m (Suc l) p va' = leafpage m l c va'" if "idx (Suc l) va' = idx (Suc l) va"
    using that v by (simp add: Let_def c_def)
  ultimately show ?case using IH by (auto simp: le_Suc_eq)
qed

text \<open>The three indices determine the page number of a virtual address.\<close>

definition vpn :: "uint64 \<Rightarrow> nat" where
  "vpn va = unat va div 4096"

lemma idx_eq: "idx l va = unat va div 2 ^ (12 + 9 * l) mod 512"
proof -
  have x: "(0x1FF::uint64) = mask 9" by (simp add: mask_eq_exp_minus_1)
  have u: "unat va < 2 ^ 64" using unsigned_less [of va] by simp
  have "idx l va = unat (take_bit 9 (drop_bit (12 + 9 * l) va))"
    by (simp only: idx_def PX_def x take_bit_eq_mask)
  also have "\<dots> = take_bit 9 (drop_bit (12 + 9 * l) (unat va))"
    using take_bit_nat_eq_self [of "unat va" 64] u
    by (simp only: unsigned_take_bit_eq unsigned_drop_bit_eq) simp
  also have "\<dots> = unat va div 2 ^ (12 + 9 * l) mod 512"
    by (simp only: take_bit_eq_mod drop_bit_eq_div) simp
  finally show ?thesis .
qed

lemma idx_vpn: "idx l va = vpn va div 512 ^ l mod 512"
proof -
  have "(2::nat) ^ (12 + 9 * l) = 4096 * 512 ^ l" by (simp add: power_add power_mult)
  then show ?thesis by (simp add: idx_eq vpn_def div_mult2_eq)
qed

lemma vpn_bound: "va < MAXVA \<Longrightarrow> vpn va < 2 ^ 26"
  by (simp add: vpn_def word_less_nat_alt unat_MAXVA less_mult_imp_div_less)

lemma same_vpn:
  assumes "va < MAXVA" "va' < MAXVA"
  shows "(\<forall>j\<le>2. idx j va' = idx j va) \<longleftrightarrow> vpn va' = vpn va"
proof
  assume a: "\<forall>j\<le>2. idx j va' = idx j va"
  have d: "x = x mod 512 + 512 * (x div 512 mod 512) + 512 * 512 * (x div 512 div 512 mod 512)"
    if "x < 2 ^ 26" for x :: nat
  proof -
    have "x div 512 div 512 < 512" using that by (simp add: less_mult_imp_div_less)
    then have "x div 512 div 512 mod 512 = x div 512 div 512" by simp
    then show ?thesis
      using mult_div_mod_eq [of 512 x] mult_div_mod_eq [of 512 "x div 512"] by linarith
  qed
  have "idx 0 va' = idx 0 va" "idx 1 va' = idx 1 va" "idx 2 va' = idx 2 va" using a by auto
  then have "vpn va' mod 512 = vpn va mod 512" "vpn va' div 512 mod 512 = vpn va div 512 mod 512"
    "vpn va' div 512 div 512 mod 512 = vpn va div 512 div 512 mod 512"
    by (simp_all add: idx_vpn power2_eq_square div_mult2_eq [symmetric])
  with d [OF vpn_bound [OF assms(1)]] d [OF vpn_bound [OF assms(2)]] show "vpn va' = vpn va" by simp
qed (simp add: idx_vpn)

section \<open>mappages\<close>

text \<open>
  \<open>tree_ext pt xs s s' ys zs\<close>: the step from \<open>s\<close> to \<open>s'\<close> grew the tree of \<open>pt\<close> by the pages
  \<open>ys\<close> from the front of the free list, leaving \<open>zs\<close> free, and changed no page outside the tree.
\<close>

definition tree_ext ::
  "uint64 \<Rightarrow> uint64 list \<Rightarrow> 'a kmem_scheme \<Rightarrow> 'a kmem_scheme \<Rightarrow> uint64 list \<Rightarrow> uint64 list \<Rightarrow> bool" where
  "tree_ext pt xs s s' ys zs \<longleftrightarrow>
     xs = ys @ zs \<and> freepages s' zs \<and> memonly s s' \<and>
     ptree (kend s) (mem s') 2 pt \<and> nodes (mem s') 2 pt = nodes (mem s) 2 pt \<union> set ys \<and>
     agree (mem s) (mem s') {q. legal (kend s) q \<and> q \<notin> nodes (mem s) 2 pt \<and> q \<notin> set ys}"

lemma walk_post_ext: "walk_post 2 pt va xs s a s' ys zs \<Longrightarrow> tree_ext pt xs s s' ys zs"
  by (auto simp: walk_post_def tree_ext_def)

lemma tree_ext_kend: "tree_ext pt xs s s' ys zs \<Longrightarrow> kend s' = kend s"
  by (simp add: tree_ext_def memonly_kend)

lemma tree_ext_disj:
  assumes "tree_ext pt xs s s' ys zs" "set xs \<inter> nodes (mem s) 2 pt = {}" "distinct xs"
  shows "set zs \<inter> nodes (mem s') 2 pt = {}"
  using assms by (auto simp: tree_ext_def)

lemma tree_ext_trans:
  assumes "tree_ext pt xs s s1 ys zs" "tree_ext pt zs s1 s2 ys' zs'"
  shows "tree_ext pt xs s s2 (ys @ ys') zs'"
proof -
  have k: "kend s1 = kend s" by (rule tree_ext_kend [OF assms(1)])
  have "agree (mem s) (mem s2) {q. legal (kend s) q \<and> q \<notin> nodes (mem s) 2 pt \<and> q \<notin> set (ys @ ys')}"
    by (rule agree_trans [OF agree_mono agree_mono])
      (use assms k in \<open>auto simp: tree_ext_def\<close>)
  moreover have "memonly s s2"
    by (rule memonly_trans [of s s1]) (use assms in \<open>auto simp: tree_ext_def\<close>)
  ultimately show ?thesis using assms k unfolding tree_ext_def by (simp add: Un_assoc)
qed

lemma tree_ext_write:
  assumes e: "tree_ext pt xs s s1 ys zs" and d: "set zs \<inter> nodes (mem s1) 2 pt = {}"
    and q: "leafpage (mem s1) 2 pt va = Some q"
  shows "tree_ext pt xs s (s1\<lparr>mem := wr64 (mem s1) (unat q + 8 * idx 0 va) w\<rparr>) ys zs"
    (is "tree_ext pt xs s ?s ys zs")
proof -
  have k: "kend s1 = kend s" by (rule tree_ext_kend [OF e])
  have t: "ptree (kend s) (mem s1) 2 pt" using e by (simp add: tree_ext_def)
  have qn: "q \<in> nodes (mem s1) 2 pt" by (rule leafpage_in_nodes [OF q])
  have lq: "legal (kend s) q" by (rule ptree_legal [OF t qn])
  have ag: "agree (mem s1) (mem ?s) {r. legal (kend s) r \<and> r \<noteq> q}"
    by (simp, rule agree_wr64 [OF lq idx_less]) auto
  have "freepages ?s zs"
  proof (rule freepages_mem_frame)
    show fp: "freepages s1 zs" using e by (simp add: tree_ext_def)
    fix x and i :: nat assume x: "x \<in> set zs" "i < 8"
    then have "legal (kend s) x \<and> x \<noteq> q"
      using fp d qn k page_ok_legal [of s1 x] by (auto simp: freepages_def)
    then show "wr64 (mem s1) (unat q + 8 * idx 0 va) w (unat x + i) = mem s1 (unat x + i)"
      using ag x by (simp add: agree_def)
  qed
  moreover have "agree (mem s) (mem ?s) {q. legal (kend s) q \<and> q \<notin> nodes (mem s) 2 pt \<and> q \<notin> set ys}"
    by (rule agree_trans [OF _ agree_mono [OF ag]]) (use e qn in \<open>auto simp: tree_ext_def\<close>)
  moreover have "memonly s ?s"
    by (rule memonly_trans [OF _ memonly_upd(1)]) (use e in \<open>simp add: tree_ext_def\<close>)
  ultimately show ?thesis
    using e leaf_write [OF t q, of w va] unfolding tree_ext_def by simp
qed

text \<open>The number \<open>d\<close> of pages a call of \<open>mappages\<close> mapped before it stopped, and their entries.\<close>

definition mapped_from ::
  "uint64 \<Rightarrow> uint64 \<Rightarrow> uint64 \<Rightarrow> uint64 \<Rightarrow> bytes \<Rightarrow> bytes \<Rightarrow> nat \<Rightarrow> bool" where
  "mapped_from pt a pa perm m m' d \<longleftrightarrow> (\<forall>va<MAXVA. leaf m' 2 pt va =
     (if vpn a \<le> vpn va \<and> vpn va < vpn a + d
      then PA2PTE (pa + of_nat (4096 * (vpn va - vpn a))) OR perm OR PTE_V else leaf m 2 pt va))"

lemma map_one:
  assumes t: "ptree (kend s) (mem s) 2 pt" and fp: "freepages s xs"
    and d: "set xs \<inter> nodes (mem s) 2 pt = {}" and va: "va < MAXVA"
    and nv: "\<not> valid (leaf (mem s) 2 pt va)"
  obtains (fail) s1 where "walk pt va True s = Ok (0, s1)" "tree_ext pt xs s s1 xs []"
      "\<And>va'. leaf (mem s1) 2 pt va' = leaf (mem s) 2 pt va'" "length xs \<le> 2"
  | (ok) pte s1 ys zs where "walk pt va True s = Ok (pte, s1)" "pte \<noteq> 0"
      "rd64 (mem s1) (unat pte) AND PTE_V = 0"
      "\<And>w. tree_ext pt xs s (s1\<lparr>mem := wr64 (mem s1) (unat pte) w\<rparr>) ys zs"
      "\<And>w va'. va' < MAXVA \<Longrightarrow> leaf (wr64 (mem s1) (unat pte) w) 2 pt va' =
         (if vpn va' = vpn va then w else leaf (mem s) 2 pt va')" "length ys \<le> 2"
proof -
  obtain pte s1 where w: "walk_loop 2 pt va True s = (pte, s1)" by fastforce
  obtain ys zs where p: "walk_post 2 pt va xs s pte s1 ys zs" and len: "length ys \<le> 2"
    using walk_alloc [OF t fp d w] by blast
  have wk: "walk pt va True s = Ok (pte, s1)" using va w by (simp add: walk_def)
  note e = walk_post_ext [OF p]
  have d1: "set zs \<inter> nodes (mem s1) 2 pt = {}"
    by (rule tree_ext_disj [OF e d]) (use fp in \<open>simp add: freepages_def\<close>)
  show ?thesis
  proof (cases "pte = 0")
    case True
    then have "zs = []" "xs = ys" using p by (auto simp: walk_post_def)
    with True wk e p len show ?thesis by (intro fail [of s1]) (simp_all add: walk_post_def)
  next
    case False
    then obtain q where q: "leafpage (mem s1) 2 pt va = Some q" "pte = q + 8 * PX 0 va"
      using p by (auto simp: walk_post_def)
    have t1: "ptree (kend s) (mem s1) 2 pt" using e by (simp add: tree_ext_def)
    have u: "unat pte = unat q + 8 * idx 0 va"
      using slot_addr(1) [OF ptree_legal [OF t1 leafpage_in_nodes [OF q(1)]]] q(2) by simp
    have "rd64 (mem s1) (unat pte) = leaf (mem s1) 2 pt va"
      using q(1) by (simp add: leaf_def u ent_def)
    then have "rd64 (mem s1) (unat pte) AND PTE_V = 0"
      using p nv by (auto simp: walk_post_def valid_def)
    moreover have "leaf (wr64 (mem s1) (unat pte) w) 2 pt va' =
         (if vpn va' = vpn va then w else leaf (mem s) 2 pt va')" if "va' < MAXVA" for w va'
      using leaf_write [OF t1 q(1), of w va'] same_vpn [OF va that] p by (simp add: u walk_post_def)
    moreover have "tree_ext pt xs s (s1\<lparr>mem := wr64 (mem s1) (unat pte) w\<rparr>) ys zs" for w
      using tree_ext_write [OF e d1 q(1)] by (simp add: u)
    ultimately show ?thesis using len by (intro ok [OF wk False]) auto
  qed
qed

lemma vpn_add: "unat a + 4096 * n < 2 ^ 64 \<Longrightarrow> vpn (a + of_nat (4096 * n)) = vpn a + n"
  by (simp add: vpn_def unat_word_ariths unat_of_nat)

lemma mapped_from_step:
  assumes "a < MAXVA" "mapped_from pt a pa perm m m1 1" "mapped_from pt (a + 4096) (pa + 4096) perm m1 m2 d"
  shows "mapped_from pt a pa perm m m2 (Suc d)"
  unfolding mapped_from_def
proof (intro allI impI)
  fix va assume va: "va < MAXVA"
  have a1: "vpn (a + 4096) = vpn a + 1"
    using vpn_add [of a 1] assms(1) by (simp add: word_less_nat_alt unat_MAXVA)
  have "pa + 4096 + of_nat (4096 * (vpn va - (vpn a + 1))) = pa + of_nat (4096 * (vpn va - vpn a))"
    if "vpn a + 1 \<le> vpn va"
  proof -
    have "4096 * (vpn va - vpn a) = 4096 + 4096 * (vpn va - (vpn a + 1))" using that by simp
    then show ?thesis by (simp only: of_nat_add) simp
  qed
  then show "leaf m2 2 pt va = (if vpn a \<le> vpn va \<and> vpn va < vpn a + Suc d
      then PA2PTE (pa + of_nat (4096 * (vpn va - vpn a))) OR perm OR PTE_V else leaf m 2 pt va)"
    using assms(2,3) va a1 unfolding mapped_from_def
    by (cases "vpn va" "vpn a" rule: linorder_cases) (auto simp: add.assoc simp del: of_nat_mult)
qed

lemma mappages_loop_post:
  assumes "ptree (kend s) (mem s) 2 pt" "freepages s xs" "set xs \<inter> nodes (mem s) 2 pt = {}"
    "unat a mod 4096 = 0" "unat a + 4096 * n < 2 ^ 38"
    "\<And>va. va < MAXVA \<Longrightarrow> vpn a \<le> vpn va \<Longrightarrow> vpn va \<le> vpn a + n \<Longrightarrow> \<not> valid (leaf (mem s) 2 pt va)"
  shows "\<exists>r s' ys zs d. mappages_loop pt a (a + of_nat (4096 * n)) pa perm s = Ok (r, s') \<and>
    tree_ext pt xs s s' ys zs \<and> mapped_from pt a pa perm (mem s) (mem s') d \<and>
    (r = 0 \<and> d = Suc n \<or> r = -1 \<and> d \<le> n \<and> zs = []) \<and> length ys \<le> 2 * Suc n"
  using assms
proof (induction n arbitrary: a pa s xs)
  case 0
  have va: "a < MAXVA" using 0(5) by (simp add: word_less_nat_alt unat_MAXVA)
  have nv: "\<not> valid (leaf (mem s) 2 pt a)" by (rule 0(6) [OF va]) auto
  from 0(1-3) va nv show ?case
  proof (cases rule: map_one)
    case (fail s1)
    show ?thesis
      by (rule exI [of _ "-1"], rule exI [of _ s1], rule exI [of _ xs], rule exI [of _ "[]"], rule exI [of _ 0])
        (use fail in \<open>auto simp add: mappages_loop.simps [of pt a] mapped_from_def\<close>)
  next
    case (ok pte s1 ys zs)
    show ?thesis
      by (rule exI [of _ "0"], rule exI [of _ "s1\<lparr>mem := wr64 (mem s1) (unat pte) (PA2PTE pa OR perm OR PTE_V)\<rparr>"], rule exI [of _ ys], rule exI [of _ zs], rule exI [of _ 1])
        (use ok in \<open>auto simp add: mappages_loop.simps [of pt a] mapped_from_def Let_def le_less_Suc_eq\<close>)
  qed
next
  case (Suc n)
  have va: "a < MAXVA" using Suc.prems(5) by (simp add: word_less_nat_alt unat_MAXVA)
  have ne: "a \<noteq> a + of_nat (4096 * Suc n)"
  proof
    assume "a = a + of_nat (4096 * Suc n)"
    moreover define j where "j = 4096 * Suc n"
    ultimately have "unat (of_nat j :: uint64) = 0" by simp
    moreover have "0 < j" "j < 2 ^ 64" using Suc.prems(5) by (auto simp: j_def)
    ultimately show False by (simp add: unat_of_nat)
  qed
  have nv: "\<not> valid (leaf (mem s) 2 pt a)" by (rule Suc.prems(6) [OF va]) auto
  from Suc.prems(1-3) va nv show ?case
  proof (cases rule: map_one)
    case (fail s1)
    show ?thesis
      by (rule exI [of _ "-1"], rule exI [of _ s1], rule exI [of _ xs], rule exI [of _ "[]"], rule exI [of _ 0])
        (use fail in \<open>auto simp add: mappages_loop.simps [of pt a] mapped_from_def\<close>)
  next
    case (ok pte s1 ys zs)
    let ?s = "s1\<lparr>mem := wr64 (mem s1) (unat pte) (PA2PTE pa OR perm OR PTE_V)\<rparr>"
    have e: "tree_ext pt xs s ?s ys zs" by (rule ok(4))
    have m1: "mapped_from pt a pa perm (mem s) (mem ?s) 1"
      using ok(5) by (auto simp add: mapped_from_def le_less_Suc_eq)
    have u: "unat (a + 4096) = unat a + 4096" using Suc.prems(5) by (simp add: unat_word_ariths)
    have v: "vpn (a + 4096) = vpn a + 1" by (simp add: vpn_def u)
    have "\<exists>r s' ys' zs' d. mappages_loop pt (a + 4096) (a + 4096 + of_nat (4096 * n)) (pa + 4096) perm ?s = Ok (r, s') \<and>
      tree_ext pt zs ?s s' ys' zs' \<and> mapped_from pt (a + 4096) (pa + 4096) perm (mem ?s) (mem s') d \<and>
      (r = 0 \<and> d = Suc n \<or> r = -1 \<and> d \<le> n \<and> zs' = []) \<and> length ys' \<le> 2 * Suc n"
    proof (rule Suc.IH)
      show "ptree (kend ?s) (mem ?s) 2 pt" "freepages ?s zs"
        using e tree_ext_kend [OF e] by (simp_all add: tree_ext_def)
      show "set zs \<inter> nodes (mem ?s) 2 pt = {}"
        by (rule tree_ext_disj [OF e Suc.prems(3)]) (use Suc.prems(2) in \<open>simp add: freepages_def\<close>)
      show "unat (a + 4096) mod 4096 = 0" "unat (a + 4096) + 4096 * n < 2 ^ 38"
        using Suc.prems(4,5) by (simp_all add: u)
      show "\<not> valid (leaf (mem ?s) 2 pt va)"
        if "va < MAXVA" "vpn (a + 4096) \<le> vpn va" "vpn va \<le> vpn (a + 4096) + n" for va
        using that ok(5) Suc.prems(6) [of va] by (simp add: v)
    qed
    then obtain r s' ys' zs' d where *:
      "mappages_loop pt (a + 4096) (a + 4096 + of_nat (4096 * n)) (pa + 4096) perm ?s = Ok (r, s')"
      "tree_ext pt zs ?s s' ys' zs'" "mapped_from pt (a + 4096) (pa + 4096) perm (mem ?s) (mem s') d"
      "r = 0 \<and> d = Suc n \<or> r = -1 \<and> d \<le> n \<and> zs' = []" "length ys' \<le> 2 * Suc n" by blast
    have "mappages_loop pt a (a + of_nat (4096 * Suc n)) pa perm s = Ok (r, s')"
      using ok(1-3) ne *(1) by (simp add: mappages_loop.simps [of pt a] Let_def add.assoc)
    moreover have "mapped_from pt a pa perm (mem s) (mem s') (Suc d)"
      by (rule mapped_from_step [OF va m1 *(3)])
    moreover have "tree_ext pt xs s s' (ys @ ys') zs'" by (rule tree_ext_trans [OF e *(2)])
    moreover have "r = 0 \<and> Suc d = Suc (Suc n) \<or> r = -1 \<and> Suc d \<le> Suc n \<and> zs' = []" using *(4) by auto
    moreover have "length (ys @ ys') \<le> 2 * Suc (Suc n)" using ok(6) *(5) by simp
    ultimately show ?thesis by blast
  qed
qed

text \<open>A page table and the allocator in a consistent state.\<close>

definition pt_ok :: "'a kmem_scheme \<Rightarrow> uint64 \<Rightarrow> bool" where
  "pt_ok s pt \<longleftrightarrow> kmem_inv s \<and> ptree (kend s) (mem s) 2 pt \<and> free_set s \<inter> nodes (mem s) 2 pt = {}"

lemma pt_okE:
  assumes "pt_ok s pt"
  obtains xs where "freepages s xs" "free_set s = set xs" "ptree (kend s) (mem s) 2 pt"
    "set xs \<inter> nodes (mem s) 2 pt = {}" "distinct xs"
  using assms free_set_eq unfolding pt_ok_def kmem_inv_def freepages_def by (metis (no_types, lifting))

lemma tree_ext_pt_ok:
  assumes "tree_ext pt xs s s' ys zs" "set xs \<inter> nodes (mem s) 2 pt = {}" "distinct xs"
  shows "pt_ok s' pt" "free_set s' = set zs"
proof -
  have fp: "freepages s' zs" using assms(1) by (simp add: tree_ext_def)
  show z: "free_set s' = set zs" by (rule free_set_eq [OF fp])
  show "pt_ok s' pt"
    using fp assms(1) tree_ext_kend [OF assms(1)] tree_ext_disj [OF assms] z
    by (auto simp: pt_ok_def kmem_inv_def tree_ext_def)
qed

lemma mappages_post:
  assumes ok: "pt_ok s pt" and va: "unat va mod 4096 = 0" "0 < n" "unat va + 4096 * n \<le> 2 ^ 38"
    and new: "\<forall>v<MAXVA. vpn va \<le> vpn v \<and> vpn v < vpn va + n \<longrightarrow> \<not> valid (leaf (mem s) 2 pt v)"
  shows "\<exists>r s' d. mappages pt va (of_nat (4096 * n)) pa perm s = Ok (r, s') \<and> pt_ok s' pt \<and> memonly s s' \<and>
    mapped_from pt va pa perm (mem s) (mem s') d \<and>
    (r = 0 \<and> d = n \<or> r = -1 \<and> d < n \<and> free_set s' = {}) \<and>
    card (free_set s) \<le> card (free_set s') + 2 * n \<and>
    nodes (mem s) 2 pt \<subseteq> nodes (mem s') 2 pt \<and>
    nodes (mem s') 2 pt - nodes (mem s) 2 pt = free_set s - free_set s' \<and>
    free_set s' \<subseteq> free_set s \<and>
    agree (mem s) (mem s') {q. legal (kend s) q \<and> q \<notin> nodes (mem s) 2 pt \<and> q \<notin> free_set s}"
proof -
  obtain xs where xs: "freepages s xs" "free_set s = set xs" "ptree (kend s) (mem s) 2 pt"
    "set xs \<inter> nodes (mem s) 2 pt = {}" "distinct xs" using pt_okE [OF ok] .
  obtain n' where n: "n = Suc n'" using va(2) by (cases n) auto
  have u: "unat (of_nat (4096 * n) :: uint64) = 4096 * n"
    using va(3) by (simp add: unat_of_nat del: of_nat_mult)
  have f: "va + of_nat (4096 * n) - 4096 = va + of_nat (4096 * n')"
    by (simp add: n algebra_simps)
  have "mappages pt va (of_nat (4096 * n)) pa perm s = mappages_loop pt va (va + of_nat (4096 * n')) pa perm s"
    using va(1) u va(2) by (auto simp: mappages_def PGSIZE_def f simp del: of_nat_mult)
  moreover obtain r s' ys zs d where *:
    "mappages_loop pt va (va + of_nat (4096 * n')) pa perm s = Ok (r, s')" "tree_ext pt xs s s' ys zs"
    "mapped_from pt va pa perm (mem s) (mem s') d" "r = 0 \<and> d = Suc n' \<or> r = -1 \<and> d \<le> n' \<and> zs = []"
    "length ys \<le> 2 * Suc n'"
    using mappages_loop_post [OF xs(3,1,4) va(1), of n' pa perm] va(3) new n by auto
  moreover note tree_ext_pt_ok [OF *(2) xs(4,5)]
  moreover have "xs = ys @ zs" "memonly s s'" "nodes (mem s') 2 pt = nodes (mem s) 2 pt \<union> set ys"
    "agree (mem s) (mem s') {q. legal (kend s) q \<and> q \<notin> nodes (mem s) 2 pt \<and> q \<notin> set ys}"
    using *(2) by (auto simp: tree_ext_def)
  moreover from this have "agree (mem s) (mem s') {q. legal (kend s) q \<and> q \<notin> nodes (mem s) 2 pt \<and> q \<notin> free_set s}"
    by (elim agree_mono) (auto simp: xs(2))
  moreover have "nodes (mem s) 2 pt \<subseteq> nodes (mem s') 2 pt"
    "nodes (mem s') 2 pt - nodes (mem s) 2 pt = free_set s - free_set s'" "free_set s' \<subseteq> free_set s"
    using calculation xs(2,4,5) by auto
  moreover have "card (free_set s) \<le> card (free_set s') + 2 * n"
  proof -
    have "card (free_set s) = length xs" using xs(2,5) by (simp add: distinct_card)
    moreover have "card (free_set s') = length zs"
      using tree_ext_pt_ok(2) [OF *(2) xs(4,5)] xs(5) *(2) by (simp add: distinct_card tree_ext_def)
    moreover have "length xs = length ys + length zs" using *(2) by (simp add: tree_ext_def)
    ultimately show ?thesis using *(5) n by simp
  qed
  ultimately show ?thesis using n by (intro exI [of _ r] exI [of _ s'] exI [of _ d]) auto
qed

end
