(* ===== verification/Addrspace.thy ===== *)
theory Addrspace
  imports Pagetable
begin

unbundle bit_operations_syntax

text \<open>
  User address spaces: a page table whose entries below the trapframe page map distinct legal
  pages that are neither free nor page-table pages.  \<open>ubyte\<close> is the memory the process sees, and
  the operations of \<open>Vm\<close> on user memory are specified by what they do to it.
\<close>

section \<open>The memory a process sees\<close>

text \<open>The entry for a page number, and the byte at a user address.\<close>

definition lf :: "bytes \<Rightarrow> uint64 \<Rightarrow> nat \<Rightarrow> uint64" where
  "lf m pt v = leaf m 2 pt (of_nat (4096 * v))"

definition ubyte :: "bytes \<Rightarrow> uint64 \<Rightarrow> nat \<Rightarrow> byte option" where
  "ubyte m pt a =
     (let e = lf m pt (a div 4096) in
      if valid e then Some (m (unat (PTE2PA e) + a mod 4096)) else None)"

definition UPAGES :: nat where "UPAGES = 2 ^ 26 - 2"

definition uspace :: "'a kmem_scheme \<Rightarrow> uint64 \<Rightarrow> bool" where
  "uspace s pt \<longleftrightarrow> pt_ok s pt \<and>
     (\<forall>v<UPAGES. valid (lf (mem s) pt v) \<longrightarrow> legal (kend s) (PTE2PA (lf (mem s) pt v)) \<and>
        PTE2PA (lf (mem s) pt v) \<notin> nodes (mem s) 2 pt \<and> PTE2PA (lf (mem s) pt v) \<notin> free_set s \<and>
        PTE_FLAGS (lf (mem s) pt v) \<noteq> PTE_V) \<and>
     (\<forall>v<UPAGES. \<forall>w<UPAGES. valid (lf (mem s) pt v) \<longrightarrow> valid (lf (mem s) pt w) \<longrightarrow>
        PTE2PA (lf (mem s) pt v) = PTE2PA (lf (mem s) pt w) \<longrightarrow> v = w)"

lemma uspaceI:
  assumes "pt_ok s pt"
    and "\<And>v. v < UPAGES \<Longrightarrow> valid (lf (mem s) pt v) \<Longrightarrow> legal (kend s) (PTE2PA (lf (mem s) pt v)) \<and>
        PTE2PA (lf (mem s) pt v) \<notin> nodes (mem s) 2 pt \<and> PTE2PA (lf (mem s) pt v) \<notin> free_set s \<and>
        PTE_FLAGS (lf (mem s) pt v) \<noteq> PTE_V"
    and "\<And>v w. v < UPAGES \<Longrightarrow> w < UPAGES \<Longrightarrow> valid (lf (mem s) pt v) \<Longrightarrow> valid (lf (mem s) pt w) \<Longrightarrow>
        PTE2PA (lf (mem s) pt v) = PTE2PA (lf (mem s) pt w) \<Longrightarrow> v = w"
  shows "uspace s pt"
  using assms unfolding uspace_def by blast

lemma uspaceD:
  assumes "uspace s pt" "v < UPAGES" "valid (lf (mem s) pt v)"
  shows "legal (kend s) (PTE2PA (lf (mem s) pt v))" "PTE2PA (lf (mem s) pt v) \<notin> nodes (mem s) 2 pt"
    "PTE2PA (lf (mem s) pt v) \<notin> free_set s" "PTE_FLAGS (lf (mem s) pt v) \<noteq> PTE_V"
    "w < UPAGES \<Longrightarrow> valid (lf (mem s) pt w) \<Longrightarrow> PTE2PA (lf (mem s) pt v) = PTE2PA (lf (mem s) pt w) \<Longrightarrow> v = w"
  using assms unfolding uspace_def by blast+

lemma leaf_vpn: "vpn va = vpn va' \<Longrightarrow> leaf m l pt va = leaf m l pt va'"
proof -
  assume v: "vpn va = vpn va'"
  then have i: "idx j va = idx j va'" for j by (simp add: idx_vpn)
  have "leafpage m l pt va = leafpage m l pt va'"
    by (induction l arbitrary: pt) (simp_all add: i Let_def)
  then show ?thesis by (simp add: leaf_def i split: option.split)
qed

lemma vpn_of_nat: "v < 2 ^ 52 \<Longrightarrow> vpn (of_nat (4096 * v)) = v"
  by (simp add: vpn_def unat_of_nat del: of_nat_mult)

lemma leaf_lf: "leaf m 2 pt va = lf m pt (vpn va)"
proof -
  have "vpn va < 2 ^ 52"
    using unsigned_less [of va, where ?'a = nat] by (simp add: vpn_def less_mult_imp_div_less)
  then show ?thesis unfolding lf_def by (intro leaf_vpn) (simp only: vpn_of_nat)
qed

lemma lf_agree: "agree m m' (nodes m 2 pt) \<Longrightarrow> lf m' pt v = lf m pt v"
  by (simp add: lf_def agree_leaf)

text \<open>Looking a page up without allocating.\<close>

lemma walk_lf:
  assumes "pt_ok s pt" "va < MAXVA"
  shows "\<exists>pte. walk pt va False s = Ok (pte, s) \<and>
    (pte = 0 \<longrightarrow> lf (mem s) pt (vpn va) = 0) \<and>
    (pte \<noteq> 0 \<longrightarrow> rd64 (mem s) (unat pte) = lf (mem s) pt (vpn va))"
proof -
  have t: "ptree (kend s) (mem s) 2 pt" using assms(1) by (simp add: pt_ok_def)
  show ?thesis
  proof (cases "leafpage (mem s) 2 pt va")
    case None
    then have "leaf (mem s) 2 pt va = 0" by (simp add: leaf_def)
    with None assms(2) show ?thesis by (simp add: walk_def walk_noalloc [OF t] leaf_lf)
  next
    case (Some q)
    have l: "legal (kend s) q" by (rule ptree_legal [OF t leafpage_in_nodes [OF Some]])
    have "rd64 (mem s) (unat (q + 8 * PX 0 va)) = leaf (mem s) 2 pt va"
      using Some by (simp add: pte_addr [OF l] leaf_def)
    with Some assms(2) slot_addr(2) [OF l, of 0 va] show ?thesis
      by (simp add: walk_def walk_noalloc [OF t] leaf_lf)
  qed
qed

lemma walkaddr_lf:
  assumes "pt_ok s pt" "va < MAXVA"
  shows "walkaddr pt va s = (let e = lf (mem s) pt (vpn va) in
    if valid e \<and> e AND PTE_U \<noteq> 0 then PTE2PA e else 0)"
proof -
  obtain pte where w: "walk pt va False s = Ok (pte, s)" "pte = 0 \<longrightarrow> lf (mem s) pt (vpn va) = 0"
    "pte \<noteq> 0 \<longrightarrow> rd64 (mem s) (unat pte) = lf (mem s) pt (vpn va)"
    using walk_lf [OF assms] by blast
  have "walk_loop 2 pt va False s = (pte, s)" using w(1) assms(2) by (simp add: walk_def not_le [symmetric])
  then show ?thesis using w(2,3) assms(2) by (auto simp: walkaddr_def Let_def valid_def)
qed

lemma uspace_cong:
  assumes "mem s = mem t" "freelist s = freelist t" "kend s = kend t"
  shows "uspace s pt = uspace t pt"
proof -
  have "freepages s xs = freepages t xs" for xs unfolding freepages_def page_ok_def assms ..
  then have "freepages s = freepages t" by blast
  then have "free_set s = free_set t" "kmem_inv s = kmem_inv t" by (simp_all add: free_set_def kmem_inv_def)
  then show ?thesis using assms by (simp add: uspace_def pt_ok_def)
qed

lemma uspace_pt_ok [simp]: "uspace s pt \<Longrightarrow> pt_ok s pt"
  by (simp add: uspace_def)

lemma ismapped_lf: "pt_ok s pt \<Longrightarrow> va < MAXVA \<Longrightarrow> ismapped pt va s = Ok (valid (lf (mem s) pt (vpn va)))"
  using walk_lf [of s pt va] by (auto simp: ismapped_def valid_def)

section \<open>Stores into user pages\<close>

text \<open>A store that only touches one user page keeps the page table and the allocator.\<close>

lemma freepages_agree:
  assumes "freepages s xs" "agree (mem s) m {q. legal (kend s) q \<and> q \<noteq> p}" "p \<notin> set xs"
  shows "freepages (s\<lparr>mem := m\<rparr>) xs"
proof (rule freepages_mem_frame [OF assms(1)])
  fix x and i :: nat assume x: "x \<in> set xs" "i < 8"
  then have "legal (kend s) x \<and> x \<noteq> p"
    using assms(1,3) page_ok_legal [of s x] by (auto simp: freepages_def)
  then show "m (unat x + i) = mem s (unat x + i)" using assms(2) x(2) by (simp add: agree_def)
qed

lemma uspace_store:
  assumes u: "uspace s pt" and v: "v < UPAGES" "valid (lf (mem s) pt v)"
    and ag: "agree (mem s) m {q. legal (kend s) q \<and> q \<noteq> PTE2PA (lf (mem s) pt v)}"
  shows "uspace (s\<lparr>mem := m\<rparr>) pt" "lf m pt w = lf (mem s) pt w" "free_set (s\<lparr>mem := m\<rparr>) = free_set s"
    "nodes m 2 pt = nodes (mem s) 2 pt"
proof -
  let ?p = "PTE2PA (lf (mem s) pt v)"
  from uspace_pt_ok [OF u] obtain xs where xs: "freepages s xs" "free_set s = set xs" "ptree (kend s) (mem s) 2 pt"
    by (rule pt_okE)
  have p: "?p \<notin> nodes (mem s) 2 pt" "?p \<notin> free_set s" using u v by (auto simp: uspace_def)
  have agn: "agree (mem s) m (nodes (mem s) 2 pt)"
    by (rule agree_mono [OF ag]) (use p ptree_legal [OF xs(3)] in auto)
  show l: "lf m pt w = lf (mem s) pt w" for w by (rule lf_agree [OF agn])
  have fp: "freepages (s\<lparr>mem := m\<rparr>) xs" by (rule freepages_agree [OF xs(1) ag]) (use p xs(2) in simp)
  show f: "free_set (s\<lparr>mem := m\<rparr>) = free_set s" using free_set_eq [OF fp] xs(2) by simp
  show n: "nodes m 2 pt = nodes (mem s) 2 pt" using agree_tree [OF agn] by blast
  have "pt_ok (s\<lparr>mem := m\<rparr>) pt"
    using u fp agree_tree [OF agn] f by (auto simp: uspace_def pt_ok_def kmem_inv_def)
  then show "uspace (s\<lparr>mem := m\<rparr>) pt" using u by (simp add: uspace_def l f n)
qed

lemma agree_putl:
  assumes "legal k p" "off + length xs \<le> 4096"
  shows "agree m (putl m (unat p + off) xs) {q. legal k q \<and> q \<noteq> p}"
  unfolding agree_def
proof (intro ballI allI impI)
  fix q j assume "q \<in> {q. legal k q \<and> q \<noteq> p}" "j < (4096::nat)"
  then show "putl m (unat p + off) xs (unat q + j) = m (unat q + j)"
    using legal_gap [OF assms(1), of q] assms(2) by (intro putl_outside) fastforce
qed

lemma ubyte_putl:
  assumes u: "uspace s pt" and v: "v < UPAGES" "valid (lf (mem s) pt v)"
    and off: "off + length xs \<le> 4096" and a: "a < 4096 * UPAGES"
  shows "ubyte (putl (mem s) (unat (PTE2PA (lf (mem s) pt v)) + off) xs) pt a =
    (if 4096 * v + off \<le> a \<and> a < 4096 * v + off + length xs then Some (xs ! (a - (4096 * v + off)))
     else ubyte (mem s) pt a)"
proof -
  let ?p = "PTE2PA (lf (mem s) pt v)" and ?w = "a div 4096"
  let ?m = "putl (mem s) (unat ?p + off) xs"
  have lp: "legal (kend s) ?p" using u v by (simp add: uspace_def)
  have ag: "agree (mem s) ?m {q. legal (kend s) q \<and> q \<noteq> ?p}" by (rule agree_putl [OF lp off])
  have l: "lf ?m pt ?w = lf (mem s) pt ?w" by (rule uspace_store(2) [OF u v ag])
  have w: "?w < UPAGES" using a by (simp add: less_mult_imp_div_less mult.commute)
  have d: "a = 4096 * ?w + a mod 4096" by simp
  have md: "a mod 4096 < 4096" by simp
  show ?thesis
  proof (cases "?w = v")
    case True
    then have "a - (4096 * v + off) = a mod 4096 - off" using d by linarith
    moreover have "(4096 * v + off \<le> a \<and> a < 4096 * v + off + length xs) = (off \<le> a mod 4096 \<and> a mod 4096 < off + length xs)"
      using d True by linarith
    ultimately show ?thesis using True v l by (auto simp: ubyte_def Let_def putl_def put_def)
  next
    case False
    have "\<not> (4096 * v + off \<le> a \<and> a < 4096 * v + off + length xs)"
    proof
      assume "4096 * v + off \<le> a \<and> a < 4096 * v + off + length xs"
      then have "a div 4096 = v" using off by (intro div_nat_eqI) auto
      with False show False by simp
    qed
    moreover have "?m (unat (PTE2PA (lf (mem s) pt ?w)) + a mod 4096) =
        mem s (unat (PTE2PA (lf (mem s) pt ?w)) + a mod 4096)" if "valid (lf (mem s) pt ?w)"
    proof -
      have "legal (kend s) (PTE2PA (lf (mem s) pt ?w)) \<and> PTE2PA (lf (mem s) pt ?w) \<noteq> ?p"
        using u v w that False unfolding uspace_def by blast
      then show ?thesis using ag md by (simp add: agree_def)
    qed
    ultimately show ?thesis by (auto simp: ubyte_def l Let_def)
  qed
qed

section \<open>copyout and copyin\<close>

definition user_r :: "uint64 \<Rightarrow> bool" where
  "user_r e \<longleftrightarrow> valid e \<and> e AND PTE_U \<noteq> 0"

definition user_w :: "uint64 \<Rightarrow> bool" where
  "user_w e \<longleftrightarrow> user_r e \<and> e AND PTE_W \<noteq> 0"

lemma page_parts:
  "unat (a - PGROUNDDOWN a) = unat a mod 4096" "vpn (PGROUNDDOWN a) = vpn a"
  "unat a = 4096 * vpn a + unat a mod 4096"
proof -
  have "PGROUNDDOWN a \<le> a" by (simp add: PGROUNDDOWN_def word_and_le2)
  then have "unat (a - PGROUNDDOWN a) = unat a - unat (PGROUNDDOWN a)" by (rule unat_sub)
  then show "unat (a - PGROUNDDOWN a) = unat a mod 4096" by (simp add: unat_PGROUNDDOWN)
  show "vpn (PGROUNDDOWN a) = vpn a"
    by (simp only: vpn_def unat_PGROUNDDOWN minus_mod_eq_div_mult nonzero_mult_div_cancel_right)
  show "unat a = 4096 * vpn a + unat a mod 4096" by (simp add: vpn_def)
qed

lemma UPAGES_MAXVA: "vpn a < UPAGES \<Longrightarrow> a < MAXVA"
proof -
  assume "vpn a < UPAGES"
  then have "4096 * vpn a + 4096 \<le> 4096 * UPAGES" by simp
  then have "unat a < 2 ^ 38" using page_parts(3) [of a] mod_less_divisor [of 4096 "unat a"]
    by (simp add: UPAGES_def)
  then show ?thesis by (simp add: word_less_nat_alt unat_MAXVA)
qed

lemma next_page:
  assumes "vpn a < UPAGES"
  shows "unat (PGROUNDDOWN a + 4096) = 4096 * (vpn a + 1)"
proof -
  have "unat (PGROUNDDOWN a) = 4096 * vpn a"
    using page_parts(3) [of a] by (simp add: unat_PGROUNDDOWN)
  then show ?thesis using assms by (simp add: unat_word_ariths UPAGES_def)
qed

text \<open>The byte address both loops copy to or from.\<close>

lemma page_offset_addr:
  assumes "legal k p"
  shows "unat (p + (a - PGROUNDDOWN a)) = unat p + unat a mod 4096"
proof -
  have "unat p + 4096 \<le> 0x88000000" using legal_bound [OF assms] by simp
  moreover have "unat a mod 4096 < 4096" by simp
  ultimately show ?thesis by (simp add: unat_word_ariths page_parts(1))
qed

lemma user_page_present:
  assumes "uspace s pt" "vpn va < UPAGES" "user_r (lf (mem s) pt (vpn va))"
  shows "user_page pt va s = Ok (PTE2PA (lf (mem s) pt (vpn va)), s)"
proof -
  have "PTE2PA (lf (mem s) pt (vpn va)) \<noteq> 0"
    using assms legal_bound by (auto simp: uspace_def user_r_def)
  then show ?thesis using assms UPAGES_MAXVA [OF assms(2)]
    by (simp add: user_page_def walkaddr_lf Let_def user_r_def)
qed

lemma copyout_chunk:
  assumes u: "uspace s pt" and v: "vpn dst < UPAGES" "user_w (lf (mem s) pt (vpn dst))" and src: "src \<noteq> []"
  defines "n \<equiv> min (4096 - unat dst mod 4096) (length src)"
  defines "m \<equiv> putl (mem s) (unat (PTE2PA (lf (mem s) pt (vpn dst))) + unat dst mod 4096) (take n src)"
  shows "copyout pt dst src s = copyout pt (PGROUNDDOWN dst + 4096) (drop n src) (s\<lparr>mem := m\<rparr>)"
    and "uspace (s\<lparr>mem := m\<rparr>) pt" "lf m pt w = lf (mem s) pt w" "free_set (s\<lparr>mem := m\<rparr>) = free_set s"
    and "a < 4096 * UPAGES \<Longrightarrow> ubyte m pt a =
      (if unat dst \<le> a \<and> a < unat dst + n then Some (src ! (a - unat dst)) else ubyte (mem s) pt a)"
proof -
  let ?e = "lf (mem s) pt (vpn dst)"
  let ?va0 = "PGROUNDDOWN dst"
  have vl: "valid ?e" "user_r ?e" using v by (auto simp: user_w_def user_r_def)
  have lp: "legal (kend s) (PTE2PA ?e)" using u v(1) vl(1) by (simp add: uspace_def)
  have va0: "vpn ?va0 = vpn dst" "?va0 < MAXVA" using page_parts(2) UPAGES_MAXVA [of ?va0] v by simp_all
  have up: "user_page pt ?va0 s = Ok (PTE2PA ?e, s)"
    using user_page_present [OF u, of ?va0] va0 v vl(2) by simp
  obtain pte where w: "walk pt ?va0 False s = Ok (pte, s)" "pte = 0 \<longrightarrow> ?e = 0"
    "pte \<noteq> 0 \<longrightarrow> rd64 (mem s) (unat pte) = ?e"
    using walk_lf [OF uspace_pt_ok [OF u] va0(2)] va0(1) by auto
  have pte: "pte \<noteq> 0" using w(2) vl(1) by auto
  have off: "unat dst mod 4096 + length (take n src) \<le> 4096"
    using mod_less_divisor [of 4096 "unat dst"] by (simp add: n_def)
  show "copyout pt dst src s = copyout pt (?va0 + 4096) (drop n src) (s\<lparr>mem := m\<rparr>)"
    using src va0(2) [folded not_le] up w pte v legal_bound [OF lp]
    by (subst copyout.simps)
      (simp add: Let_def user_w_def page_offset_addr [OF lp] page_parts(1) PGSIZE_def m_def n_def)
  have ag: "agree (mem s) m {q. legal (kend s) q \<and> q \<noteq> PTE2PA ?e}"
    unfolding m_def by (rule agree_putl [OF lp off])
  show "uspace (s\<lparr>mem := m\<rparr>) pt" "lf m pt w = lf (mem s) pt w" "free_set (s\<lparr>mem := m\<rparr>) = free_set s" for w
    using uspace_store [OF u v(1) vl(1) ag] by auto
  show "ubyte m pt a = (if unat dst \<le> a \<and> a < unat dst + n then Some (src ! (a - unat dst)) else ubyte (mem s) pt a)"
    if "a < 4096 * UPAGES"
  proof -
    have "length (take n src) = n" by (simp add: n_def)
    then show ?thesis
      using ubyte_putl [OF u v(1) vl(1) off that] page_parts(3) [of dst, symmetric] by (auto simp: m_def)
  qed
qed

lemma copyout_post:
  assumes "uspace s pt" "unat dst + length src \<le> 4096 * UPAGES"
    "\<And>a. unat dst \<le> a \<Longrightarrow> a < unat dst + length src \<Longrightarrow> user_w (lf (mem s) pt (a div 4096))"
  shows "\<exists>m. copyout pt dst src s = Ok (0, s\<lparr>mem := m\<rparr>) \<and> uspace (s\<lparr>mem := m\<rparr>) pt \<and>
    (\<forall>w. lf m pt w = lf (mem s) pt w) \<and> free_set (s\<lparr>mem := m\<rparr>) = free_set s \<and>
    (\<forall>a<4096 * UPAGES. ubyte m pt a =
      (if unat dst \<le> a \<and> a < unat dst + length src then Some (src ! (a - unat dst)) else ubyte (mem s) pt a))"
  using assms
proof (induction "length src" arbitrary: dst src s rule: less_induct)
  case less
  show ?case
  proof (cases "src = []")
    case True
    then show ?thesis using less.prems by (intro exI [of _ "mem s"]) (auto simp: copyout.simps)
  next
    case False
    then have lt: "unat dst < 4096 * UPAGES" using less.prems(2) by (cases src) auto
    then have v: "vpn dst < UPAGES" by (simp add: vpn_def less_mult_imp_div_less mult.commute)
    have w: "user_w (lf (mem s) pt (vpn dst))"
      using less.prems(3) [of "unat dst"] False by (simp add: vpn_def)
    define n where "n = min (4096 - unat dst mod 4096) (length src)"
    define m where "m = putl (mem s) (unat (PTE2PA (lf (mem s) pt (vpn dst))) + unat dst mod 4096) (take n src)"
    note c = copyout_chunk [OF less.prems(1) v w False, folded n_def, folded m_def]
    have md: "unat dst mod 4096 < 4096" by simp
    have n0: "0 < n" "n \<le> length src" using False md by (auto simp: n_def)
    have nx: "unat (PGROUNDDOWN dst + 4096) = 4096 * (vpn dst + 1)" by (rule next_page [OF v])
    have full: "unat (PGROUNDDOWN dst + 4096) = unat dst + n" if "n < length src"
      using nx that page_parts(3) [of dst] by (auto simp: n_def min_def split: if_splits)
    have "\<exists>m'. copyout pt (PGROUNDDOWN dst + 4096) (drop n src) (s\<lparr>mem := m\<rparr>) = Ok (0, s\<lparr>mem := m'\<rparr>) \<and>
      uspace (s\<lparr>mem := m'\<rparr>) pt \<and> (\<forall>w. lf m' pt w = lf m pt w) \<and> free_set (s\<lparr>mem := m'\<rparr>) = free_set s \<and>
      (\<forall>a<4096 * UPAGES. ubyte m' pt a = (if unat dst + n \<le> a \<and> a < unat dst + length src
         then Some (src ! (a - unat dst)) else ubyte m pt a))"
    proof (cases "n = length src")
      case True
      then show ?thesis using c by (intro exI [of _ m]) (auto simp: copyout.simps)
    next
      case False
      then have f: "unat (PGROUNDDOWN dst + 4096) = unat dst + n" using full n0 by simp
      have "\<exists>m'. copyout pt (PGROUNDDOWN dst + 4096) (drop n src) (s\<lparr>mem := m\<rparr>) = Ok (0, s\<lparr>mem := m\<rparr>\<lparr>mem := m'\<rparr>) \<and>
        uspace (s\<lparr>mem := m\<rparr>\<lparr>mem := m'\<rparr>) pt \<and> (\<forall>w. lf m' pt w = lf (mem (s\<lparr>mem := m\<rparr>)) pt w) \<and>
        free_set (s\<lparr>mem := m\<rparr>\<lparr>mem := m'\<rparr>) = free_set (s\<lparr>mem := m\<rparr>) \<and>
        (\<forall>a<4096 * UPAGES. ubyte m' pt a =
          (if unat (PGROUNDDOWN dst + 4096) \<le> a \<and> a < unat (PGROUNDDOWN dst + 4096) + length (drop n src)
           then Some (drop n src ! (a - unat (PGROUNDDOWN dst + 4096))) else ubyte (mem (s\<lparr>mem := m\<rparr>)) pt a))"
      proof (rule less.hyps)
        show "length (drop n src) < length src" using n0 by simp
        show "uspace (s\<lparr>mem := m\<rparr>) pt" by (rule c(2))
        show "unat (PGROUNDDOWN dst + 4096) + length (drop n src) \<le> 4096 * UPAGES" using f n0 less.prems(2) by simp
        show "user_w (lf (mem (s\<lparr>mem := m\<rparr>)) pt (a div 4096))"
          if "unat (PGROUNDDOWN dst + 4096) \<le> a" "a < unat (PGROUNDDOWN dst + 4096) + length (drop n src)" for a
          using that f n0 less.prems(3) [of a] c(3) by simp
      qed
      then show ?thesis using c(4) n0 f by (auto simp: nth_drop cong: if_cong)
    qed
    then obtain m' where m': "copyout pt (PGROUNDDOWN dst + 4096) (drop n src) (s\<lparr>mem := m\<rparr>) = Ok (0, s\<lparr>mem := m'\<rparr>)"
      "uspace (s\<lparr>mem := m'\<rparr>) pt" "\<forall>w. lf m' pt w = lf m pt w" "free_set (s\<lparr>mem := m'\<rparr>) = free_set s"
      "\<forall>a<4096 * UPAGES. ubyte m' pt a = (if unat dst + n \<le> a \<and> a < unat dst + length src
         then Some (src ! (a - unat dst)) else ubyte m pt a)" by blast
    show ?thesis
      by (rule exI [of _ m']) (use m' c n0 in auto)
  qed
qed

definition ubytes :: "bytes \<Rightarrow> uint64 \<Rightarrow> nat \<Rightarrow> nat \<Rightarrow> byte list" where
  "ubytes m pt a n = map (\<lambda>i. the (ubyte m pt (a + i))) [0..<n]"

lemma ubytes_add: "ubytes m pt a (j + n) = ubytes m pt a j @ ubytes m pt (a + j) n"
  by (rule nth_equalityI) (auto simp: ubytes_def nth_append)

lemma length_ubytes [simp]: "length (ubytes m pt a n) = n"
  by (simp add: ubytes_def)

lemma nth_ubytes [simp]: "i < n \<Longrightarrow> ubytes m pt a n ! i = the (ubyte m pt (a + i))"
  by (simp add: ubytes_def)

lemma getl_ubytes:
  assumes "valid (lf m pt (a div 4096))" "a mod 4096 + n \<le> 4096"
  shows "getl m (unat (PTE2PA (lf m pt (a div 4096))) + a mod 4096) n = ubytes m pt a n"
proof (rule nth_equalityI)
  fix i assume i: "i < length (getl m (unat (PTE2PA (lf m pt (a div 4096))) + a mod 4096) n)"
  then have "a mod 4096 + i < 4096" using assms(2) by simp
  moreover have "a + i = 4096 * (a div 4096) + (a mod 4096 + i)" by simp
  ultimately have "(a + i) div 4096 = a div 4096" "(a + i) mod 4096 = a mod 4096 + i"
    by (metis div_mult_self4 div_less add_0 zero_neq_numeral add.commute)
      (metis mod_mult_self4 mod_less \<open>a mod 4096 + i < 4096\<close> \<open>a + i = 4096 * (a div 4096) + (a mod 4096 + i)\<close>)
  then show "getl m (unat (PTE2PA (lf m pt (a div 4096))) + a mod 4096) n ! i = ubytes m pt a n ! i"
    using i assms(1) by (simp add: ubyte_def Let_def add.assoc)
qed simp

lemma copyin_post:
  assumes "uspace s pt" "unat src + len \<le> 4096 * UPAGES"
    "\<And>a. unat src \<le> a \<Longrightarrow> a < unat src + len \<Longrightarrow> user_r (lf (mem s) pt (a div 4096))"
  shows "copyin pt src len s = Ok ((ubytes (mem s) pt (unat src) len, True), s)"
  using assms
proof (induction len arbitrary: src rule: less_induct)
  case (less len)
  show ?case
  proof (cases "len = 0")
    case True
    then show ?thesis by (simp add: copyin.simps ubytes_def)
  next
    case False
    then have lt: "unat src < 4096 * UPAGES" using less.prems(2) by simp
    then have v: "vpn src < UPAGES" by (simp add: vpn_def less_mult_imp_div_less mult.commute)
    have w: "user_r (lf (mem s) pt (vpn src))" using less.prems(3) [of "unat src"] False by (simp add: vpn_def)
    let ?e = "lf (mem s) pt (vpn src)"
    define n where "n = min (4096 - unat src mod 4096) len"
    have lp: "legal (kend s) (PTE2PA ?e)" using less.prems(1) v w by (simp add: uspace_def user_r_def)
    have up: "user_page pt (PGROUNDDOWN src) s = Ok (PTE2PA ?e, s)"
      using user_page_present [OF less.prems(1), of "PGROUNDDOWN src"] v w by (simp add: page_parts(2))
    have md: "unat src mod 4096 < 4096" by simp
    have n0: "0 < n" "n \<le> len" "unat src mod 4096 + n \<le> 4096" using False md by (auto simp: n_def)
    have rest: "copyin pt (PGROUNDDOWN src + 4096) (len - n) s =
      Ok ((ubytes (mem s) pt (unat src + n) (len - n), True), s)"
    proof (cases "n = len")
      case True
      then show ?thesis by (simp add: copyin.simps ubytes_def)
    next
      case False
      then have f: "unat (PGROUNDDOWN src + 4096) = unat src + n"
        using next_page [OF v] page_parts(3) [of src] by (auto simp: n_def min_def split: if_splits)
      have "copyin pt (PGROUNDDOWN src + 4096) (len - n) s =
        Ok ((ubytes (mem s) pt (unat (PGROUNDDOWN src + 4096)) (len - n), True), s)"
        by (rule less.IH) (use n0 f less.prems in auto)
      then show ?thesis by (simp add: f)
    qed
    have "getl (mem s) (unat (PTE2PA ?e) + unat src mod 4096) n = ubytes (mem s) pt (unat src) n"
      using getl_ubytes [of "mem s" pt "unat src" n] w n0(3) by (simp add: user_r_def vpn_def)
    then have "copyin pt src len s = Ok ((ubytes (mem s) pt (unat src) n @ ubytes (mem s) pt (unat src + n) (len - n), True), s)"
      using False up rest legal_bound [OF lp]
      by (subst copyin.simps) (simp add: Let_def page_offset_addr [OF lp] page_parts(1) PGSIZE_def n_def)
    then show ?thesis using ubytes_add [of "mem s" pt "unat src" n "len - n"] n0(2) by simp
  qed
qed

section \<open>Unmapping\<close>

definition upa :: "bytes \<Rightarrow> uint64 \<Rightarrow> nat \<Rightarrow> uint64" where
  "upa m pt v = PTE2PA (lf m pt v)"

lemma lf_write:
  assumes "ptree k m 2 pt" "leafpage m 2 pt va = Some q" "va < MAXVA" "w < 2 ^ 26"
  shows "lf (wr64 m (unat q + 8 * idx 0 va) e) pt w = (if w = vpn va then e else lf m pt w)"
proof -
  have w: "of_nat (4096 * w) < MAXVA" "vpn (of_nat (4096 * w)) = w"
    using assms(4) vpn_of_nat [of w]
    by (simp_all add: word_less_nat_alt unat_MAXVA unat_of_nat del: of_nat_mult)
  then show ?thesis
    using leaf_write [OF assms(1,2), of e "of_nat (4096 * w)"] same_vpn [OF assms(3) w(1)]
    by (simp add: lf_def)
qed

lemma unmap_one:
  assumes u: "uspace s pt" and va: "vpn va < UPAGES" and v: "valid (lf (mem s) pt (vpn va))"
    and pte: "walk pt va False s = Ok (pte, s)" "pte \<noteq> 0"
  shows "\<exists>s1. kfree (upa (mem s) pt (vpn va)) s = Ok s1 \<and>
    (let s2 = s1\<lparr>mem := wr64 (mem s1) (unat pte) 0\<rparr> in
     uspace s2 pt \<and> memonly s s2 \<and> nodes (mem s2) 2 pt = nodes (mem s) 2 pt \<and>
     (\<forall>w<2 ^ 26. lf (mem s2) pt w = (if w = vpn va then 0 else lf (mem s) pt w)) \<and>
     free_set s2 = insert (upa (mem s) pt (vpn va)) (free_set s) \<and>
     agree (mem s) (mem s2) {q. legal (kend s) q \<and> q \<notin> nodes (mem s) 2 pt \<and> q \<noteq> upa (mem s) pt (vpn va)})"
proof -
  let ?e = "lf (mem s) pt (vpn va)" and ?p = "upa (mem s) pt (vpn va)"
  have M: "va < MAXVA" by (rule UPAGES_MAXVA [OF va])
  from uspace_pt_ok [OF u] obtain xs where xs: "freepages s xs" "free_set s = set xs"
    "ptree (kend s) (mem s) 2 pt" "set xs \<inter> nodes (mem s) 2 pt = {}" by (rule pt_okE)
  have k: "0 < kend s" using xs(1) by (simp add: freepages_def)
  have p: "legal (kend s) ?p" "?p \<notin> nodes (mem s) 2 pt" "?p \<notin> set xs"
    using u va v xs(2) by (auto simp: uspace_def upa_def)
  define s1 where "s1 = s\<lparr>mem := wr64 (mem s) (unat ?p) (freelist s), freelist := ?p\<rparr>"
  have kf: "kfree ?p s = Ok s1" "freepages s1 (?p # xs)"
    using kfree_Cons [OF xs(1) _ p(3)] p(1) k by (simp_all add: s1_def page_ok_legal)
  have ag1: "agree (mem s) (mem s1) {q. legal (kend s) q \<and> q \<noteq> ?p}"
    using agree_wr64 [OF p(1), of 0 "{q. legal (kend s) q \<and> q \<noteq> ?p}"] by (simp add: s1_def)
  have agn: "agree (mem s) (mem s1) (nodes (mem s) 2 pt)"
    by (rule agree_mono [OF ag1]) (use p(2) ptree_legal [OF xs(3)] in auto)
  note tr = agree_tree [OF agn, of "kend s" va]
  have t1: "ptree (kend s) (mem s1) 2 pt" "nodes (mem s1) 2 pt = nodes (mem s) 2 pt" using tr xs(3) by auto
  obtain q where q: "leafpage (mem s) 2 pt va = Some q" "pte = q + 8 * PX 0 va"
    using pte M walk_noalloc [OF xs(3), of va] by (auto simp: walk_def split: option.splits if_splits)
  have qn: "q \<in> nodes (mem s) 2 pt" by (rule leafpage_in_nodes [OF q(1)])
  have lq: "legal (kend s) q" by (rule ptree_legal [OF xs(3) qn])
  have upte: "unat pte = unat q + 8 * idx 0 va" using slot_addr(1) [OF lq] q(2) by simp
  define s2 where "s2 = s1\<lparr>mem := wr64 (mem s1) (unat pte) 0\<rparr>"
  have q1: "leafpage (mem s1) 2 pt va = Some q" using tr q(1) by simp
  have t2: "ptree (kend s) (mem s2) 2 pt" "nodes (mem s2) 2 pt = nodes (mem s) 2 pt"
    using leaf_write [OF t1(1) q1, of 0 va] t1(2) by (simp_all add: s2_def upte)
  have l2: "lf (mem s2) pt w = (if w = vpn va then 0 else lf (mem s) pt w)" if "w < 2 ^ 26" for w
    using lf_write [OF t1(1) q1 M that, of 0] lf_agree [OF agn] by (simp add: s2_def upte)
  have ag2: "agree (mem s1) (mem s2) {r. legal (kend s) r \<and> r \<noteq> q}"
    unfolding s2_def by (simp add: upte, rule agree_wr64 [OF lq idx_less]) auto
  have fp2: "freepages s2 (?p # xs)"
    unfolding s2_def
    by (rule freepages_agree [OF kf(2), of _ q]) (use ag2 qn xs(4) p(2) in \<open>auto simp: s1_def s2_def\<close>)
  have f2: "free_set s2 = insert ?p (free_set s)" using free_set_eq [OF fp2] xs(2) by simp
  have ag: "agree (mem s) (mem s2) {r. legal (kend s) r \<and> r \<notin> nodes (mem s) 2 pt \<and> r \<noteq> ?p}"
    by (rule agree_trans [OF agree_mono [OF ag1] agree_mono [OF ag2]]) (use qn in auto)
  have ke: "kend s2 = kend s" by (simp add: s2_def s1_def)
  have "pt_ok s2 pt" using fp2 t2 f2 p(2) u by (auto simp: pt_ok_def kmem_inv_def ke uspace_def)
  moreover have l3: "v \<noteq> vpn va \<and> lf (mem s2) pt v = lf (mem s) pt v" if "v < UPAGES" "valid (lf (mem s2) pt v)" for v
    using that l2 [of v] by (auto simp: UPAGES_def split: if_splits)
  ultimately have "uspace s2 pt"
  proof (intro uspaceI)
    fix w assume w: "w < UPAGES" "valid (lf (mem s2) pt w)"
    then have w': "valid (lf (mem s) pt w)" using l3 by simp
    show "legal (kend s2) (PTE2PA (lf (mem s2) pt w)) \<and> PTE2PA (lf (mem s2) pt w) \<notin> nodes (mem s2) 2 pt \<and>
        PTE2PA (lf (mem s2) pt w) \<notin> free_set s2 \<and> PTE_FLAGS (lf (mem s2) pt w) \<noteq> PTE_V"
      using uspaceD [OF u w(1) w'] uspaceD(5) [OF u w(1) w' va v] l3 [OF w] by (auto simp: ke t2 f2 upa_def)
  next
    fix w x assume w: "w < UPAGES" "x < UPAGES" "valid (lf (mem s2) pt w)" "valid (lf (mem s2) pt x)"
      "PTE2PA (lf (mem s2) pt w) = PTE2PA (lf (mem s2) pt x)"
    then show "w = x" using uspaceD(5) [OF u w(1) _ w(2)] l3 [of w] l3 [of x] by simp
  qed
  moreover have "memonly s s2" unfolding s2_def s1_def
    by (intro memonly_trans [OF memonly_trans [OF memonly_upd(1) memonly_upd(2)] memonly_upd(1)])
  ultimately show ?thesis using kf(1) t2 l2 f2 ag by (auto simp: Let_def s2_def)
qed

text \<open>The pages of a range that are mapped, and what unmapping the range leaves.\<close>

definition mapped_in :: "bytes \<Rightarrow> uint64 \<Rightarrow> nat \<Rightarrow> nat \<Rightarrow> nat set" where
  "mapped_in m pt v0 n = {v. v0 \<le> v \<and> v < v0 + n \<and> valid (lf m pt v)}"

definition unmapped :: "uint64 \<Rightarrow> nat \<Rightarrow> nat \<Rightarrow> 'a kmem_scheme \<Rightarrow> 'a kmem_scheme \<Rightarrow> bool" where
  "unmapped pt v0 n s s' \<longleftrightarrow> uspace s' pt \<and> memonly s s' \<and> nodes (mem s') 2 pt = nodes (mem s) 2 pt \<and>
     (\<forall>w<2 ^ 26. lf (mem s') pt w = (if w \<in> mapped_in (mem s) pt v0 n then 0 else lf (mem s) pt w)) \<and>
     free_set s' = free_set s \<union> upa (mem s) pt ` mapped_in (mem s) pt v0 n \<and>
     agree (mem s) (mem s') {q. legal (kend s) q \<and> q \<notin> nodes (mem s) 2 pt \<and>
       q \<notin> upa (mem s) pt ` mapped_in (mem s) pt v0 n}"

lemma unmapped_refl: "uspace s pt \<Longrightarrow> mapped_in (mem s) pt v0 n = {} \<Longrightarrow> unmapped pt v0 n s s"
  by (simp add: unmapped_def agree_def)

lemma unmapped_trans:
  assumes "unmapped pt v0 1 s s1" "unmapped pt (Suc v0) n s1 s2" "v0 + Suc n \<le> 2 ^ 26"
  shows "unmapped pt v0 (Suc n) s s2"
proof -
  have k: "kend s1 = kend s" using assms(1) by (auto simp: unmapped_def memonly_kend)
  have l1: "lf (mem s1) pt w = (if w \<in> mapped_in (mem s) pt v0 1 then 0 else lf (mem s) pt w)" if "w < 2 ^ 26" for w
    using assms(1) that by (simp add: unmapped_def)
  have l: "lf (mem s1) pt w = lf (mem s) pt w" if "Suc v0 \<le> w" "w < 2 ^ 26" for w
    using l1 [OF that(2)] that by (simp add: mapped_in_def)
  have d: "mapped_in (mem s1) pt (Suc v0) n = mapped_in (mem s) pt (Suc v0) n"
    using l assms(3) by (auto simp: mapped_in_def)
  have un: "mapped_in (mem s) pt v0 (Suc n) = mapped_in (mem s) pt v0 1 \<union> mapped_in (mem s) pt (Suc v0) n"
    by (auto simp: mapped_in_def)
  have im: "upa (mem s1) pt ` mapped_in (mem s) pt (Suc v0) n = upa (mem s) pt ` mapped_in (mem s) pt (Suc v0) n"
    by (rule image_cong) (use l assms(3) in \<open>auto simp: upa_def mapped_in_def\<close>)
  have "agree (mem s) (mem s2) {q. legal (kend s) q \<and> q \<notin> nodes (mem s) 2 pt \<and>
       q \<notin> upa (mem s) pt ` mapped_in (mem s) pt v0 (Suc n)}"
    by (rule agree_trans [OF agree_mono agree_mono]) (use assms(1,2) k un d im in \<open>auto simp: unmapped_def\<close>)
  moreover have "lf (mem s2) pt w = (if w \<in> mapped_in (mem s) pt v0 (Suc n) then 0 else lf (mem s) pt w)"
    if "w < 2 ^ 26" for w
    using assms(2) that l1 [OF that] un d by (auto simp: unmapped_def)
  moreover have "free_set s2 = free_set s \<union> upa (mem s) pt ` mapped_in (mem s) pt v0 (Suc n)"
    using assms(1,2) un d im by (simp add: unmapped_def image_Un Un_assoc)
  moreover have "memonly s s2" using assms(1,2) memonly_trans [of s s1 s2] by (simp add: unmapped_def)
  ultimately show ?thesis using assms(1,2) by (simp add: unmapped_def)
qed

lemma uvmunmap_loop_post:
  assumes "uspace s pt" "unat a = 4096 * v0" "v0 + n \<le> UPAGES"
  shows "\<exists>s'. uvmunmap_loop pt a (a + of_nat (4096 * n)) True s = Ok s' \<and> unmapped pt v0 n s s'"
  using assms
proof (induction n arbitrary: a v0 s)
  case 0
  then show ?case using unmapped_refl [of s pt v0 0] by (simp add: uvmunmap_loop.simps mapped_in_def)
next
  case (Suc n)
  have vp: "vpn a = v0" using Suc.prems(2) by (simp add: vpn_def)
  have v: "v0 < UPAGES" using Suc.prems(3) by simp
  have M: "a < MAXVA" using UPAGES_MAXVA [of a] v vp by simp
  have B: "4096 * (v0 + Suc n) < 2 ^ 38" using Suc.prems(3) by (simp add: UPAGES_def)
  have ul: "unat (a + of_nat (4096 * Suc n)) = 4096 * (v0 + Suc n)"
    using B Suc.prems(2) by (simp add: unat_word_ariths unat_of_nat del: of_nat_mult of_nat_Suc)
  have lt: "a < a + of_nat (4096 * Suc n)"
    using ul Suc.prems(2) by (simp add: word_less_nat_alt del: of_nat_mult of_nat_Suc)
  have u1: "unat (a + 4096) = 4096 * Suc v0" using B Suc.prems(2) by (simp add: unat_word_ariths)
  define lm where "lm = a + of_nat (4096 * Suc n)"
  have lim: "a + 4096 + of_nat (4096 * n) = lm" by (simp add: lm_def)
  note lt = lt [folded lm_def]
  obtain pte where w: "walk pt a False s = Ok (pte, s)" "pte = 0 \<longrightarrow> lf (mem s) pt v0 = 0"
    "pte \<noteq> 0 \<longrightarrow> rd64 (mem s) (unat pte) = lf (mem s) pt v0"
    using walk_lf [OF uspace_pt_ok [OF Suc.prems(1)] M] vp by auto
  show ?case
  proof (cases "valid (lf (mem s) pt v0)")
    case False
    then have "uvmunmap_loop pt a lm True s = uvmunmap_loop pt (a + 4096) lm True s"
      using lt w by (subst uvmunmap_loop.simps) (auto simp: valid_def Let_def)
    moreover obtain s' where "uvmunmap_loop pt (a + 4096) lm True s = Ok s'"
      "unmapped pt (Suc v0) n s s'" using Suc.IH [OF Suc.prems(1) u1, unfolded lim] Suc.prems(3) by auto
    moreover have "unmapped pt v0 1 s s"
      by (rule unmapped_refl [OF Suc.prems(1)]) (use False in \<open>auto simp: mapped_in_def le_less_Suc_eq\<close>)
    ultimately show ?thesis using unmapped_trans [of pt v0 s s n] Suc.prems(3)
      unfolding lm_def [symmetric] by (auto simp: UPAGES_def)
  next
    case True
    have pte: "pte \<noteq> 0" using w(2) True by auto
    have fl: "PTE_FLAGS (lf (mem s) pt v0) \<noteq> PTE_V" by (rule uspaceD(4) [OF Suc.prems(1) v True])
    obtain s1 where k: "kfree (upa (mem s) pt v0) s = Ok s1" and
      p: "let s2 = s1\<lparr>mem := wr64 (mem s1) (unat pte) 0\<rparr> in
     uspace s2 pt \<and> memonly s s2 \<and> nodes (mem s2) 2 pt = nodes (mem s) 2 pt \<and>
     (\<forall>w<2 ^ 26. lf (mem s2) pt w = (if w = v0 then 0 else lf (mem s) pt w)) \<and>
     free_set s2 = insert (upa (mem s) pt v0) (free_set s) \<and>
     agree (mem s) (mem s2) {q. legal (kend s) q \<and> q \<notin> nodes (mem s) 2 pt \<and> q \<noteq> upa (mem s) pt v0}"
      using unmap_one [OF Suc.prems(1) _ _ w(1) pte] v True vp by auto
    define s2 where "s2 = s1\<lparr>mem := wr64 (mem s1) (unat pte) 0\<rparr>"
    have mi: "mapped_in (mem s) pt v0 1 = {v0}" using True by (auto simp: mapped_in_def)
    have un1: "unmapped pt v0 1 s s2" using p unfolding unmapped_def mi by (simp add: s2_def Let_def)
    have "uvmunmap_loop pt a lm True s = uvmunmap_loop pt (a + 4096) lm True s2"
      using lt w pte True fl k
      by (subst uvmunmap_loop.simps) (simp add: valid_def Let_def upa_def s2_def)
    moreover obtain s' where "uvmunmap_loop pt (a + 4096) lm True s2 = Ok s'"
      "unmapped pt (Suc v0) n s2 s'" using Suc.IH [OF _ u1, of s2, unfolded lim] un1 Suc.prems(3) by (auto simp: unmapped_def)
    ultimately show ?thesis using unmapped_trans [OF un1] Suc.prems(3)
      unfolding lm_def [symmetric] by (auto simp: UPAGES_def)
  qed
qed

lemma uvmunmap_post:
  assumes "uspace s pt" "unat a = 4096 * v0" "v0 + n \<le> UPAGES"
  shows "\<exists>s'. uvmunmap pt a (of_nat n) True s = Ok s' \<and> unmapped pt v0 n s s'"
  using uvmunmap_loop_post [OF assms] assms(2)
  by (simp add: uvmunmap_def PGSIZE_def mult.commute)

section \<open>Growing\<close>

text \<open>
  A step that takes only free pages, whether for the page table or for the process, and writes
  nothing outside them and the page table.
\<close>

definition kept :: "uint64 \<Rightarrow> 'a kmem_scheme \<Rightarrow> 'a kmem_scheme \<Rightarrow> bool" where
  "kept pt s s' \<longleftrightarrow> uspace s' pt \<and> memonly s s' \<and> free_set s' \<subseteq> free_set s \<and>
     nodes (mem s) 2 pt \<subseteq> nodes (mem s') 2 pt \<and> nodes (mem s') 2 pt \<subseteq> nodes (mem s) 2 pt \<union> free_set s \<and>
     agree (mem s) (mem s') {q. legal (kend s) q \<and> q \<notin> nodes (mem s) 2 pt \<and> q \<notin> free_set s}"

lemma kept_refl: "uspace s pt \<Longrightarrow> kept pt s s"
  by (simp add: kept_def agree_def)

lemma kept_trans:
  assumes "kept pt s s1" "kept pt s1 s2"
  shows "kept pt s s2"
proof -
  have k: "kend s1 = kend s" using assms(1) memonly_kend by (auto simp: kept_def)
  have "agree (mem s) (mem s2) {q. legal (kend s) q \<and> q \<notin> nodes (mem s) 2 pt \<and> q \<notin> free_set s}"
    by (rule agree_trans [OF _ agree_mono]) (use assms k in \<open>auto simp: kept_def\<close>)
  moreover have "memonly s s2" using assms memonly_trans [of s s1 s2] by (simp add: kept_def)
  ultimately show ?thesis using assms unfolding kept_def by blast
qed

definition grown :: "uint64 \<Rightarrow> nat \<Rightarrow> nat \<Rightarrow> uint64 \<Rightarrow> 'a kmem_scheme \<Rightarrow> 'a kmem_scheme \<Rightarrow> bool" where
  "grown pt v0 n fl s s' \<longleftrightarrow> (kept pt s s' \<and> card (free_set s) \<le> card (free_set s') + 3 * n) \<and>
     (\<forall>w<2 ^ 26. if v0 \<le> w \<and> w < v0 + n
        then \<exists>pg\<in>free_set s. lf (mem s') pt w = PA2PTE pg OR fl OR PTE_V \<and> upa (mem s') pt w = pg
        else lf (mem s') pt w = lf (mem s) pt w)"

lemma grown_0: "uspace s pt \<Longrightarrow> grown pt v0 0 fl s s"
  by (auto simp: grown_def kept_refl)

lemma grown_in:
  assumes "grown pt v0 n fl s s'" "v0 \<le> w" "w < v0 + n" "w < 2 ^ 26"
  shows "upa (mem s') pt w \<in> free_set s" "lf (mem s') pt w = PA2PTE (upa (mem s') pt w) OR fl OR PTE_V"
  using assms(1) [unfolded grown_def, THEN conjunct2, rule_format, OF assms(4)] assms(2,3) by auto

lemma grown_out:
  assumes "grown pt v0 n fl s s'" "\<not> (v0 \<le> w \<and> w < v0 + n)" "w < 2 ^ 26"
  shows "lf (mem s') pt w = lf (mem s) pt w"
  using assms(1) [unfolded grown_def, THEN conjunct2, rule_format, OF assms(3)] assms(2) by auto

lemma grown_trans:
  assumes a: "grown pt v0 1 fl s s1" and b: "grown pt (Suc v0) n fl s1 s2"
  shows "grown pt v0 (Suc n) fl s s2"
  unfolding grown_def
proof (intro conjI allI impI)
  show "kept pt s s2" using a b kept_trans by (auto simp: grown_def)
  show "card (free_set s) \<le> card (free_set s2) + 3 * Suc n" using a b by (simp add: grown_def)
  have sub: "free_set s1 \<subseteq> free_set s" using a by (simp add: grown_def kept_def)
  fix w :: nat assume w: "w < 2 ^ 26"
  note A = a [unfolded grown_def, THEN conjunct2, rule_format, OF w]
    and B = b [unfolded grown_def, THEN conjunct2, rule_format, OF w]
  show "if v0 \<le> w \<and> w < v0 + Suc n
        then \<exists>pg\<in>free_set s. lf (mem s2) pt w = PA2PTE pg OR fl OR PTE_V \<and> upa (mem s2) pt w = pg
        else lf (mem s2) pt w = lf (mem s) pt w"
  proof (cases "Suc v0 \<le> w \<and> w < Suc v0 + n")
    case True
    then show ?thesis using B sub by auto
  next
    case False
    then have "lf (mem s2) pt w = lf (mem s1) pt w" using B by simp
    with A False show ?thesis by (auto simp: upa_def split: if_splits)
  qed
qed

text \<open>Taking the first free page.\<close>

lemma kalloc_uspace:
  assumes u: "uspace s pt" and k: "kalloc s = (pg, s1)" "pg \<noteq> 0"
  shows "pg \<in> free_set s" "legal (kend s) pg" "s1 = s\<lparr>freelist := rd64 (mem s) (unat pg)\<rparr>"
    "free_set s1 = free_set s - {pg}" "uspace s1 pt"
proof -
  from uspace_pt_ok [OF u] obtain xs where xs: "freepages s xs" "free_set s = set xs" "distinct xs"
    "ptree (kend s) (mem s) 2 pt" by (rule pt_okE)
  obtain x ys where c: "xs = x # ys" using xs(1) k by (cases xs) (auto simp: kalloc_Nil)
  note kc = kalloc_Cons [OF xs(1) [unfolded c]]
  show s1: "s1 = s\<lparr>freelist := rd64 (mem s) (unat pg)\<rparr>" and p: "pg \<in> free_set s" using kc(1) k xs(2) c by auto
  show "legal (kend s) pg" using p xs(1,2) page_ok_legal [of s pg] by (auto simp: freepages_def)
  have fp: "freepages s1 ys" using kc k s1 by simp
  show f: "free_set s1 = free_set s - {pg}" using free_set_eq [OF fp] xs(2,3) c kc(1) k by auto
  have "pt_ok s1 pt" using u fp f s1 by (auto simp: pt_ok_def kmem_inv_def uspace_def)
  then show "uspace s1 pt" using u f s1 by (simp add: uspace_def)
qed

lemma kalloc_0: "uspace s pt \<Longrightarrow> kalloc s = (0, s1) \<Longrightarrow> free_set s = {}"
proof -
  assume u: "uspace s pt" and k: "kalloc s = (0, s1)"
  from uspace_pt_ok [OF u] obtain xs where xs: "freepages s xs" "free_set s = set xs" by (rule pt_okE)
  show ?thesis
  proof (cases xs)
    case (Cons x ys)
    then have "x = 0" using kalloc_Cons(1) [of s x ys] xs(1) k by simp
    then show ?thesis using xs(1) Cons by (auto simp: freepages_def)
  qed (use xs in simp)
qed

lemma kfree_uspace:
  assumes u: "uspace s pt" and p: "legal (kend s) pg" "pg \<notin> nodes (mem s) 2 pt" "pg \<notin> free_set s"
    "\<And>v. v < UPAGES \<Longrightarrow> valid (lf (mem s) pt v) \<Longrightarrow> upa (mem s) pt v \<noteq> pg"
  shows "\<exists>s'. kfree pg s = Ok s' \<and> uspace s' pt \<and> memonly s s' \<and> free_set s' = insert pg (free_set s) \<and>
    nodes (mem s') 2 pt = nodes (mem s) 2 pt \<and> (\<forall>v. lf (mem s') pt v = lf (mem s) pt v) \<and>
    agree (mem s) (mem s') {q. legal (kend s) q \<and> q \<noteq> pg}"
proof -
  from uspace_pt_ok [OF u] obtain xs where xs: "freepages s xs" "free_set s = set xs"
    "ptree (kend s) (mem s) 2 pt" by (rule pt_okE)
  have k: "0 < kend s" using xs(1) by (simp add: freepages_def)
  define s1 where "s1 = s\<lparr>mem := wr64 (mem s) (unat pg) (freelist s), freelist := pg\<rparr>"
  have kf: "kfree pg s = Ok s1" "freepages s1 (pg # xs)"
    using kfree_Cons [OF xs(1), of pg] p(1,3) xs(2) k by (simp_all add: s1_def page_ok_legal)
  have ag: "agree (mem s) (mem s1) {q. legal (kend s) q \<and> q \<noteq> pg}"
    using agree_wr64 [OF p(1), of 0 "{q. legal (kend s) q \<and> q \<noteq> pg}"] by (simp add: s1_def)
  have agn: "agree (mem s) (mem s1) (nodes (mem s) 2 pt)"
    by (rule agree_mono [OF ag]) (use p(2) ptree_legal [OF xs(3)] in auto)
  have l: "lf (mem s1) pt v = lf (mem s) pt v" for v by (rule lf_agree [OF agn])
  have n: "nodes (mem s1) 2 pt = nodes (mem s) 2 pt" "ptree (kend s) (mem s1) 2 pt"
    using agree_tree [OF agn] xs(3) by blast+
  have f: "free_set s1 = insert pg (free_set s)" using free_set_eq [OF kf(2)] xs(2) by simp
  have ke: "kend s1 = kend s" by (simp add: s1_def)
  have "pt_ok s1 pt" using kf(2) n f p(2) u by (auto simp: pt_ok_def kmem_inv_def ke uspace_def)
  then have "uspace s1 pt"
  proof (rule uspaceI)
    fix v assume v: "v < UPAGES" "valid (lf (mem s1) pt v)"
    then have v': "valid (lf (mem s) pt v)" using l by simp
    show "legal (kend s1) (PTE2PA (lf (mem s1) pt v)) \<and> PTE2PA (lf (mem s1) pt v) \<notin> nodes (mem s1) 2 pt \<and>
        PTE2PA (lf (mem s1) pt v) \<notin> free_set s1 \<and> PTE_FLAGS (lf (mem s1) pt v) \<noteq> PTE_V"
      using uspaceD(1-4) [OF u v(1) v'] p(4) [OF v(1) v'] by (simp add: l n f ke upa_def)
  qed (use uspaceD(5) [OF u] l in auto)
  moreover have "memonly s s1" unfolding s1_def by (rule memonly_trans [OF memonly_upd(1) memonly_upd(2)])
  ultimately show ?thesis using kf(1) f n l ag by auto
qed

text \<open>One page of \<open>uvmalloc\<close>: either it is mapped, or memory ran out and it is given back.\<close>

lemma PTE2PA_flags:
  assumes "legal k pg" "fl AND NOT 0x3FF = 0"
  shows "PTE2PA (PA2PTE pg OR fl OR PTE_V) = pg"
proof -
  have "(fl OR PTE_V) AND NOT 0x3FF = 0"
    using assms(2) by (simp add: bit.conj_disj_distrib2 PTE_V_def)
  then show ?thesis using PTE2PA_PA2PTE [of pg "fl OR PTE_V"] assms(1) by (simp add: legal_def or.assoc)
qed

lemma valid_or_V [simp]: "valid (e OR PTE_V)"
proof -
  have "(e OR PTE_V) AND PTE_V = PTE_V" by (rule bit_word_eqI) (auto simp: bit_simps PTE_V_def)
  then show ?thesis by (simp add: valid_def PTE_V_def)
qed

lemma valid_or3 [simp]: "valid (e OR f OR PTE_V)"
  using valid_or_V [of "e OR f"] by (simp only: or.assoc)

definition leafy :: "uint64 \<Rightarrow> bool" where
  "leafy fl \<longleftrightarrow> fl AND NOT 0x3FF = 0 \<and> fl AND PTE_R \<noteq> 0"

lemma leafy_flags:
  assumes "leafy fl"
  shows "PTE_FLAGS (PA2PTE pg OR fl OR PTE_V) \<noteq> PTE_V"
proof
  assume "PTE_FLAGS (PA2PTE pg OR fl OR PTE_V) = PTE_V"
  then have "bit (PTE_FLAGS (PA2PTE pg OR fl OR PTE_V)) 1 = bit PTE_V 1" by simp
  then have "\<not> bit fl 1"
    by (simp add: PTE_FLAGS_def PTE_V_def bit_simps)
  then have "fl AND PTE_R = 0"
    by (intro bit_word_eqI) (auto simp: bit_simps PTE_R_def)
  with assms show False by (simp add: leafy_def)
qed

lemma uspace_extend:
  assumes u: "uspace s pt" and ok: "pt_ok s2 pt" and ke: "kend s2 = kend s"
    and N: "nodes (mem s2) 2 pt \<subseteq> nodes (mem s) 2 pt \<union> free_set s" and F: "free_set s2 \<subseteq> free_set s"
    and l: "\<And>w. w < UPAGES \<Longrightarrow> lf (mem s2) pt w = lf (mem s) pt w \<or> w = v \<and> lf (mem s2) pt w = e"
    and new: "PTE2PA e \<in> free_set s" "legal (kend s) (PTE2PA e)" "PTE2PA e \<notin> nodes (mem s2) 2 pt"
      "PTE2PA e \<notin> free_set s2" "PTE_FLAGS e \<noteq> PTE_V"
  shows "uspace s2 pt"
  using ok
proof (rule uspaceI)
  fix w assume w: "w < UPAGES" "valid (lf (mem s2) pt w)"
  show "legal (kend s2) (PTE2PA (lf (mem s2) pt w)) \<and> PTE2PA (lf (mem s2) pt w) \<notin> nodes (mem s2) 2 pt \<and>
      PTE2PA (lf (mem s2) pt w) \<notin> free_set s2 \<and> PTE_FLAGS (lf (mem s2) pt w) \<noteq> PTE_V"
  proof (cases "lf (mem s2) pt w = lf (mem s) pt w")
    case True
    then have "valid (lf (mem s) pt w)" using w(2) by simp
    from uspaceD(1-4) [OF u w(1) this] True N F ke show ?thesis by auto
  qed (use l [OF w(1)] new ke in auto)
next
  have old: "PTE2PA (lf (mem s2) pt w) \<noteq> PTE2PA e"
    if "w < UPAGES" "valid (lf (mem s2) pt w)" "lf (mem s2) pt w = lf (mem s) pt w" for w
    using uspaceD(3) [OF u that(1)] that new(1) by auto
  fix w x assume a: "w < UPAGES" "x < UPAGES" "valid (lf (mem s2) pt w)" "valid (lf (mem s2) pt x)"
    "PTE2PA (lf (mem s2) pt w) = PTE2PA (lf (mem s2) pt x)"
  show "w = x"
    using l [OF a(1)] l [OF a(2)] old [OF a(1,3)] old [OF a(2,4)] uspaceD(5) [OF u a(1) _ a(2)] a(3-5) by metis
qed

lemma mapped_from_lf:
  assumes "mapped_from pt va pa fl m m' d" "w < 2 ^ 26"
  shows "lf m' pt w = (if vpn va \<le> w \<and> w < vpn va + d
    then PA2PTE (pa + of_nat (4096 * (w - vpn va))) OR fl OR PTE_V else lf m pt w)"
proof -
  have "of_nat (4096 * w) < MAXVA" "vpn (of_nat (4096 * w)) = w"
    using assms(2) vpn_of_nat [of w] by (simp_all add: word_less_nat_alt unat_MAXVA unat_of_nat del: of_nat_mult)
  with assms(1) [unfolded mapped_from_def, rule_format, of "of_nat (4096 * w)"] show ?thesis
    by (simp add: leaf_lf del: of_nat_mult)
qed

lemma grow_one:
  assumes u: "uspace s pt" and va: "unat va = 4096 * v" "v < UPAGES" and nv: "\<not> valid (lf (mem s) pt v)"
    and k: "kalloc s = (pg, s1)" "pg \<noteq> 0" and fl: "leafy fl"
  obtains (ok) s2 where "mappages pt va 4096 pg fl s1 = Ok (0, s2)" "grown pt v 1 fl s s2"
  | (fail) s2 s3 where "mappages pt va 4096 pg fl s1 = Ok (-1, s2)" "kfree pg s2 = Ok s3"
      "kept pt s s3" "\<And>w. w < 2 ^ 26 \<Longrightarrow> lf (mem s3) pt w = lf (mem s) pt w" "card (free_set s) \<le> 3"
proof -
  note ka = kalloc_uspace [OF u k]
  have m1: "mem s1 = mem s" "kend s1 = kend s" using ka(3) by simp_all
  have vv: "vpn va = v" using va(1) by (simp add: vpn_def)
  have v26: "v < 2 ^ 26" using va(2) by (simp add: UPAGES_def)
  have "\<exists>r s' d. mappages pt va (of_nat (4096 * 1)) pg fl s1 = Ok (r, s') \<and> pt_ok s' pt \<and> memonly s1 s' \<and>
    mapped_from pt va pg fl (mem s1) (mem s') d \<and>
    (r = 0 \<and> d = 1 \<or> r = -1 \<and> d < 1 \<and> free_set s' = {}) \<and>
    card (free_set s1) \<le> card (free_set s') + 2 * 1 \<and>
    nodes (mem s1) 2 pt \<subseteq> nodes (mem s') 2 pt \<and>
    nodes (mem s') 2 pt - nodes (mem s1) 2 pt = free_set s1 - free_set s' \<and> free_set s' \<subseteq> free_set s1 \<and>
    agree (mem s1) (mem s') {q. legal (kend s1) q \<and> q \<notin> nodes (mem s1) 2 pt \<and> q \<notin> free_set s1}"
  proof (rule mappages_post)
    show "pt_ok s1 pt" by (rule uspace_pt_ok [OF ka(5)])
    show "unat va mod 4096 = 0" "unat va + 4096 * 1 \<le> 2 ^ 38" using va by (simp_all add: UPAGES_def)
    show "\<forall>x<MAXVA. vpn va \<le> vpn x \<and> vpn x < vpn va + 1 \<longrightarrow> \<not> valid (leaf (mem s1) 2 pt x)"
      using nv vv by (auto simp: leaf_lf m1 le_less_Suc_eq)
  qed simp
  then obtain r s2 d where p: "mappages pt va 4096 pg fl s1 = Ok (r, s2)" "pt_ok s2 pt" "memonly s1 s2"
    "mapped_from pt va pg fl (mem s) (mem s2) d" "r = 0 \<and> d = 1 \<or> r = -1 \<and> d = 0 \<and> free_set s2 = {}"
    "nodes (mem s) 2 pt \<subseteq> nodes (mem s2) 2 pt"
    "nodes (mem s2) 2 pt - nodes (mem s) 2 pt = free_set s1 - free_set s2" "free_set s2 \<subseteq> free_set s1"
    "agree (mem s) (mem s2) {q. legal (kend s) q \<and> q \<notin> nodes (mem s) 2 pt \<and> q \<notin> free_set s1}"
    "card (free_set s1) \<le> card (free_set s2) + 2"
    by (auto simp: m1)
  have cd: "card (free_set s) = Suc (card (free_set s1))"
    using ka(1,4) free_set_finite [of s] by (metis card_Suc_Diff1)
  define e where "e = PA2PTE pg OR fl OR PTE_V"
  have pe: "PTE2PA e = pg" unfolding e_def by (rule PTE2PA_flags [OF ka(2)]) (use fl in \<open>simp add: leafy_def\<close>)
  have l: "lf (mem s2) pt w = (if d = 1 \<and> w = v then e else lf (mem s) pt w)" if "w < 2 ^ 26" for w
    using mapped_from_lf [OF p(4) that] p(5) vv
    by (cases "w = v") (auto simp: e_def le_less_Suc_eq simp del: of_nat_mult)
  have ms: "memonly s s2" using memonly_trans [OF _ p(3), of s] ka(3) by simp
  have ke: "kend s2 = kend s" by (rule memonly_kend [OF ms])
  have N: "nodes (mem s2) 2 pt \<subseteq> nodes (mem s) 2 pt \<union> free_set s1" using p(7) by auto
  have pn: "pg \<notin> nodes (mem s) 2 pt" using u ka(1) by (auto simp: uspace_def pt_ok_def)
  have pg: "pg \<notin> nodes (mem s2) 2 pt" "pg \<notin> free_set s2" using N pn ka(4) p(8) by auto
  have u2: "uspace s2 pt"
    by (rule uspace_extend [OF u p(2) ke, of v e])
      (use N ka p(8) pe pg l leafy_flags [OF fl] in \<open>auto simp: e_def UPAGES_def split: if_splits\<close>)
  have "agree (mem s) (mem s2) {q. legal (kend s) q \<and> q \<notin> nodes (mem s) 2 pt \<and> q \<notin> free_set s}"
    by (rule agree_mono [OF p(9)]) (use ka(4) in auto)
  then have kp: "kept pt s s2" unfolding kept_def using u2 ms p(6,8) N ka(4) by auto
  show ?thesis
  proof (cases "r = 0")
    case True
    then have "grown pt v 1 fl s s2"
      using kp l p(5) ka(1) pe p(10) cd by (auto simp: grown_def e_def upa_def le_less_Suc_eq)
    with True p(1) show ?thesis using ok by blast
  next
    case False
    have r: "r = -1" "d = 0" using False p(5) by auto
    have "upa (mem s2) pt w \<noteq> pg" if "w < UPAGES" "valid (lf (mem s2) pt w)" for w
      using uspaceD(3) [OF u that(1)] that l [of w] r(2) ka(1) by (auto simp: upa_def UPAGES_def)
    then obtain s3 where s3: "kfree pg s2 = Ok s3" "uspace s3 pt" "memonly s2 s3"
      "free_set s3 = insert pg (free_set s2)" "nodes (mem s3) 2 pt = nodes (mem s2) 2 pt"
      "\<forall>v. lf (mem s3) pt v = lf (mem s2) pt v" "agree (mem s2) (mem s3) {q. legal (kend s2) q \<and> q \<noteq> pg}"
      using kfree_uspace [OF u2 _ pg] ka(2) ke by auto
    have "agree (mem s) (mem s3) {q. legal (kend s) q \<and> q \<notin> nodes (mem s) 2 pt \<and> q \<notin> free_set s}"
      by (rule agree_trans [OF agree_mono [OF p(9)] agree_mono [OF s3(7)]]) (use ka ke in auto)
    then have "kept pt s s3"
      using s3 kp ka(1,4) p(8) memonly_trans [OF ms s3(3)] unfolding kept_def by auto
    moreover have "card (free_set s) \<le> 3" using p(5,10) cd r by auto
    ultimately show ?thesis using r p(1) s3 l by (intro fail [of s2 s3]) auto
  qed
qed

text \<open>Giving back what a failed \<open>uvmalloc\<close> had mapped.\<close>

lemma int_page_count:
  assumes "k < 2 ^ 31"
  shows "scast (ucast (of_nat k :: uint64) :: uint) = (of_nat k :: uint64)"
proof -
  have "(ucast (of_nat k :: uint64) :: uint) = of_nat k"
    using assms take_bit_nat_eq_self [of k 64] by (simp add: unsigned_of_nat)
  moreover have "sint (of_nat k :: uint) = int k"
    using assms by (simp add: signed_of_nat signed_take_bit_int_eq_self)
  ultimately show ?thesis by (metis of_int_of_nat_eq signed_of_nat scast_eq)
qed

lemma uvmdealloc_pages:
  assumes u: "uspace s pt" and v: "v0 \<le> v" "v \<le> UPAGES"
    and a: "unat a = 4096 * v" "unat old = 4096 * v0"
  shows "\<exists>r s'. uvmdealloc pt a old s = Ok (r, s') \<and> unmapped pt v0 (v - v0) s s'"
proof (cases "v0 = v")
  case True
  then have "a = old" using a by (simp add: word_unat_eq_iff)
  moreover have "unmapped pt v0 (v - v0) s s"
    by (rule unmapped_refl [OF u]) (use True in \<open>auto simp: mapped_in_def\<close>)
  ultimately show ?thesis by (simp add: uvmdealloc_def)
next
  case False
  have B: "4096 * v < 2 ^ 38" using v by (simp add: UPAGES_def)
  have lt: "\<not> a \<le> old" using a False v by (simp add: word_le_nat_alt)
  have ru: "PGROUNDUP x = x" if "unat x = 4096 * w" "w \<le> v" for x :: uint64 and w
  proof -
    have "unat (PGROUNDUP x) = round_up (unat x)"
      by (rule unat_PGROUNDUP_round_up) (use that B in simp)
    also have "\<dots> = unat x" using that(1) round_up_least [of "unat x" "unat x"] round_up_ge [of "unat x"] by simp
    finally show ?thesis by (simp add: word_unat_eq_iff)
  qed
  have g: "PGROUNDUP a = a" "PGROUNDUP old = old" using ru a v(1) by auto
  have "unat ((a - old) div 4096) = v - v0"
  proof -
    have "unat (a - old) = 4096 * v - 4096 * v0" using lt a by (simp add: unat_sub_if' word_le_nat_alt)
    then show ?thesis by (simp add: unat_div diff_mult_distrib2 [symmetric])
  qed
  then have n: "(a - old) div 4096 = of_nat (v - v0)"
    using B by (simp add: word_unat_eq_iff unat_of_nat del: of_nat_diff)
  have c: "scast (ucast (of_nat (v - v0) :: uint64) :: uint) = (of_nat (v - v0) :: uint64)"
    by (rule int_page_count) (use v in \<open>simp add: UPAGES_def\<close>)
  have "\<exists>s'. uvmunmap pt old (of_nat (v - v0)) True s = Ok s' \<and> unmapped pt v0 (v - v0) s s'"
    by (rule uvmunmap_post [OF u a(2)]) (use v in simp)
  then show ?thesis using lt by (auto simp: uvmdealloc_def g n c Let_def not_le simp del: of_nat_diff)
qed

lemma grown_undo:
  assumes g: "grown pt v0 j fl s0 s" and k: "kept pt s s3" and l: "\<And>w. w < 2 ^ 26 \<Longrightarrow> lf (mem s3) pt w = lf (mem s) pt w"
    and un: "unmapped pt v0 j s3 s'" and b: "v0 + j \<le> 2 ^ 26"
  shows "kept pt s0 s'" "w < 2 ^ 26 \<Longrightarrow> lf (mem s') pt w = (if v0 \<le> w \<and> w < v0 + j then 0 else lf (mem s0) pt w)"
proof -
  have k3: "kept pt s0 s3" using kept_trans [OF _ k] g by (simp add: grown_def)
  have ke: "kend s3 = kend s0" using k3 memonly_kend by (auto simp: kept_def)
  have im: "upa (mem s3) pt ` mapped_in (mem s3) pt v0 j \<subseteq> free_set s0"
  proof
    fix p assume "p \<in> upa (mem s3) pt ` mapped_in (mem s3) pt v0 j"
    then obtain w where w: "v0 \<le> w" "w < v0 + j" "p = upa (mem s3) pt w" by (auto simp: mapped_in_def)
    then show "p \<in> free_set s0" using grown_in(1) [OF g w(1,2)] l [of w] b by (simp add: upa_def)
  qed
  have "agree (mem s0) (mem s') {q. legal (kend s0) q \<and> q \<notin> nodes (mem s0) 2 pt \<and> q \<notin> free_set s0}"
    by (rule agree_trans [OF _ agree_mono]) (use k3 un im ke in \<open>auto simp: kept_def unmapped_def\<close>)
  moreover have "memonly s0 s'" using memonly_trans k3 un by (auto simp: kept_def unmapped_def)
  ultimately show "kept pt s0 s'" using k3 un im by (auto simp: kept_def unmapped_def)
  show "lf (mem s') pt w = (if v0 \<le> w \<and> w < v0 + j then 0 else lf (mem s0) pt w)" if w: "w < 2 ^ 26"
  proof -
    have "valid (lf (mem s) pt w)" if "v0 \<le> w" "w < v0 + j" by (simp add: grown_in(2) [OF g that w])
    then show ?thesis using un w l [OF w] grown_out [OF g _ w] by (auto simp: unmapped_def mapped_in_def)
  qed
qed

lemma grown_snoc:
  assumes a: "grown pt v0 j fl s s1" and b: "grown pt (v0 + j) 1 fl s1 s2"
  shows "grown pt v0 (Suc j) fl s s2"
  unfolding grown_def
proof (intro conjI allI impI)
  show "kept pt s s2" using a b kept_trans by (auto simp: grown_def)
  show "card (free_set s) \<le> card (free_set s2) + 3 * Suc j" using a b by (simp add: grown_def)
  have sub: "free_set s1 \<subseteq> free_set s" using a by (simp add: grown_def kept_def)
  fix w :: nat assume w: "w < 2 ^ 26"
  note A = a [unfolded grown_def, THEN conjunct2, rule_format, OF w]
    and B = b [unfolded grown_def, THEN conjunct2, rule_format, OF w]
  show "if v0 \<le> w \<and> w < v0 + Suc j
        then \<exists>pg\<in>free_set s. lf (mem s2) pt w = PA2PTE pg OR fl OR PTE_V \<and> upa (mem s2) pt w = pg
        else lf (mem s2) pt w = lf (mem s) pt w"
  proof (cases "w = v0 + j")
    case True
    then show ?thesis using B sub by auto
  next
    case False
    then have "lf (mem s2) pt w = lf (mem s1) pt w" using B by auto
    with A False show ?thesis by (auto simp: upa_def split: if_splits)
  qed
qed

lemma uvmalloc_loop_post:
  assumes g: "grown pt v0 j fl s0 s" and fl: "leafy fl" "fl = PTE_R OR PTE_U OR xperm"
    and a: "unat a = 4096 * (v0 + j)" "unat old = 4096 * v0" and n: "j \<le> n" "v0 + n \<le> UPAGES"
    and H: "\<And>i. 4096 * (v0 + i) < unat newsz \<longleftrightarrow> i < n"
    and nv: "\<And>w. v0 \<le> w \<Longrightarrow> w < v0 + n \<Longrightarrow> \<not> valid (lf (mem s0) pt w)"
  shows "\<exists>r s'. uvmalloc_loop pt a old newsz xperm s = Ok (r, s') \<and>
    (r = newsz \<and> grown pt v0 n fl s0 s' \<or>
     r = 0 \<and> card (free_set s0) \<le> 3 * n \<and> kept pt s0 s' \<and>
       (\<exists>d<n. \<forall>w<2 ^ 26. lf (mem s') pt w = (if v0 \<le> w \<and> w < v0 + d then 0 else lf (mem s0) pt w)))"
  using g a n(1)
proof (induction "n - j" arbitrary: j a s)
  case 0
  then have "j = n" by simp
  then show ?case using 0 H [of n] by (simp add: uvmalloc_loop.simps word_less_nat_alt)
next
  case (Suc x)
  have j: "j < n" using Suc.hyps(2) by simp
  have lt: "a < newsz" using H [of j] j Suc.prems(2) by (simp add: word_less_nat_alt)
  have u: "uspace s pt" using Suc.prems(1) by (simp add: grown_def kept_def)
  have v: "v0 + j < UPAGES" using j n by simp
  have v26: "v0 + j < 2 ^ 26" using v by (simp add: UPAGES_def)
  have nvj: "\<not> valid (lf (mem s) pt (v0 + j))"
    using grown_out [OF Suc.prems(1) _ v26] nv [of "v0 + j"] j by simp
  obtain pg s1 where k: "kalloc s = (pg, s1)" by fastforce
  show ?case
  proof (cases "pg = 0")
    case True
    then have s1: "s1 = s" using k by (simp add: kalloc_def Let_def split: if_splits)
    obtain r s' where d: "uvmdealloc pt a old s = Ok (r, s')" "unmapped pt v0 j s s'"
      using uvmdealloc_pages [OF u _ _ Suc.prems(2,3)] v by auto
    have "uvmalloc_loop pt a old newsz xperm s = Ok (0, s')"
      using lt k True s1 d(1) by (subst uvmalloc_loop.simps) simp
    moreover have "card (free_set s0) \<le> 3 * n"
      using Suc.prems(1) kalloc_0 [OF u] k True j by (simp add: grown_def)
    ultimately show ?thesis using grown_undo [OF Suc.prems(1) kept_refl [OF u] _ d(2)] v26 j by fastforce
  next
    case False
    note step = grow_one [OF u Suc.prems(2) v nvj k False fl(1)]
    show ?thesis
    proof (cases rule: step)
      case (1 s2)
      have u1: "unat (a + 4096) = 4096 * (v0 + Suc j)"
        using Suc.prems(2) v by (simp add: unat_word_ariths UPAGES_def)
      have "uvmalloc_loop pt a old newsz xperm s = uvmalloc_loop pt (a + 4096) old newsz xperm s2"
        using lt k False 1(1) by (subst uvmalloc_loop.simps) (simp add: fl(2))
      then show ?thesis
        using Suc.hyps(1) [OF _ grown_snoc [OF Suc.prems(1) 1(2)] u1 Suc.prems(3)] Suc.hyps(2) j by auto
    next
      case (2 s2 s3)
      have u3: "uspace s3 pt" using 2(3) by (simp add: kept_def)
      obtain r s' where d: "uvmdealloc pt a old s3 = Ok (r, s')" "unmapped pt v0 j s3 s'"
        using uvmdealloc_pages [OF u3 _ _ Suc.prems(2,3)] v by auto
      have "uvmalloc_loop pt a old newsz xperm s = Ok (0, s')"
        using lt k False 2(1,2) d(1) by (subst uvmalloc_loop.simps) (simp add: fl(2))
      moreover have "card (free_set s0) \<le> 3 * n" using Suc.prems(1) 2(5) j by (simp add: grown_def)
      ultimately show ?thesis using grown_undo [OF Suc.prems(1) 2(3,4) d(2)] v26 j by fastforce
    qed
  qed
qed

lemma round_up_pages: "4096 * (round_up n div 4096) = round_up n"
  by (simp add: round_up_eq)

text \<open>Pages a growing step does not remap keep their contents.\<close>

lemma kept_ubyte:
  assumes u: "uspace s pt" and k: "kept pt s s'" and a: "a < 4096 * UPAGES"
    and l: "lf (mem s') pt (a div 4096) = lf (mem s) pt (a div 4096) \<or>
      \<not> valid (lf (mem s') pt (a div 4096)) \<and> \<not> valid (lf (mem s) pt (a div 4096))"
  shows "ubyte (mem s') pt a = ubyte (mem s) pt a"
proof (cases "valid (lf (mem s) pt (a div 4096))")
  case True
  have w: "a div 4096 < UPAGES" using a by (simp add: less_mult_imp_div_less mult.commute)
  have md: "a mod 4096 < 4096" by simp
  have "mem s' (unat (PTE2PA (lf (mem s) pt (a div 4096))) + a mod 4096) =
      mem s (unat (PTE2PA (lf (mem s) pt (a div 4096))) + a mod 4096)"
    using k uspaceD(1-3) [OF u w True] md by (simp add: kept_def agree_def)
  then show ?thesis using True l by (simp add: ubyte_def Let_def)
next
  case False
  then show ?thesis using l by (auto simp: ubyte_def Let_def)
qed

lemma uvmalloc_post:
  fixes oldsz newsz xperm
  defines "v0 \<equiv> round_up (unat oldsz) div 4096" and "vn \<equiv> round_up (unat newsz) div 4096"
    and "fl \<equiv> PTE_R OR PTE_U OR xperm"
  assumes u: "uspace s pt" and fl: "leafy fl"
    and sz: "unat oldsz \<le> unat newsz" "unat newsz \<le> 4096 * UPAGES"
    and nv: "\<And>w. v0 \<le> w \<Longrightarrow> w < vn \<Longrightarrow> \<not> valid (lf (mem s) pt w)"
  shows "\<exists>r s'. uvmalloc pt oldsz newsz xperm s = Ok (r, s') \<and>
    (r = newsz \<and> grown pt v0 (vn - v0) fl s s' \<or>
     r = 0 \<and> card (free_set s) \<le> 3 * (vn - v0) \<and> kept pt s s' \<and>
       (\<forall>a<4096 * UPAGES. ubyte (mem s') pt a = ubyte (mem s) pt a))"
proof -
  have B: "4096 * UPAGES < 2 ^ 38" by (simp add: UPAGES_def)
  have r0: "unat (PGROUNDUP oldsz) = 4096 * v0"
    using unat_PGROUNDUP_round_up [of oldsz] sz B by (simp add: v0_def round_up_pages)
  have rn: "round_up (unat newsz) = 4096 * vn" by (simp add: vn_def round_up_pages)
  have vn: "vn \<le> UPAGES" using round_up_least [OF sz(2)] rn by simp
  have H: "4096 * (v0 + i) < unat newsz \<longleftrightarrow> i < vn - v0" for i
  proof -
    have "unat newsz \<le> 4096 * vn" "4096 * vn < unat newsz + 4096"
      using round_up_ge [of "unat newsz"] round_up_less [of "unat newsz"] rn by auto
    then have "4096 * (v0 + i) < unat newsz \<longleftrightarrow> v0 + i < vn" by auto
    then show ?thesis by linarith
  qed
  have v0n: "v0 \<le> vn" unfolding v0_def vn_def round_up_eq using sz(1) by (simp add: div_le_mono)
  have "\<exists>r s'. uvmalloc_loop pt (PGROUNDUP oldsz) (PGROUNDUP oldsz) newsz xperm s = Ok (r, s') \<and>
    (r = newsz \<and> grown pt v0 (vn - v0) fl s s' \<or>
     r = 0 \<and> card (free_set s) \<le> 3 * (vn - v0) \<and> kept pt s s' \<and> (\<exists>d<vn - v0. \<forall>w<2 ^ 26. lf (mem s') pt w =
        (if v0 \<le> w \<and> w < v0 + d then 0 else lf (mem s) pt w)))"
    by (rule uvmalloc_loop_post [OF grown_0 [OF u] fl]) (use r0 v0n vn H nv in \<open>auto simp: fl_def\<close>)
  then obtain r s' where r: "uvmalloc_loop pt (PGROUNDUP oldsz) (PGROUNDUP oldsz) newsz xperm s = Ok (r, s')"
    "r = newsz \<and> grown pt v0 (vn - v0) fl s s' \<or>
     r = 0 \<and> card (free_set s) \<le> 3 * (vn - v0) \<and> kept pt s s' \<and> (\<exists>d<vn - v0. \<forall>w<2 ^ 26. lf (mem s') pt w =
        (if v0 \<le> w \<and> w < v0 + d then 0 else lf (mem s) pt w))" by blast
  have "ubyte (mem s') pt a = ubyte (mem s) pt a"
    if k: "kept pt s s'" and d: "d < vn - v0" and a: "a < 4096 * UPAGES"
      and l: "\<forall>w<2 ^ 26. lf (mem s') pt w = (if v0 \<le> w \<and> w < v0 + d then 0 else lf (mem s) pt w)" for a d
  proof (rule kept_ubyte [OF u k a])
    have "a div 4096 < 2 ^ 26" using a by (simp add: UPAGES_def less_mult_imp_div_less)
    moreover have "\<not> valid (lf (mem s) pt (a div 4096))" if "v0 \<le> a div 4096" "a div 4096 < v0 + d"
      by (rule nv) (use that d in auto)
    ultimately show "lf (mem s') pt (a div 4096) = lf (mem s) pt (a div 4096) \<or>
      \<not> valid (lf (mem s') pt (a div 4096)) \<and> \<not> valid (lf (mem s) pt (a div 4096))"
      using l by auto
  qed
  then show ?thesis using r sz(1) by (auto simp: uvmalloc_def word_less_nat_alt)
qed

section \<open>A process using its memory\<close>

text \<open>A process that may use user memory from \<open>a\<close> to \<open>b\<close>, and is not interfered with.\<close>

definition user_ready :: "nat \<Rightarrow> (uint64 \<Rightarrow> bool) \<Rightarrow> nat \<Rightarrow> nat \<Rightarrow> 'a kproc_scheme \<Rightarrow> bool" where
  "user_ready p ok a b s \<longleftrightarrow> uspace s (p_pagetable (procs s p)) \<and> b \<le> 4096 * UPAGES \<and> unlocked s \<and>
     cpu_proc s = Some p \<and>
     (\<forall>x. a \<le> x \<longrightarrow> x < b \<longrightarrow> ok (lf (mem s) (p_pagetable (procs s p)) (x div 4096)))"

lemma unat_user_addr:
  fixes addr :: uint64
  assumes "unat addr + n \<le> 4096 * UPAGES" "i \<le> n"
  shows "unat (addr + of_nat i) = unat addr + i"
proof -
  have "unat addr + i < 2 ^ 64" using assms by (simp add: UPAGES_def)
  then show ?thesis using assms by (simp add: unat_word_ariths unat_of_nat)
qed

lemma user_ready_cong:
  assumes "mem s = mem t" "freelist s = freelist t" "kend s = kend t" "cpu_proc s = cpu_proc t"
    "\<And>i. p_pagetable (procs s i) = p_pagetable (procs t i)" "\<And>i. p_lock (procs s i) = p_lock (procs t i)"
  shows "user_ready p ok a b s = user_ready p ok a b t"
  using assms uspace_cong [of s t] by (simp add: user_ready_def unlocked_def myproc_def)

lemma user_copyin1:
  assumes "user_ready p user_r (unat addr) (unat addr + n) s" "i < n"
  shows "copyin (p_pagetable (procs s p)) (addr + of_nat i) 1 s =
     Ok ((ubytes (mem s) (p_pagetable (procs s p)) (unat addr + i) 1, True), s)"
proof -
  have u: "unat (addr + of_nat i) = unat addr + i"
    using assms unat_user_addr [of addr n i] by (simp add: user_ready_def)
  have "copyin (p_pagetable (procs s p)) (addr + of_nat i) 1 s =
     Ok ((ubytes (mem s) (p_pagetable (procs s p)) (unat (addr + of_nat i)) 1, True), s)"
    by (rule copyin_post) (use assms in \<open>auto simp: user_ready_def u\<close>)
  then show ?thesis by (simp only: u)
qed

lemma user_copyout1:
  assumes "user_ready p user_w (unat addr) (unat addr + n) s" "i < n"
  shows "\<exists>m. copyout (p_pagetable (procs s p)) (addr + of_nat i) [c] s = Ok (0, s\<lparr>mem := m\<rparr>) \<and>
    user_ready p user_w (unat addr) (unat addr + n) (s\<lparr>mem := m\<rparr>) \<and>
    (\<forall>x<4096 * UPAGES. ubyte m (p_pagetable (procs s p)) x =
       (if x = unat addr + i then Some c else ubyte (mem s) (p_pagetable (procs s p)) x))"
proof -
  let ?pt = "p_pagetable (procs s p)"
  have u: "unat (addr + of_nat i) = unat addr + i"
    using assms unat_user_addr [of addr n i] by (simp add: user_ready_def)
  have us: "uspace s ?pt" "unat (addr + of_nat i) + length [c] \<le> 4096 * UPAGES"
    using assms by (auto simp: user_ready_def u)
  have w: "user_w (lf (mem s) ?pt (x div 4096))"
    if "unat (addr + of_nat i) \<le> x" "x < unat (addr + of_nat i) + length [c]" for x
    using assms that by (auto simp: user_ready_def u)
  obtain m where m: "copyout ?pt (addr + of_nat i) [c] s = Ok (0, s\<lparr>mem := m\<rparr>)" "uspace (s\<lparr>mem := m\<rparr>) ?pt"
    "\<forall>w. lf m ?pt w = lf (mem s) ?pt w"
    "\<forall>a<4096 * UPAGES. ubyte m ?pt a = (if unat (addr + of_nat i) \<le> a \<and> a < unat (addr + of_nat i) + length [c]
       then Some ([c] ! (a - unat (addr + of_nat i))) else ubyte (mem s) ?pt a)"
    using copyout_post [OF us w] by blast
  have "ubyte m ?pt x = (if x = unat addr + i then Some c else ubyte (mem s) ?pt x)" if "x < 4096 * UPAGES" for x
    using m(4) [rule_format, OF that] by (cases "x = unat addr + i") (auto simp: u split: if_splits)
  moreover have "user_ready p user_w (unat addr) (unat addr + n) (s\<lparr>mem := m\<rparr>)"
    using assms(1) m(2,3) by (simp add: user_ready_def unlocked_def myproc_def)
  ultimately show ?thesis using m(1) by blast
qed

section \<open>A first address space\<close>

text \<open>A root page at the end of the kernel and four free pages behind it, for concrete runs.\<close>

definition ex_mem :: bytes where
  "ex_mem = wr64 (wr64 (wr64 (\<lambda>_. 0) 0x87ff1000 0x87ff2000) 0x87ff2000 0x87ff3000) 0x87ff3000 0x87ff4000"

definition ex_syms :: ksyms where
  "ex_syms = \<lparr>sym_trampoline = 0x80006000, sym_uservec = 0x80006000, sym_userret = 0x8000609c,
     sym_usertrap = 0x80001d00, sym_forkret = 0x80001a00, sym_etext = 0x80007000\<rparr>"

definition ex_kproc :: kproc where
  "ex_kproc = boot_kproc ex_mem 0x87ff1000 0x87ff0000 ex_syms"

lemma ex_kproc_simps [simp]: "mem ex_kproc = ex_mem" "freelist ex_kproc = 0x87ff1000" "kend ex_kproc = 0x87ff0000"
  by (simp_all add: ex_kproc_def boot_kproc_def)

lemma ex_freepages: "freepages ex_kproc [0x87ff1000, 0x87ff2000, 0x87ff3000, 0x87ff4000]"
proof -
  have "rd64 ex_mem 0x87ff1000 = 0x87ff2000" "rd64 ex_mem 0x87ff2000 = 0x87ff3000" "rd64 ex_mem 0x87ff3000 = 0x87ff4000"
    by (simp_all add: ex_mem_def rd64_wr64_other)
  moreover have "rd64 ex_mem 0x87ff4000 = 0"
    by (simp add: ex_mem_def rd64_wr64_other) (simp add: rd64_def rd32_def)
  ultimately show ?thesis by (simp add: freepages_def page_ok_def param_defs)
qed

lemma ex_uspace: "uspace ex_kproc 0x87ff0000" "lf ex_mem 0x87ff0000 v = 0"
proof -
  have z: "ex_mem (unat (0x87ff0000::uint64) + i) = 0" if "i < 4096" for i
    using that by (simp add: ex_mem_def wr64_frame)
  have t: "ptree 0x87ff0000 ex_mem 2 0x87ff0000 \<and> nodes ex_mem 2 0x87ff0000 = {0x87ff0000} \<and> leaf ex_mem 2 0x87ff0000 va = 0" for va
    by (rule zero_tree) (use z in \<open>simp_all add: legal_def param_defs\<close>)
  then show l: "lf ex_mem 0x87ff0000 v = 0" for v by (simp add: lf_def)
  have "pt_ok ex_kproc 0x87ff0000"
    using t ex_freepages free_set_eq [OF ex_freepages] by (auto simp: pt_ok_def kmem_inv_def)
  then show "uspace ex_kproc 0x87ff0000" by (simp add: uspace_def l)
qed

lemma ex_card: "card (free_set ex_kproc) = 4"
  using free_set_eq [OF ex_freepages] by simp

lemma ex_leafy: "leafy (PTE_R OR PTE_U OR PTE_W)"
  by (simp add: leafy_def pte_bits)

lemma round_up_ex: "round_up 0 = 0" "round_up 4096 = 4096"
  by (simp_all add: round_up_def)

text \<open>An address space with one page, whatever else the state has.\<close>

lemma ex_user_page:
  assumes "mem t = ex_mem" "freelist t = 0x87ff1000" "kend t = 0x87ff0000"
  shows "\<exists>m f. uspace (t\<lparr>mem := m, freelist := f\<rparr>) 0x87ff0000 \<and> user_w (lf m 0x87ff0000 0)"
proof -
  obtain r s where r: "uvmalloc 0x87ff0000 0 4096 PTE_W ex_kproc = Ok (r, s)"
    "r = 4096 \<and> grown 0x87ff0000 0 1 (PTE_R OR PTE_U OR PTE_W) ex_kproc s \<or> card (free_set ex_kproc) \<le> 3"
    using uvmalloc_post [OF ex_uspace(1) ex_leafy, of 0 4096] ex_uspace(2)
    by (auto simp: round_up_ex UPAGES_def)
  then have g: "grown 0x87ff0000 0 1 (PTE_R OR PTE_U OR PTE_W) ex_kproc s" by (simp add: ex_card)
  then have u: "uspace s 0x87ff0000" "memonly ex_kproc s" by (simp_all add: grown_def kept_def)
  obtain e where e: "lf (mem s) 0x87ff0000 0 = e OR (PTE_R OR PTE_U OR PTE_W) OR PTE_V"
    using grown_in(2) [OF g, of 0] by auto
  have "bit (lf (mem s) 0x87ff0000 0) 4" "bit (lf (mem s) 0x87ff0000 0) 2"
    by (simp_all add: e pte_bits bit_simps)
  then have "bit (lf (mem s) 0x87ff0000 0 AND PTE_U) 4" "bit (lf (mem s) 0x87ff0000 0 AND PTE_W) 2"
    by (simp_all add: bit_and_iff) (simp_all add: pte_bits bit_simps)
  then have w: "user_w (lf (mem s) 0x87ff0000 0)"
    by (auto simp: user_w_def user_r_def e simp flip: or.assoc)
  have "kend s = 0x87ff0000" using u(2) by (auto simp: memonly_def)
  then have "uspace (t\<lparr>mem := mem s, freelist := freelist s\<rparr>) 0x87ff0000"
    using u(1) uspace_cong [of "t\<lparr>mem := mem s, freelist := freelist s\<rparr>" s] assms by simp
  with w show ?thesis by blast
qed

section \<open>Properties\<close>

text \<open>
  C23. \<open>mappages\<close> maps exactly the pages it is asked for.  On a well-formed page table with the
  range unmapped it never panics; on success every page of the range translates to the
  corresponding physical page with the given permissions and every other virtual page keeps its
  translation; on failure only a prefix of the range is mapped and physical memory is used up;
  the tree grows only by pages taken from the free list and nothing outside it is written.
\<close>

theorem mappages_maps_exactly:
  assumes "pt_ok s pt" "unat va mod 4096 = 0" "0 < n" "unat va + 4096 * n \<le> 2 ^ 38"
    and "\<forall>v<MAXVA. vpn va \<le> vpn v \<and> vpn v < vpn va + n \<longrightarrow> \<not> valid (leaf (mem s) 2 pt v)"
  shows "\<exists>r s' d. mappages pt va (of_nat (4096 * n)) pa perm s = Ok (r, s') \<and> pt_ok s' pt \<and>
    (\<forall>v<MAXVA. leaf (mem s') 2 pt v = (if vpn va \<le> vpn v \<and> vpn v < vpn va + d
       then PA2PTE (pa + of_nat (4096 * (vpn v - vpn va))) OR perm OR PTE_V else leaf (mem s) 2 pt v)) \<and>
    (r = 0 \<and> d = n \<or> r = -1 \<and> d < n \<and> free_set s' = {}) \<and>
    nodes (mem s') 2 pt - nodes (mem s) 2 pt = free_set s - free_set s' \<and>
    (\<forall>q i. legal (kend s) q \<longrightarrow> q \<notin> nodes (mem s) 2 pt \<longrightarrow> q \<notin> free_set s \<longrightarrow> i < 4096 \<longrightarrow>
       mem s' (unat q + i) = mem s (unat q + i))"
  using mappages_post [OF assms, of pa perm] unfolding mapped_from_def agree_def by blast

lemma ex_pt_ok: "pt_ok ex_kproc 0x87ff0000"
  using ex_uspace(1) by simp

lemma ex_leaf: "leaf ex_mem 2 0x87ff0000 va = 0"
  by (simp add: leaf_lf ex_uspace(2))

text \<open>Witness for C23: two pages mapped at address 0 of an empty table.\<close>

theorem mappages_maps_exactly_witness:
  "pt_ok ex_kproc 0x87ff0000 \<and> \<not> valid (leaf (mem ex_kproc) 2 0x87ff0000 0) \<and>
   (\<exists>r s'. mappages 0x87ff0000 0 0x2000 0x87ff8000 PTE_R ex_kproc = Ok (r, s') \<and> pt_ok s' 0x87ff0000)"
  using mappages_maps_exactly [of ex_kproc "0x87ff0000" 0 2 "0x87ff8000" PTE_R] ex_pt_ok
  by (auto simp: ex_leaf)



text \<open>
  C25. Copying to user space and back.  If every page under the range is mapped, user-accessible
  and writable, \<open>copyout\<close> succeeds, the process then sees exactly the bytes copied there and
  unchanged memory everywhere else, the address space stays well-formed, and \<open>copyin\<close> of the
  same range returns the same bytes.
\<close>

theorem copyout_copyin_roundtrip:
  assumes "uspace s pt" "unat va + length src \<le> 4096 * UPAGES"
    and "\<forall>a. unat va \<le> a \<longrightarrow> a < unat va + length src \<longrightarrow> user_w (lf (mem s) pt (a div 4096))"
  shows "\<exists>m. copyout pt va src s = Ok (0, s\<lparr>mem := m\<rparr>) \<and> uspace (s\<lparr>mem := m\<rparr>) pt \<and>
    copyin pt va (length src) (s\<lparr>mem := m\<rparr>) = Ok ((src, True), s\<lparr>mem := m\<rparr>) \<and>
    (\<forall>a<4096 * UPAGES. ubyte m pt a = (if unat va \<le> a \<and> a < unat va + length src
       then Some (src ! (a - unat va)) else ubyte (mem s) pt a))"
proof -
  obtain m where m: "copyout pt va src s = Ok (0, s\<lparr>mem := m\<rparr>)" "uspace (s\<lparr>mem := m\<rparr>) pt"
    "\<forall>w. lf m pt w = lf (mem s) pt w"
    "\<forall>a<4096 * UPAGES. ubyte m pt a = (if unat va \<le> a \<and> a < unat va + length src
       then Some (src ! (a - unat va)) else ubyte (mem s) pt a)"
    using copyout_post [OF assms(1,2)] assms(3) by blast
  have "copyin pt va (length src) (s\<lparr>mem := m\<rparr>) = Ok ((ubytes m pt (unat va) (length src), True), s\<lparr>mem := m\<rparr>)"
    using copyin_post [OF m(2) assms(2)] m(3) assms(3) by (simp add: user_w_def)
  moreover have "ubytes m pt (unat va) (length src) = src"
    by (rule nth_equalityI) (use m(4) assms(2) in auto)
  ultimately show ?thesis using m by auto
qed

text \<open>Witness for C25: two bytes at address 16 of the address space that one call of uvmalloc builds.\<close>

theorem copyout_copyin_roundtrip_witness:
  "\<exists>s m. uspace s 0x87ff0000 \<and> user_w (lf (mem s) 0x87ff0000 0) \<and>
     copyout 0x87ff0000 16 [7, 9] (s::kproc) = Ok (0, s\<lparr>mem := m\<rparr>) \<and>
     copyin 0x87ff0000 16 (length [7, 9 :: byte]) (s\<lparr>mem := m\<rparr>) = Ok (([7, 9], True), s\<lparr>mem := m\<rparr>)"
proof -
  obtain m0 f where u: "uspace (ex_kproc\<lparr>mem := m0, freelist := f\<rparr>) 0x87ff0000"
    and w: "user_w (lf m0 0x87ff0000 0)"
    using ex_user_page [of ex_kproc] by auto
  have z: "a div 4096 = 0" if "a < 18" for a :: nat using that by simp
  show ?thesis
    using copyout_copyin_roundtrip [OF u, of 16 "[7, 9]"] u w z
    by (intro exI [of _ "ex_kproc\<lparr>mem := m0, freelist := f\<rparr>"]) (auto simp: UPAGES_def)
qed

end
