(* ===== verification/Ring.thy ===== *)
theory Ring
  imports Prelude
begin

text \<open>
  Ring buffers indexed by counters that only ever grow and wrap around with their machine type: the
  console's input (\<^verbatim>\<open>kernel/console.c\<close>) and pipes (\<^verbatim>\<open>kernel/pipe.c\<close>) count in 32 bits, the rings
  of the disk driver (\<^verbatim>\<open>kernel/virtio_disk.c\<close>) in 16.  The slot of counter value \<open>w\<close> is
  \<open>unat w mod n\<close>.  The locale \<open>ring\<close> has the laws that hold when the number of slots divides the
  range of the counters.
\<close>

definition ring_list :: "nat \<Rightarrow> (nat \<Rightarrow> 'b) \<Rightarrow> 'w::len word \<Rightarrow> 'w word \<Rightarrow> 'b list" where
  "ring_list n f r w = map (\<lambda>i. f ((unat r + i) mod n)) [0..<unat (w - r)]"

lemma length_ring_list [simp]: "length (ring_list n f r w) = unat (w - r)"
  by (simp add: ring_list_def)

lemma ring_list_empty [simp]: "ring_list n f r r = []"
  by (simp add: ring_list_def)

lemma ring_list_eq_Nil [simp]: "ring_list n f r w = [] \<longleftrightarrow> r = w"
proof -
  have "ring_list n f r w = [] \<longleftrightarrow> unat (w - r) = 0" by (simp add: ring_list_def)
  also have "\<dots> \<longleftrightarrow> w - r = 0" by (simp add: unat_eq_0)
  also have "\<dots> \<longleftrightarrow> r = w" by auto
  finally show ?thesis .
qed

lemma unat_Suc_diff:
  fixes r w :: "'w::len word"
  assumes "unat (w - r) < n" "n < 2 ^ LENGTH('w)"
  shows "unat (w + 1 - r) = Suc (unat (w - r))"
proof -
  have "unat (w + 1 - r) = unat ((w - r) + 1)" by (simp add: algebra_simps)
  also have "\<dots> = (unat (w - r) + 1) mod 2 ^ LENGTH('w)"
    by (simp only: unat_word_ariths(1)) simp
  finally show ?thesis using assms by simp
qed

lemma unat_diff_Suc:
  fixes r w :: "'w::len word"
  assumes "r \<noteq> w"
  shows "unat (w - r) = Suc (unat (w - (r + 1)))"
proof -
  define d where "d = w - (r + 1)"
  have wr: "w - r = d + 1" by (simp add: d_def)
  have "unat (d + 1) = Suc (unat d) \<or> d + 1 = 0" by (metis unatSuc add.commute)
  moreover have "d + 1 \<noteq> 0" using assms wr by auto
  ultimately have "unat (d + 1) = Suc (unat d)" by blast
  then show ?thesis by (simp only: wr d_def [symmetric])
qed

locale ring =
  fixes n :: nat and ty :: "'w::len itself"
  assumes slots: "0 < n" "n dvd 2 ^ LENGTH('w)" "n < 2 ^ LENGTH('w)"
begin

lemma slot_add: "unat ((r :: 'w word) + of_nat i) mod n = (unat r + i) mod n"
proof -
  have "unat (r + of_nat i) = (unat r + i) mod 2 ^ LENGTH('w)"
    by (simp add: unat_word_ariths unat_of_nat mod_add_right_eq)
  with slots(2) show ?thesis by (simp add: mod_mod_cancel)
qed

lemma slot_Suc: "(unat ((r :: 'w word) + 1) + i) mod n = (unat r + Suc i) mod n"
proof -
  have "unat (r + 1) mod n = (unat r + 1) mod n" using slot_add [of r 1] by simp
  then have "(unat (r + 1) mod n + i) mod n = ((unat r + 1) mod n + i) mod n" by (simp only:)
  then show ?thesis by (simp only: mod_add_left_eq) simp
qed

lemma put:
  assumes "unat (w - (r :: 'w word)) < n"
  shows "ring_list n (f(unat w mod n := x)) r (w + 1) = ring_list n f r w @ [x]"
proof -
  have w: "unat w mod n = (unat r + unat (w - r)) mod n"
    using slot_add [of r "unat (w - r)"] by simp
  have ne: "(unat r + i) mod n \<noteq> (unat r + unat (w - r)) mod n" if "i < unat (w - r)" for i
  proof
    assume "(unat r + i) mod n = (unat r + unat (w - r)) mod n"
    then have "n dvd unat (w - r) - i" using that by (metis add_diff_cancel_left less_imp_le mod_eq_dvd_iff_nat nat_add_left_cancel_le)
    with that assms show False by (auto dest: dvd_imp_le)
  qed
  show ?thesis
    using ne by (auto simp: ring_list_def unat_Suc_diff [OF assms slots(3)] w)
qed

lemma take_head:
  assumes "(r :: 'w word) \<noteq> w"
  shows "ring_list n f r w = f (unat r mod n) # ring_list n f (r + 1) w"
  by (auto simp: ring_list_def unat_diff_Suc [OF assms] upt_rec [of 0 "Suc _"] map_Suc_upt [symmetric] slot_Suc
      simp del: upt_Suc)

lemma full_iff:
  assumes "unat (w - (r :: 'w word)) \<le> n"
  shows "w = r + of_nat n \<longleftrightarrow> unat (w - r) = n"
proof
  assume "w = r + of_nat n"
  then show "unat (w - r) = n" using slots(3) by (simp add: unat_of_nat)
next
  assume "unat (w - r) = n"
  then have "of_nat n = (of_nat (unat (w - r)) :: 'w word)" by simp
  then have "of_nat n = w - r" by simp
  then show "w = r + of_nat n" by (simp add: algebra_simps)
qed

lemma split_at:
  assumes "unat (w - (r :: 'w word)) + unat (e - w) < 2 ^ LENGTH('w)"
  shows "ring_list n f r e = ring_list n f r w @ ring_list n f w e"
    and "unat (e - r) = unat (w - r) + unat (e - w)"
proof -
  have "e - r = (w - r) + (e - w)" by simp
  then show u: "unat (e - r) = unat (w - r) + unat (e - w)"
    using assms by (simp only: unat_word_ariths(1)) simp
  have "(unat w + i) mod n = (unat r + (unat (w - r) + i)) mod n" for i
  proof -
    have "unat w mod n = (unat r + unat (w - r)) mod n" using slot_add [of r "unat (w - r)"] by simp
    then have "(unat w mod n + i) mod n = ((unat r + unat (w - r)) mod n + i) mod n" by (simp only:)
    then show ?thesis by (simp only: mod_add_left_eq add.assoc)
  qed
  then show "ring_list n f r e = ring_list n f r w @ ring_list n f w e"
    unfolding ring_list_def u by (intro nth_equalityI) (auto simp: nth_append)
qed

lemma put_keep:
  assumes "unat (w - (r :: 'w word)) + unat (e - w) < n"
  shows "ring_list n (f(unat e mod n := x)) r w = ring_list n f r w"
    and "ring_list n (f(unat e mod n := x)) w (e + 1) = ring_list n f w e @ [x]"
proof -
  show p: "ring_list n (f(unat e mod n := x)) w (e + 1) = ring_list n f w e @ [x]"
    by (rule put) (use assms in simp)
  have "unat (w - r) + unat (e - w) < 2 ^ LENGTH('w)" using assms slots(3) by simp
  note s1 = split_at [OF this]
  have "unat (e - w) < n" using assms by simp
  note e1 = unat_Suc_diff [OF this slots(3)]
  have "unat (w - r) + unat (e + 1 - w) < 2 ^ LENGTH('w)" using assms slots(3) e1 by simp
  note s2 = split_at(1) [OF this]
  have "unat (e - r) < n" using assms s1(2) by simp
  from put [OF this, of f x] have "ring_list n (f(unat e mod n := x)) r w @ ring_list n f w e @ [x] = ring_list n f r w @ ring_list n f w e @ [x]"
    unfolding s1(1) s2 p by simp
  then show "ring_list n (f(unat e mod n := x)) r w = ring_list n f r w" by simp
qed

lemma unput:
  assumes "(r :: 'w word) \<noteq> w"
  shows "ring_list n f r (w - 1) = butlast (ring_list n f r w)"
proof -
  have "unat (w - r) = Suc (unat (w - 1 - r))"
    using unat_diff_Suc [OF assms] by (simp add: algebra_simps)
  then show ?thesis by (simp add: ring_list_def butlast_append)
qed

lemma last_slot:
  assumes "(r :: 'w word) \<noteq> w"
  shows "last (ring_list n f r w) = f (unat (w - 1) mod n)"
proof -
  have "unat (w - r) = Suc (unat (w - 1 - r))"
    using unat_diff_Suc [OF assms] by (simp add: algebra_simps)
  moreover have "unat (w - 1) mod n = (unat r + unat (w - 1 - r)) mod n"
    using slot_add [of r "unat (w - 1 - r)"] by simp
  ultimately show ?thesis by (simp add: ring_list_def)
qed

end

end
