(* ===== verification/Console.thy ===== *)
theory Console
  imports Uart Addrspace Ring
begin

unbundle bit_operations_syntax

text \<open>
  The console, \<^verbatim>\<open>kernel/console.c\<close>: input through the ring of 128 characters that the interrupt
  handler fills and \<^verbatim>\<open>consoleread\<close> empties, output through \<^verbatim>\<open>uartwrite\<close>, and the interrupt handler
  of the serial line.
\<close>

definition killed :: "nat \<Rightarrow> 'a kproc_scheme \<Rightarrow> bool" where
  "killed p s = p_killed (procs s p)"

function consolewrite_loop :: "src \<Rightarrow> nat \<Rightarrow> nat \<Rightarrow> 'a kcons_scheme \<Rightarrow> (int \<times> 'a kcons_scheme) res" where
  "consolewrite_loop src i n s =
     (if i < n then
        let nn = min 32 (n - i) in
        bnd (either_copyin src nn s) (\<lambda>((xs, ok), s1).
          if \<not> ok then Ok (int i, s1)
          else case uartwrite xs s1 of
                 ([], s2) \<Rightarrow> consolewrite_loop (src_add src nn) (i + nn) n s2
               | (_ # _, s2) \<Rightarrow> Wait ''uart'')
      else Ok (int i, s))"
  by pat_completeness auto
termination
  by (relation "measure (\<lambda>(src, i, n, s). n - i)") auto

definition consolewrite :: "src \<Rightarrow> int \<Rightarrow> 'a kcons_scheme \<Rightarrow> (int \<times> 'a kcons_scheme) res" where
  "consolewrite src n s = consolewrite_loop src 0 (nat n) s"

fun consoleread_loop :: "dst \<Rightarrow> nat \<Rightarrow> nat \<Rightarrow> 'a kcons_scheme \<Rightarrow> (int \<times> 'a kcons_scheme) res" where
  "consoleread_loop dst 0 target s = Ok (int target, s)"
| "consoleread_loop dst (Suc k) target s =
     (let n = Suc k in
      if cons_r s = cons_w s then
        bnd (need_proc s) (\<lambda>p. if killed p s then Ok (-1, s) else Wait ''cons'')
      else let c = cons_buf s (unat (cons_r s) mod INPUT_BUF_SIZE);
               s1 = s\<lparr>cons_r := cons_r s + 1\<rparr>
           in if c = 4 then
                Ok (int target - int n, if n < target then s1\<lparr>cons_r := cons_r s1 - 1\<rparr> else s1)
              else bnd (either_copyout dst [c] s1) (\<lambda>(r, s2).
                     if r = -1 then Ok (int target - int n, s2)
                     else if c = 10 then Ok (int target - int k, s2)
                     else consoleread_loop (dst_add dst 1) k target s2))"

definition consoleread :: "dst \<Rightarrow> int \<Rightarrow> 'a kcons_scheme \<Rightarrow> (int \<times> 'a kcons_scheme) res" where
  "consoleread dst n s =
     (if n \<le> 0 then Ok (0, s) else consoleread_loop dst (nat n) (nat n) s)"

text \<open>The loop of control-U, with the number of characters there are to erase as its bound.\<close>

fun kill_line :: "nat \<Rightarrow> 'a kcons_scheme \<Rightarrow> 'a kcons_scheme res" where
  "kill_line 0 s = Ok s"
| "kill_line (Suc k) s =
     (if cons_e s \<noteq> cons_w s \<and> cons_buf s (unat (cons_e s - 1) mod INPUT_BUF_SIZE) \<noteq> 10
      then bnd (consputc None (s\<lparr>cons_e := cons_e s - 1\<rparr>)) (kill_line k)
      else Ok s)"

definition consoleintr :: "byte \<Rightarrow> 'a kcons_scheme \<Rightarrow> 'a kcons_scheme res" where
  "consoleintr c s =
     (if c = 0x10 then procdump s
      else if c = 0x15 then kill_line (unat (cons_e s - cons_w s)) s
      else if c = 8 \<or> c = 0x7f then
        if cons_e s \<noteq> cons_w s then consputc None (s\<lparr>cons_e := cons_e s - 1\<rparr>) else Ok s
      else if c \<noteq> 0 \<and> cons_e s - cons_r s < of_nat INPUT_BUF_SIZE then
        let c1 = (if c = 13 then 10 else c) in
        bnd (consputc (Some c1) s) (\<lambda>s1.
          let s2 = s1\<lparr>cons_buf := (cons_buf s1)(unat (cons_e s1) mod INPUT_BUF_SIZE := c1), cons_e := cons_e s1 + 1\<rparr> in
          if c1 = 10 \<or> c1 = 4 \<or> cons_e s2 - cons_r s2 = of_nat INPUT_BUF_SIZE
          then wakeup ChanCons (s2\<lparr>cons_w := cons_e s2\<rparr>) else Ok s2)
      else Ok s)"

definition consoleinit :: "'a kcons_scheme \<Rightarrow> 'a kcons_scheme" where
  "consoleinit s = (uartinit s)\<lparr>devsw_console := True\<rparr>"

text \<open>The characters that were waiting when the interrupt was taken.\<close>

fun uartintr_chars :: "nat \<Rightarrow> 'a kcons_scheme \<Rightarrow> 'a kcons_scheme res" where
  "uartintr_chars 0 s = Ok s"
| "uartintr_chars (Suc k) s =
     (case uartgetc s of
        (None, s1) \<Rightarrow> Ok s1
      | (Some c, s1) \<Rightarrow> bnd (consoleintr c s1) (uartintr_chars k))"

definition uartintr :: "'a kcons_scheme \<Rightarrow> 'a kcons_scheme res" where
  "uartintr s =
     bnd (if uart_idle s then wakeup ChanTx (s\<lparr>tx_busy := False\<rparr>) else Ok s)
       (\<lambda>s1. uartintr_chars (length (uart_rx s1)) s1)"

declare consolewrite_loop.simps [simp del]

section \<open>The input ring as lines\<close>

interpretation cons_ring: ring INPUT_BUF_SIZE "TYPE(32)"
  by unfold_locales (simp_all add: INPUT_BUF_SIZE_def)

text \<open>What readers may have, and the line being edited.\<close>

definition cons_lines :: "'a kcons_scheme \<Rightarrow> byte list \<times> byte list" where
  "cons_lines s = (ring_list INPUT_BUF_SIZE (cons_buf s) (cons_r s) (cons_w s),
                   ring_list INPUT_BUF_SIZE (cons_buf s) (cons_w s) (cons_e s))"

definition cons_ok :: "'a kcons_scheme \<Rightarrow> bool" where
  "cons_ok s \<longleftrightarrow> length (fst (cons_lines s)) + length (snd (cons_lines s)) \<le> INPUT_BUF_SIZE \<and>
     10 \<notin> set (snd (cons_lines s))"

text \<open>Line editing on the two lists.\<close>

definition line_edit :: "byte \<Rightarrow> byte list \<times> byte list \<Rightarrow> byte list \<times> byte list" where
  "line_edit c l =
     (case l of (ready, cur) \<Rightarrow>
        if c = 0x15 then (ready, [])
        else if c = 8 \<or> c = 0x7f then (ready, butlast cur)
        else if c = 0 \<or> length ready + length cur \<ge> INPUT_BUF_SIZE then l
        else let c1 = (if c = 13 then 10 else c); cur1 = cur @ [c1] in
             if c1 = 10 \<or> c1 = 4 \<or> length ready + length cur1 = INPUT_BUF_SIZE then (ready @ cur1, [])
             else (ready, cur1))"

section \<open>Echo\<close>

definition putc_ok :: "'a kcons_scheme \<Rightarrow> bool" where
  "putc_ok s \<longleftrightarrow> uart_idle s \<and> \<not> panicked s \<and> 0 \<le> noff (thiscpu s)"

definition echoed :: "'a kcons_scheme \<Rightarrow> 'a kcons_scheme \<Rightarrow> bool" where
  "echoed s s' \<longleftrightarrow> (\<exists>cpu ws. s' = s\<lparr>thiscpu := cpu, uart_writes := ws\<rparr> \<and> 0 \<le> noff cpu)"

lemma echoed_simps:
  assumes "echoed s s'"
  shows "cons_buf s' = cons_buf s" "cons_r s' = cons_r s" "cons_w s' = cons_w s" "cons_e s' = cons_e s"
    "cons_lines s' = cons_lines s" "unlocked s' = unlocked s" "putc_ok s \<Longrightarrow> putc_ok s'"
    "cons_ok s' = cons_ok s"
  using assms by (auto simp: echoed_def cons_lines_def unlocked_def myproc_def putc_ok_def cons_ok_def)

lemma echoedI: "s' = s\<lparr>thiscpu := cpu, uart_writes := ws\<rparr> \<Longrightarrow> 0 \<le> noff cpu \<Longrightarrow> echoed s s'"
  unfolding echoed_def by blast

lemma echoedE:
  assumes "echoed s s'"
  obtains cpu ws where "s' = s\<lparr>thiscpu := cpu, uart_writes := ws\<rparr>" "0 \<le> noff cpu"
  using assms unfolding echoed_def by blast

lemma echoed_trans:
  assumes "echoed s t" "echoed t u"
  shows "echoed s u"
proof -
  obtain cpu ws where t: "t = s\<lparr>thiscpu := cpu, uart_writes := ws\<rparr>" using assms(1) by (rule echoedE)
  obtain cpu' ws' where u: "u = t\<lparr>thiscpu := cpu', uart_writes := ws'\<rparr>" "0 \<le> noff cpu'" using assms(2) by (rule echoedE)
  show ?thesis by (rule echoedI [OF _ u(2), where ws = ws']) (simp add: t u)
qed

lemma uartputc_echo:
  assumes "putc_ok s"
  shows "\<exists>s'. uartputc_sync c s = Ok s' \<and> echoed s s'"
proof (cases "panicking s")
  case True
  with assms have "uartputc_sync c s = Ok (WriteReg THR c s)" by (simp add: uartputc_sync_def putc_ok_def WriteReg_def)
  moreover have "echoed s (WriteReg THR c s)" using assms
    unfolding echoed_def by (intro exI [of _ "thiscpu s"] exI) (auto simp: WriteReg_def putc_ok_def)
  ultimately show ?thesis by blast
next
  case False
  obtain cpu where "pop_off (push_off (thiscpu s)) = Ok cpu" "0 \<le> noff cpu"
    using assms by (auto simp: putc_ok_def)
  with False assms have "uartputc_sync c s = Ok (s\<lparr>thiscpu := cpu, uart_writes := uart_writes s @ [(THR, c)]\<rparr>)"
    by (simp add: uartputc_sync_def putc_ok_def WriteReg_def)
  with \<open>0 \<le> noff cpu\<close> show ?thesis by (auto simp: echoed_def)
qed

lemma consputc_echo:
  assumes "putc_ok s"
  shows "\<exists>s'. consputc c s = Ok s' \<and> echoed s s'"
proof (cases c)
  case None
  obtain s1 where s1: "uartputc_sync 8 s = Ok s1" "echoed s s1" using uartputc_echo [OF assms] by blast
  obtain s2 where s2: "uartputc_sync 0x20 s1 = Ok s2" "echoed s1 s2"
    using uartputc_echo echoed_simps(7) [OF s1(2) assms] by blast
  have "putc_ok s2" using echoed_simps(7) s1 s2 assms by blast
  then obtain s3 where s3: "uartputc_sync 8 s2 = Ok s3" "echoed s2 s3" using uartputc_echo by blast
  have "echoed s s3" using s1 s2 s3 echoed_trans by blast
  with None s1 s2 s3 show ?thesis by (simp add: consputc_def)
qed (simp add: consputc_def uartputc_echo [OF assms])

lemma kill_line_post:
  assumes "putc_ok s" "cons_ok s" "k = length (snd (cons_lines s))"
  shows "\<exists>s'. kill_line k s = Ok s' \<and> echoed (s\<lparr>cons_e := cons_w s\<rparr>) s'"
  using assms
proof (induction k arbitrary: s)
  case 0
  then have "cons_w s = cons_e s" by (simp add: cons_lines_def) (metis eq_iff_diff_eq_0 unat_eq_0)
  then have "s\<lparr>cons_e := cons_w s\<rparr> = s" by simp
  then show ?case using 0 unfolding echoed_def putc_ok_def by (auto intro!: exI [of _ "thiscpu s"] exI [of _ "uart_writes s"])
next
  case (Suc k)
  have ne: "cons_w s \<noteq> cons_e s" using Suc.prems(3) by (auto simp: cons_lines_def)
  have "last (snd (cons_lines s)) \<in> set (snd (cons_lines s))" using Suc.prems(3) by (intro last_in_set) auto
  then have nl: "cons_buf s (unat (cons_e s - 1) mod INPUT_BUF_SIZE) \<noteq> 10"
    using Suc.prems(2) cons_ring.last_slot [OF ne, of "cons_buf s"] by (auto simp: cons_ok_def cons_lines_def)
  define s1 where "s1 = s\<lparr>cons_e := cons_e s - 1\<rparr>"
  have l1: "cons_lines s1 = (fst (cons_lines s), butlast (snd (cons_lines s)))"
    by (simp add: s1_def cons_lines_def cons_ring.unput [OF ne])
  have "putc_ok s1" using Suc.prems(1) by (simp add: s1_def putc_ok_def)
  then obtain s2 where s2: "consputc None s1 = Ok s2" "echoed s1 s2" "putc_ok s2"
    using consputc_echo echoed_simps(7) by blast
  have "cons_ok s2" using Suc.prems(2) by (auto simp: cons_ok_def echoed_simps(5) [OF s2(2)] l1 dest: in_set_butlastD)
  moreover have "k = length (snd (cons_lines s2))" using Suc.prems(3) by (simp add: echoed_simps(5) [OF s2(2)] l1)
  ultimately obtain s' where s': "kill_line k s2 = Ok s'" "echoed (s2\<lparr>cons_e := cons_w s2\<rparr>) s'"
    using Suc.IH s2(3) by blast
  have "kill_line (Suc k) s = Ok s'" using ne nl s2(1) s'(1) by (simp add: s1_def)
  moreover have "echoed (s\<lparr>cons_e := cons_w s\<rparr>) s'"
  proof -
    obtain cpu ws where a: "s2 = s1\<lparr>thiscpu := cpu, uart_writes := ws\<rparr>" using s2(2) by (rule echoedE)
    obtain cpu' ws' where b: "s' = (s2\<lparr>cons_e := cons_w s2\<rparr>)\<lparr>thiscpu := cpu', uart_writes := ws'\<rparr>" "0 \<le> noff cpu'"
      using s'(2) by (rule echoedE)
    show ?thesis by (rule echoedI [OF _ b(2), where ws = ws']) (simp add: a b s1_def)
  qed
  ultimately show ?case by blast
qed

lemma cons_room:
  assumes "length (fst (cons_lines s)) + length (snd (cons_lines s)) \<le> INPUT_BUF_SIZE"
  shows "unat (cons_e s - cons_r s) = length (fst (cons_lines s)) + length (snd (cons_lines s))"
    and "cons_e s - cons_r s < of_nat INPUT_BUF_SIZE \<longleftrightarrow>
         length (fst (cons_lines s)) + length (snd (cons_lines s)) < INPUT_BUF_SIZE"
    and "cons_e s - cons_r s = of_nat INPUT_BUF_SIZE \<longleftrightarrow>
         length (fst (cons_lines s)) + length (snd (cons_lines s)) = INPUT_BUF_SIZE"
proof -
  have "unat (cons_w s - cons_r s) + unat (cons_e s - cons_w s) < 2 ^ 32"
    using assms by (simp add: cons_lines_def INPUT_BUF_SIZE_def)
  then show u: "unat (cons_e s - cons_r s) = length (fst (cons_lines s)) + length (snd (cons_lines s))"
    using cons_ring.split_at(2) [of "cons_w s" "cons_r s" "cons_e s"] by (simp add: cons_lines_def)
  show "cons_e s - cons_r s < of_nat INPUT_BUF_SIZE \<longleftrightarrow>
         length (fst (cons_lines s)) + length (snd (cons_lines s)) < INPUT_BUF_SIZE"
    by (simp add: word_less_nat_alt u INPUT_BUF_SIZE_def)
  show "cons_e s - cons_r s = of_nat INPUT_BUF_SIZE \<longleftrightarrow>
         length (fst (cons_lines s)) + length (snd (cons_lines s)) = INPUT_BUF_SIZE"
    by (simp add: word_unat_eq_iff u INPUT_BUF_SIZE_def)
qed

text \<open>A character that is neither control-P nor an editing key.\<close>

lemma consoleintr_char:
  assumes "cons_ok s" "putc_ok s" "unlocked s" "c \<noteq> 0x10" "c \<noteq> 0x15" "c \<noteq> 8" "c \<noteq> 0x7f"
  shows "\<exists>s'. consoleintr c s = Ok s' \<and> cons_lines s' = line_edit c (cons_lines s) \<and> cons_ok s' \<and> putc_ok s'"
proof -
  obtain ready cur where l: "cons_lines s = (ready, cur)" by fastforce
  show ?thesis
  proof (cases "c \<noteq> 0 \<and> length ready + length cur < INPUT_BUF_SIZE")
    case False
    then show ?thesis using assms l cons_room(2) [of s] by (auto simp: consoleintr_def line_edit_def cons_ok_def)
  next
    case True
    define c1 where "c1 = (if c = 13 then 10 else c)"
    obtain s1 where s1: "consputc (Some c1) s = Ok s1" "echoed s s1" "putc_ok s1"
      using consputc_echo [OF assms(2)] echoed_simps(7) assms(2) by blast
    note e = echoed_simps [OF s1(2)]
    define s2 where "s2 = s1\<lparr>cons_buf := (cons_buf s1)(unat (cons_e s1) mod INPUT_BUF_SIZE := c1), cons_e := cons_e s1 + 1\<rparr>"
    have len: "unat (cons_w s - cons_r s) + unat (cons_e s - cons_w s) < INPUT_BUF_SIZE"
      using True l by (auto simp: cons_lines_def)
    have l2: "cons_lines s2 = (ready, cur @ [c1])"
      using l cons_ring.put_keep [OF len, of "cons_buf s" c1] by (simp add: s2_def cons_lines_def e)
    define s3 where "s3 = woken ChanCons (s2\<lparr>cons_w := cons_e s2\<rparr>)"
    have r: "cons_e s2 - cons_r s2 = of_nat INPUT_BUF_SIZE \<longleftrightarrow> length ready + length (cur @ [c1]) = INPUT_BUF_SIZE"
      using cons_room(3) [of s2] l2 True by simp
    have u: "unat (cons_w s2 - cons_r s2) + unat (cons_e s2 - cons_w s2) < 2 ^ LENGTH(32)"
    proof -
      have "unat (cons_w s2 - cons_r s2) = length (fst (cons_lines s2))" "unat (cons_e s2 - cons_w s2) = length (snd (cons_lines s2))"
        by (simp_all add: cons_lines_def)
      then show ?thesis using l2 True by (simp add: INPUT_BUF_SIZE_def)
    qed
    have l3: "cons_lines s3 = (ready @ cur @ [c1], [])"
      using l2 cons_ring.split_at(1) [OF u, of "cons_buf s2"] by (auto simp: s3_def woken_def cons_lines_def)
    have k: "unlocked s2" "putc_ok s2" using assms(3) s1(3) e(6) by (auto simp: s2_def putc_ok_def unlocked_def myproc_def)
    have "unlocked (s2\<lparr>cons_w := cons_e s2\<rparr>)" using k(1) by (simp add: unlocked_def myproc_def)
    note wk = wakeup_unlocked [OF this, of ChanCons, folded s3_def]
    have "consoleintr c s = (if c1 = 10 \<or> c1 = 4 \<or> cons_e s2 - cons_r s2 = of_nat INPUT_BUF_SIZE
        then wakeup ChanCons (s2\<lparr>cons_w := cons_e s2\<rparr>) else Ok s2)"
      using assms True l s1(1) cons_room(2) [of s]
      by (auto simp: consoleintr_def cons_ok_def c1_def [symmetric] s2_def Let_def)
    then have c: "consoleintr c s = Ok (if c1 = 10 \<or> c1 = 4 \<or> length ready + length (cur @ [c1]) = INPUT_BUF_SIZE then s3 else s2)"
      by (simp only: r wk if_distrib [of Ok])
    have "putc_ok s3" using k(2) by (simp add: s3_def woken_def putc_ok_def)
    then show ?thesis using c l l2 l3 k True assms(1,5-7)
      by (auto simp: line_edit_def c1_def [symmetric] Let_def cons_ok_def)
  qed
qed

section \<open>Reading a line\<close>

text \<open>What a read of up to \<open>n\<close> characters delivers of the characters that are ready, and what it leaves:
  it stops after a newline and before a control-D.\<close>

fun take_line :: "nat \<Rightarrow> byte list \<Rightarrow> byte list \<times> byte list" where
  "take_line 0 xs = ([], xs)"
| "take_line (Suc n) [] = ([], [])"
| "take_line (Suc n) (c # xs) =
     (if c = 4 then ([], c # xs) else if c = 10 then ([c], xs)
      else case take_line n xs of (d, r) \<Rightarrow> (c # d, r))"

text \<open>A control-D is used up by a read that delivers nothing.\<close>

definition after_read :: "nat \<Rightarrow> byte list \<Rightarrow> byte list" where
  "after_read n xs = (case take_line n xs of (d, r) \<Rightarrow> if d = [] \<and> 0 < n then tl r else r)"

definition line_ready :: "nat \<Rightarrow> byte list \<Rightarrow> bool" where
  "line_ready n xs \<longleftrightarrow> n \<le> length xs \<or> 4 \<in> set xs \<or> 10 \<in> set xs"

lemma consoleread_loop_post:
  assumes "user_ready p user_w (unat addr) (unat addr + N) s" "k \<le> N"
    "xs = ring_list INPUT_BUF_SIZE (cons_buf s) (cons_r s) (cons_w s)" "line_ready k xs" "take_line k xs = (d, rest)"
  shows "\<exists>m r. consoleread_loop (UserDst (addr + of_nat (N - k))) k N s =
      Ok (int (N - k + length d), s\<lparr>mem := m, cons_r := r\<rparr>) \<and>
    ring_list INPUT_BUF_SIZE (cons_buf s) r (cons_w s) = (if d = [] \<and> 0 < k \<and> k = N then tl rest else rest) \<and>
    (\<forall>x<4096 * UPAGES. ubyte m (p_pagetable (procs s p)) x =
       (if unat addr + (N - k) \<le> x \<and> x < unat addr + (N - k) + length d then Some (d ! (x - (unat addr + (N - k))))
        else ubyte (mem s) (p_pagetable (procs s p)) x))"
  using assms
proof (induction k arbitrary: s xs d)
  case 0
  then show ?case by (intro exI [of _ "mem s"] exI [of _ "cons_r s"]) auto
next
  case (Suc k)
  let ?pt = "p_pagetable (procs s p)" and ?b = "cons_buf s"
  obtain c ys where xs: "xs = c # ys" using Suc.prems(4) by (cases xs) (auto simp: line_ready_def)
  have ne: "cons_r s \<noteq> cons_w s" using Suc.prems(3) xs by (metis list.distinct(1) ring_list_empty)
  have c: "c = ?b (unat (cons_r s) mod INPUT_BUF_SIZE)"
    and ys: "ys = ring_list INPUT_BUF_SIZE ?b (cons_r s + 1) (cons_w s)"
    using cons_ring.take_head [OF ne, of ?b] Suc.prems(3) xs by auto
  define s1 where "s1 = s\<lparr>cons_r := cons_r s + 1\<rparr>"
  show ?case
  proof (cases "c = 4")
    case True
    have "consoleread_loop (UserDst (addr + of_nat (N - Suc k))) (Suc k) N s =
        Ok (int N - int (Suc k), if Suc k < N then s else s1)"
      using ne True c by (simp add: s1_def)
    moreover have "d = []" "rest = c # ys" "tl rest = ys" using Suc.prems(5) xs True by auto
    moreover have "int N - int (Suc k) = int (N - Suc k + length [])" using Suc.prems(2) by simp
    ultimately show ?thesis using Suc.prems(2,3) xs ys
      by (intro exI [of _ "mem s"], intro exI [of _ "if Suc k < N then cons_r s else cons_r s + 1"])
        (auto simp: s1_def simp del: consoleread_loop.simps of_nat_diff)
  next
    case False
    let ?i = "N - Suc k"
    have i: "?i < N" "?i + 1 = N - k" using Suc.prems(2) by auto
    have "user_ready p user_w (unat addr) (unat addr + N) s1"
      using Suc.prems(1) user_ready_cong [of s1 s] by (simp add: s1_def)
    then obtain m1 where m1: "copyout ?pt (addr + of_nat ?i) [c] s1 = Ok (0, s1\<lparr>mem := m1\<rparr>)"
      "user_ready p user_w (unat addr) (unat addr + N) (s1\<lparr>mem := m1\<rparr>)"
      "\<forall>x<4096 * UPAGES. ubyte m1 ?pt x = (if x = unat addr + ?i then Some c else ubyte (mem s) ?pt x)"
      using user_copyout1 [of p addr N s1 ?i c] i(1) by (auto simp: s1_def)
    define s2 where "s2 = s1\<lparr>mem := m1\<rparr>"
    have "cpu_proc s1 = Some p" using Suc.prems(1) by (simp add: s1_def user_ready_def)
    then have eo: "either_copyout (UserDst (addr + of_nat ?i)) [c] s1 = Ok (0, s2)"
      using m1(1) by (simp add: need_proc_def myproc_def s1_def s2_def)
    show ?thesis
    proof (cases "c = 10")
      case True
      have "consoleread_loop (UserDst (addr + of_nat ?i)) (Suc k) N s = Ok (int N - int k, s2)"
        using ne True c eo by (simp add: s1_def)
      moreover have "d = [c]" "rest = ys" using Suc.prems(5) xs True by auto
      moreover have "int N - int k = int (?i + length [c])" using Suc.prems(2) by simp
      ultimately show ?thesis using ys m1(3)
        by (intro exI [of _ m1], intro exI [of _ "cons_r s + 1"])
          (auto simp: s2_def s1_def simp del: consoleread_loop.simps of_nat_diff)
    next
      case False
      with \<open>c \<noteq> 4\<close> obtain d' where d': "take_line k ys = (d', rest)" "d = c # d'"
        using Suc.prems(5) xs by (auto split: prod.splits)
      have lr: "line_ready k ys" using Suc.prems(4) xs \<open>c \<noteq> 4\<close> False by (auto simp: line_ready_def)
      have r2: "user_ready p user_w (unat addr) (unat addr + N) s2" using m1(2) by (simp add: s2_def)
      have ys2: "ys = ring_list INPUT_BUF_SIZE (cons_buf s2) (cons_r s2) (cons_w s2)" using ys by (simp add: s2_def s1_def)
      have kN: "k \<le> N" "k \<noteq> N" using Suc.prems(2) by auto
      obtain m r where m: "consoleread_loop (UserDst (addr + of_nat (N - k))) k N s2 =
          Ok (int (N - k + length d'), s2\<lparr>mem := m, cons_r := r\<rparr>)"
        "ring_list INPUT_BUF_SIZE (cons_buf s2) r (cons_w s2) = rest"
        "\<forall>x<4096 * UPAGES. ubyte m (p_pagetable (procs s2 p)) x =
           (if unat addr + (N - k) \<le> x \<and> x < unat addr + (N - k) + length d' then Some (d' ! (x - (unat addr + (N - k))))
            else ubyte (mem s2) (p_pagetable (procs s2 p)) x)"
        using Suc.IH [OF r2 kN(1) ys2 lr d'(1)] kN(2) by auto
      have "addr + of_nat ?i + 1 = addr + of_nat (N - k)" by (simp add: i(2) [symmetric] algebra_simps)
      then have "consoleread_loop (UserDst (addr + of_nat ?i)) (Suc k) N s =
          consoleread_loop (UserDst (addr + of_nat (N - k))) k N s2"
        using ne False \<open>c \<noteq> 4\<close> c eo by (simp add: s1_def add.assoc)
      moreover have "N - k + length d' = ?i + length d" using i(2) d'(2) by simp
      moreover have "ubyte m ?pt x = (if unat addr + ?i \<le> x \<and> x < unat addr + ?i + length d
          then Some (d ! (x - (unat addr + ?i))) else ubyte (mem s) ?pt x)" if "x < 4096 * UPAGES" for x
      proof -
        have a: "unat addr + (N - k) = Suc (unat addr + ?i)" using i(2) by simp
        have "p_pagetable (procs s2 p) = ?pt" "mem s2 = m1" by (simp_all add: s2_def s1_def)
        with m(3) [rule_format, OF that] m1(3) [rule_format, OF that] show ?thesis
          unfolding d'(2) window_Cons [symmetric] a by (simp only:)
      qed
      ultimately show ?thesis using m(1,2) d'(2)
        by (intro exI [of _ m], intro exI [of _ r]) (simp add: s2_def s1_def del: consoleread_loop.simps of_nat_diff)
    qed
  qed
qed

section \<open>Properties\<close>

text \<open>A state whose only process has a page table but no memory yet, with an idle console.\<close>

definition ex_kcons :: kcons where
  "ex_kcons =
     \<lparr>mem = ex_mem, freelist = 0x87ff1000, kend = 0x87ff0000,
      procs = (\<lambda>i. if i = 0 then zero_proc\<lparr>p_state := RUNNING, p_pid := 1, p_pagetable := 0x87ff0000\<rparr> else zero_proc),
      cpu_proc = Some 0, thiscpu = \<lparr>noff = 0, intena = False, sie = True\<rparr>, cpu_context = zero_context, hart = 0,
      initproc = Some 0, nextpid = 2, wait_lock = initlock, ticks = 0, kernel_pagetable = 0, ksym = ex_syms,
      disk = (\<lambda>_ _. 0), bview = (\<lambda>_ _. 0), wtrace = [], log_start = 2, log_outstanding = 0, log_committing = False,
      log_dev = 1, log_lh = [],
      sb = \<lparr>sb_magic = FSMAGIC, sb_size = 2000, sb_nblocks = 1954, sb_ninodes = 200, sb_nlog = 31, sb_logstart = 2,
            sb_inodestart = 33, sb_bmapstart = 46\<rparr>,
      itable = (\<lambda>_. \<lparr>i_dev = 0, i_inum = 0, i_ref = 0, i_lock = initsleeplock, i_valid = False, i_type = 0, i_major = 0,
                     i_minor = 0, i_nlink = 0, i_size = 0, i_addrs = (\<lambda>_. 0)\<rparr>),
      uart_writes = [], uart_rx = [], uart_idle = True, tx_busy = False, panicking = False, panicked = False,
      cons_buf = (\<lambda>_. 0), cons_r = 0, cons_w = 0, cons_e = 0, devsw_console = True\<rparr>"

text \<open>
  C14. The interrupt handler edits lines.  With the counters abstracted to the characters that readers may
  have and those of the line being typed, every character but control-P acts as \<open>line_edit\<close>:
  control-U erases the line being typed and nothing else, backspace and delete its last character,
  a full buffer drops the character, and a newline, control-D or a full buffer hands the line to the
  readers.  The buffer never holds more than its 128 characters and the handler never panics.
\<close>

theorem consoleintr_edits_lines:
  assumes "cons_ok s" "putc_ok s" "unlocked s" "c \<noteq> 0x10"
  shows "\<exists>s'. consoleintr c s = Ok s' \<and> cons_lines s' = line_edit c (cons_lines s) \<and> cons_ok s' \<and> putc_ok s'"
proof -
  obtain ready cur where l: "cons_lines s = (ready, cur)" by fastforce
  consider (kill) "c = 0x15" | (bs) "c = 8 \<or> c = 0x7f" | (other) "c \<noteq> 0x15" "c \<noteq> 8" "c \<noteq> 0x7f" by blast
  then show ?thesis
  proof cases
    case kill
    obtain s' where s': "kill_line (length cur) s = Ok s'" "echoed (s\<lparr>cons_e := cons_w s\<rparr>) s'"
      using kill_line_post [OF assms(2,1)] l by auto
    have "unat (cons_e s - cons_w s) = length cur" using l by (auto simp: cons_lines_def)
    moreover have "cons_lines (s\<lparr>cons_e := cons_w s\<rparr>) = (ready, [])" using l by (auto simp: cons_lines_def)
    moreover have "putc_ok (s\<lparr>cons_e := cons_w s\<rparr>)" using assms(2) by (simp add: putc_ok_def)
    ultimately show ?thesis
      using s' kill assms(1) l echoed_simps(5,7) [OF s'(2)] by (simp add: consoleintr_def line_edit_def cons_ok_def)
  next
    case bs
    show ?thesis
    proof (cases "cons_e s = cons_w s")
      case True
      then have "cur = []" using l by (auto simp: cons_lines_def)
      then show ?thesis using True bs assms l by (auto simp: consoleintr_def line_edit_def)
    next
      case False
      define s1 where "s1 = s\<lparr>cons_e := cons_e s - 1\<rparr>"
      have l1: "cons_lines s1 = (ready, butlast cur)"
        using l False cons_ring.unput [of "cons_w s" "cons_e s"] by (auto simp: s1_def cons_lines_def)
      have "putc_ok s1" using assms(2) by (simp add: s1_def putc_ok_def)
      then obtain s2 where s2: "consputc None s1 = Ok s2" "echoed s1 s2" "putc_ok s2"
        using consputc_echo echoed_simps(7) by blast
      have "consoleintr c s = Ok s2" using bs False s2(1) by (auto simp: consoleintr_def s1_def)
      moreover have "cons_lines s2 = line_edit c (cons_lines s)"
        using bs l l1 by (auto simp: echoed_simps(5) [OF s2(2)] line_edit_def)
      moreover have "cons_ok s2"
        using assms(1) l l1 by (auto simp: cons_ok_def echoed_simps(5) [OF s2(2)] dest: in_set_butlastD)
      ultimately show ?thesis using s2(3) by blast
    qed
  next
    case other
    then show ?thesis using consoleintr_char [OF assms(1-4)] by blast
  qed
qed

text \<open>Witness for C14: a letter typed into an empty console.\<close>

theorem consoleintr_edits_lines_witness:
  "\<exists>s'. consoleintr 0x61 ex_kcons = Ok s' \<and> cons_lines s' = ([], [0x61])"
proof -
  have "cons_ok ex_kcons" "putc_ok ex_kcons" "unlocked ex_kcons" and l: "cons_lines ex_kcons = ([], [])"
    by (simp_all add: ex_kcons_def cons_ok_def cons_lines_def putc_ok_def unlocked_def zero_proc_def initlock_def)
  then show ?thesis
    using consoleintr_edits_lines [of ex_kcons "0x61"] by (auto simp: line_edit_def INPUT_BUF_SIZE_def)
qed

text \<open>
  C15. A read from the console delivers a line.  When a whole line, an end of file or enough characters
  are ready, \<open>consoleread\<close> copies to user memory the characters up to and including the first newline,
  at most as many as asked for, and stops before a control-D, which it consumes exactly when it has
  nothing else to deliver; it returns the number of characters and changes no other user byte.
\<close>

theorem consoleread_returns_line:
  assumes "user_ready p user_w (unat addr) (unat addr + n) s" "0 < n"
    and "line_ready n (fst (cons_lines s))" "take_line n (fst (cons_lines s)) = (d, rest)"
  shows "\<exists>s'. consoleread (UserDst addr) (int n) s = Ok (int (length d), s') \<and>
    cons_lines s' = (after_read n (fst (cons_lines s)), snd (cons_lines s)) \<and>
    (\<forall>x<4096 * UPAGES. ubyte (mem s') (p_pagetable (procs s p)) x =
       (if unat addr \<le> x \<and> x < unat addr + length d then Some (d ! (x - unat addr))
        else ubyte (mem s) (p_pagetable (procs s p)) x))"
proof -
  obtain m r where m: "consoleread_loop (UserDst addr) n n s = Ok (int (length d), s\<lparr>mem := m, cons_r := r\<rparr>)"
    "ring_list INPUT_BUF_SIZE (cons_buf s) r (cons_w s) = (if d = [] \<and> 0 < n then tl rest else rest)"
    "\<forall>x<4096 * UPAGES. ubyte m (p_pagetable (procs s p)) x =
       (if unat addr \<le> x \<and> x < unat addr + length d then Some (d ! (x - unat addr))
        else ubyte (mem s) (p_pagetable (procs s p)) x)"
    using consoleread_loop_post [OF assms(1) order_refl _ assms(3,4)]
    by (auto simp: cons_lines_def simp del: consoleread_loop.simps)
  have "after_read n (fst (cons_lines s)) = (if d = [] \<and> 0 < n then tl rest else rest)"
    using assms(4) by (simp add: after_read_def)
  moreover have "consoleread (UserDst addr) (int n) s = Ok (int (length d), s\<lparr>mem := m, cons_r := r\<rparr>)"
    using assms(2) m(1) by (simp add: consoleread_def del: consoleread_loop.simps)
  ultimately show ?thesis using m(2,3)
    by (intro exI [of _ "s\<lparr>mem := m, cons_r := r\<rparr>"]) (simp add: cons_lines_def)
qed

text \<open>Witness for C15: the line holds one letter and a newline, and two characters are asked for.\<close>

theorem consoleread_returns_line_witness:
  "\<exists>(s :: kcons) s'. user_ready 0 user_w 16 18 s \<and> fst (cons_lines s) = [0x61, 10] \<and>
     consoleread (UserDst 16) 2 s = Ok (2, s') \<and> cons_lines s' = ([], [])"
proof -
  define t where "t = ex_kcons\<lparr>cons_buf := (\<lambda>_. 0)(0 := 0x61, 1 := 10), cons_w := 2, cons_e := 2\<rparr>"
  obtain m f where u: "uspace (t\<lparr>mem := m, freelist := f\<rparr>) 0x87ff0000" "user_w (lf m 0x87ff0000 0)"
    using ex_user_page [of t] by (auto simp: t_def ex_kcons_def)
  define s where "s = t\<lparr>mem := m, freelist := f\<rparr>"
  have z: "x div 4096 = 0" if "x < 18" for x :: nat using that by simp
  have r: "user_ready 0 user_w (unat (16::uint64)) (unat (16::uint64) + 2) s"
    using u z by (auto simp: user_ready_def unlocked_def s_def t_def ex_kcons_def zero_proc_def initlock_def UPAGES_def)
  have l: "cons_lines s = ([0x61, 10], [])"
    by (simp add: cons_lines_def s_def t_def ex_kcons_def ring_list_def INPUT_BUF_SIZE_def upt_rec)
  have "take_line (Suc (Suc 0)) [0x61, 10] = ([0x61, 10], [])" by simp
  then have "take_line 2 [0x61, 10] = ([0x61, 10], [])" by (simp only: numeral_2_eq_2)
  then obtain s' where "consoleread (UserDst 16) 2 s = Ok (2, s')" "cons_lines s' = ([], [])"
    using consoleread_returns_line [OF r, of "[0x61, 10]" "[]"] l by (auto simp: line_ready_def after_read_def)
  with r l show ?thesis by - (rule exI [of _ s], rule exI [of _ s'], simp)
qed

end
