(* ===== verification/Pipe.thy ===== *)
theory Pipe
  imports Console
begin

text \<open>
  Pipes, \<^verbatim>\<open>kernel/pipe.c\<close>.  A pipe occupies a page of its own, so it is found in \<open>pipes\<close> by the address
  of its page, which \<^verbatim>\<open>kalloc\<close> and \<^verbatim>\<open>kfree\<close> account for.  A transfer that has to wait for the other side
  returns \<open>Sleeping i\<close>: the bytes before \<open>i\<close> have gone through and the call goes on from \<open>i\<close> when
  it is woken.  The table of open files, \<^verbatim>\<open>struct file\<close> of \<^verbatim>\<open>kernel/file.h\<close>, is declared here too,
  because a pipe and its two files are made together.
\<close>

definition PIPESIZE :: nat where [param_defs]: "PIPESIZE = 512"
definition CONSOLE :: nat where [param_defs]: "CONSOLE = 1"

record pipe =
  pi_data :: "nat \<Rightarrow> byte"
  pi_nread :: uint
  pi_nwrite :: uint
  pi_readopen :: bool
  pi_writeopen :: bool

datatype fdtype = FD_NONE | FD_PIPE | FD_INODE | FD_DEVICE

record filerec =
  f_type :: fdtype
  f_ref :: int
  f_readable :: byte
  f_writable :: byte
  f_pipe :: uint64
  f_ip :: nat
  f_off :: uint
  f_major :: ushort

record kfile = kcons +
  ftable :: "nat \<Rightarrow> filerec"
  pipes :: "uint64 \<Rightarrow> pipe"

datatype ioret = Done int | Sleeping nat

definition upd_file :: "nat \<Rightarrow> (filerec \<Rightarrow> filerec) \<Rightarrow> 'a kfile_scheme \<Rightarrow> 'a kfile_scheme" where
  "upd_file i f s = s\<lparr>ftable := (ftable s)(i := f (ftable s i))\<rparr>"

definition upd_pipe :: "uint64 \<Rightarrow> (pipe \<Rightarrow> pipe) \<Rightarrow> 'a kfile_scheme \<Rightarrow> 'a kfile_scheme" where
  "upd_pipe pi f s = s\<lparr>pipes := (pipes s)(pi := f (pipes s pi))\<rparr>"

definition pipeclose :: "uint64 \<Rightarrow> bool \<Rightarrow> 'a kfile_scheme \<Rightarrow> 'a kfile_scheme res" where
  "pipeclose pi writable s =
     bnd (if writable then wakeup (ChanPipeR pi) (upd_pipe pi (pi_writeopen_update (\<lambda>_. False)) s)
          else wakeup (ChanPipeW pi) (upd_pipe pi (pi_readopen_update (\<lambda>_. False)) s)) (\<lambda>s1.
       if \<not> pi_readopen (pipes s1 pi) \<and> \<not> pi_writeopen (pipes s1 pi) then kfree pi s1
       else Ok s1)"

definition pipe_put :: "byte \<Rightarrow> pipe \<Rightarrow> pipe" where
  "pipe_put ch pi =
     pi\<lparr>pi_data := (pi_data pi)(unat (pi_nwrite pi) mod PIPESIZE := ch), pi_nwrite := pi_nwrite pi + 1\<rparr>"

definition pipe_head :: "pipe \<Rightarrow> byte" where
  "pipe_head pi = pi_data pi (unat (pi_nread pi) mod PIPESIZE)"

definition pipe_drop :: "pipe \<Rightarrow> pipe" where
  "pipe_drop pi = pi\<lparr>pi_nread := pi_nread pi + 1\<rparr>"

function pipewrite_loop ::
    "uint64 \<Rightarrow> nat \<Rightarrow> uint64 \<Rightarrow> nat \<Rightarrow> nat \<Rightarrow> 'a kfile_scheme \<Rightarrow> (ioret \<times> 'a kfile_scheme) res" where
  "pipewrite_loop pi pr addr i n s =
     (if i < n then
        if \<not> pi_readopen (pipes s pi) \<or> killed pr s then Ok (Done (-1), s)
        else if pi_nwrite (pipes s pi) = pi_nread (pipes s pi) + of_nat PIPESIZE then
          bnd (wakeup (ChanPipeR pi) s) (\<lambda>s1. Ok (Sleeping i, s1))
        else
          bnd (copyin (p_pagetable (procs s pr)) (addr + of_nat i) 1 s) (\<lambda>((xs, ok), s1).
            if \<not> ok then bnd (wakeup (ChanPipeR pi) s1) (\<lambda>s2. Ok (Done (int i), s2))
            else pipewrite_loop pi pr addr (i + 1) n (upd_pipe pi (pipe_put (hd xs)) s1))
      else bnd (wakeup (ChanPipeR pi) s) (\<lambda>s1. Ok (Done (int i), s1)))"
  by pat_completeness auto
termination
  by (relation "measure (\<lambda>(pi, pr, addr, i, n, s). n - i)") auto

definition pipewrite :: "uint64 \<Rightarrow> uint64 \<Rightarrow> nat \<Rightarrow> int \<Rightarrow> 'a kfile_scheme \<Rightarrow> (ioret \<times> 'a kfile_scheme) res" where
  "pipewrite pi addr i n s = bnd (need_proc s) (\<lambda>pr. pipewrite_loop pi pr addr i (nat n) s)"

function piperead_copy ::
    "uint64 \<Rightarrow> nat \<Rightarrow> uint64 \<Rightarrow> nat \<Rightarrow> nat \<Rightarrow> 'a kfile_scheme \<Rightarrow> (nat \<times> 'a kfile_scheme) res" where
  "piperead_copy pi pr addr i n s =
     (if i < n then
        if pi_nread (pipes s pi) = pi_nwrite (pipes s pi) then Ok (i, s)
        else let ch = pipe_head (pipes s pi) in
             bnd (copyout (p_pagetable (procs s pr)) (addr + of_nat i) [ch] (upd_pipe pi pipe_drop s))
               (\<lambda>(r, s1). if r = -1 then Ok (i, s1)
                          else piperead_copy pi pr addr (i + 1) n s1)
      else Ok (i, s))"
  by pat_completeness auto
termination
  by (relation "measure (\<lambda>(pi, pr, addr, i, n, s). n - i)") auto

declare pipewrite_loop.simps [simp del] piperead_copy.simps [simp del]

definition piperead :: "uint64 \<Rightarrow> uint64 \<Rightarrow> int \<Rightarrow> 'a kfile_scheme \<Rightarrow> (ioret \<times> 'a kfile_scheme) res" where
  "piperead pi addr n s =
     bnd (need_proc s) (\<lambda>pr.
       if pi_nread (pipes s pi) = pi_nwrite (pipes s pi) \<and> pi_writeopen (pipes s pi) then
         if killed pr s then Ok (Done (-1), s) else Ok (Sleeping 0, s)
       else bnd (piperead_copy pi pr addr 0 (nat n) s) (\<lambda>(i, s1).
              bnd (wakeup (ChanPipeW pi) s1) (\<lambda>s2. Ok (Done (int i), s2))))"

section \<open>A pipe is a queue\<close>

definition pipe_list :: "pipe \<Rightarrow> byte list" where
  "pipe_list q = ring_list PIPESIZE (pi_data q) (pi_nread q) (pi_nwrite q)"

definition pipe_ok :: "pipe \<Rightarrow> bool" where
  "pipe_ok q \<longleftrightarrow> length (pipe_list q) \<le> PIPESIZE"

interpretation pipe_ring: ring PIPESIZE "TYPE(32)"
  by unfold_locales (simp_all add: PIPESIZE_def)

lemma pipe_put_list:
  "length (pipe_list q) < PIPESIZE \<Longrightarrow> pipe_list (pipe_put c q) = pipe_list q @ [c]"
  by (simp add: pipe_list_def pipe_put_def pipe_ring.put)

lemma pipe_drop_list: "pipe_list q \<noteq> [] \<Longrightarrow> pipe_list q = pipe_head q # pipe_list (pipe_drop q)"
  by (simp add: pipe_list_def pipe_head_def pipe_drop_def pipe_ring.take_head)

lemma pipe_empty_iff: "pi_nread q = pi_nwrite q \<longleftrightarrow> pipe_list q = []"
  by (simp add: pipe_list_def)

lemma pipe_full_iff:
  "pipe_ok q \<Longrightarrow> pi_nwrite q = pi_nread q + of_nat PIPESIZE \<longleftrightarrow> length (pipe_list q) = PIPESIZE"
  using pipe_ring.full_iff [of "pi_nwrite q" "pi_nread q"] by (simp add: pipe_ok_def pipe_list_def)

definition pipe_puts :: "byte list \<Rightarrow> pipe \<Rightarrow> pipe" where
  "pipe_puts xs q = foldl (\<lambda>q c. pipe_put c q) q xs"

lemma pipe_puts_simps [simp]:
  "pipe_puts [] q = q" "pipe_puts (x # xs) q = pipe_puts xs (pipe_put x q)"
  by (simp_all add: pipe_puts_def)

lemma pipe_puts_Cons: "pipe_puts (x # xs) = (\<lambda>q. pipe_puts xs (pipe_put x q))"
  by (rule ext) simp

lemma pipe_put_keeps [simp]:
  "pi_readopen (pipe_put c q) = pi_readopen q" "pi_writeopen (pipe_put c q) = pi_writeopen q"
  "pi_nread (pipe_put c q) = pi_nread q"
  by (simp_all add: pipe_put_def)

lemma pipe_puts_keeps [simp]:
  "pi_readopen (pipe_puts xs q) = pi_readopen q" "pi_writeopen (pipe_puts xs q) = pi_writeopen q"
  "pi_nread (pipe_puts xs q) = pi_nread q"
  by (induction xs arbitrary: q) simp_all

lemma pipe_puts_list:
  "length (pipe_list q) + length xs \<le> PIPESIZE \<Longrightarrow> pipe_list (pipe_puts xs q) = pipe_list q @ xs"
  by (induction xs arbitrary: q) (simp_all add: pipe_put_list)

lemma upd_pipe_simps [simp]:
  "mem (upd_pipe a f s) = mem s" "freelist (upd_pipe a f s) = freelist s" "kend (upd_pipe a f s) = kend s"
  "procs (upd_pipe a f s) = procs s" "cpu_proc (upd_pipe a f s) = cpu_proc s" "ftable (upd_pipe a f s) = ftable s"
  "pipes (upd_pipe a f s) = (pipes s)(a := f (pipes s a))"
  by (simp_all add: upd_pipe_def)

lemma upd_pipe_id [simp]: "upd_pipe a (\<lambda>q. q) s = s" "upd_pipe a (pipe_puts []) s = s"
  by (simp_all add: upd_pipe_def)

lemma upd_pipe_twice: "upd_pipe a g (upd_pipe a f s) = upd_pipe a (\<lambda>q. g (f q)) s"
  by (simp add: upd_pipe_def)

lemma pipewrite_loop_post:
  assumes "user_ready p user_r (unat addr) (unat addr + n) s" "pipe_ok (pipes s a)"
    "pi_readopen (pipes s a)" "\<not> killed p s" "i \<le> n"
    "k = min (n - i) (PIPESIZE - length (pipe_list (pipes s a)))"
  shows "pipewrite_loop a p addr i n s =
    Ok (if i + k = n then Done (int n) else Sleeping (i + k),
        woken (ChanPipeR a) (upd_pipe a (pipe_puts (ubytes (mem s) (p_pagetable (procs s p)) (unat addr + i) k)) s))"
  using assms
proof (induction "n - i" arbitrary: i s k)
  case 0
  then have "i = n" "k = 0" by auto
  moreover have "unlocked s" using 0 by (simp add: user_ready_def)
  ultimately show ?case by (simp add: pipewrite_loop.simps wakeup_unlocked ubytes_def)
next
  case (Suc d)
  then have i: "i < n" and ul: "unlocked s" by (auto simp: user_ready_def)
  let ?q = "pipes s a" and ?pt = "p_pagetable (procs s p)"
  show ?case
  proof (cases "length (pipe_list ?q) = PIPESIZE")
    case True
      moreover have "k = 0" using Suc.prems(6) True by simp
    ultimately show ?thesis using Suc.prems i ul
      by (simp add: pipewrite_loop.simps [of a p addr i] pipe_full_iff wakeup_unlocked ubytes_def)
  next
    case False
    then have lt: "length (pipe_list ?q) < PIPESIZE" using Suc.prems(2) by (simp add: pipe_ok_def)
    define s1 where "s1 = upd_pipe a (pipe_put (the (ubyte (mem s) ?pt (unat addr + i)))) s"
    have c: "copyin ?pt (addr + of_nat i) 1 s = Ok (([the (ubyte (mem s) ?pt (unat addr + i))], True), s)"
      using user_copyin1 [OF Suc.prems(1) i] by (simp add: ubytes_def)
    have st: "pipewrite_loop a p addr i n s = pipewrite_loop a p addr (i + 1) n s1"
      using c i Suc.prems False
      by (subst pipewrite_loop.simps) (simp add: pipe_full_iff s1_def)
    have pl: "length (pipe_list (pipes s1 a)) = Suc (length (pipe_list ?q))"
      using lt by (simp add: s1_def pipe_put_list)
    define k' where "k' = min (n - (i + 1)) (PIPESIZE - length (pipe_list (pipes s1 a)))"
    have k: "k = Suc k'" using Suc.prems(6) i lt pl by (simp add: k'_def)
    have "pipewrite_loop a p addr (i + 1) n s1 =
      Ok (if i + 1 + k' = n then Done (int n) else Sleeping (i + 1 + k'),
        woken (ChanPipeR a) (upd_pipe a (pipe_puts (ubytes (mem s1) (p_pagetable (procs s1 p)) (unat addr + (i + 1)) k')) s1))"
    proof (rule Suc.hyps(1))
      show "d = n - (i + 1)" using Suc.hyps(2) by simp
      show "user_ready p user_r (unat addr) (unat addr + n) s1"
        using Suc.prems(1) user_ready_cong [of s1 s] by (simp add: s1_def)
      show "pipe_ok (pipes s1 a)" using pl lt by (simp add: pipe_ok_def)
      show "pi_readopen (pipes s1 a)" "\<not> killed p s1" "i + 1 \<le> n"
        using Suc.prems i by (simp_all add: s1_def killed_def)
    qed (simp add: k'_def)
    moreover have "ubytes (mem s) ?pt (unat addr + i) k =
        the (ubyte (mem s) ?pt (unat addr + i)) # ubytes (mem s) ?pt (unat addr + (i + 1)) k'"
      unfolding k using ubytes_add [of "mem s" ?pt "unat addr + i" 1 k'] by (simp add: ubytes_def)
    ultimately show ?thesis using st k by (simp add: s1_def upd_pipe_twice pipe_puts_Cons)
  qed
qed

lemma pipe_drop_funpow:
  "k \<le> length (pipe_list q) \<Longrightarrow> pipe_list ((pipe_drop ^^ k) q) = drop k (pipe_list q)"
proof (induction k)
  case (Suc k)
  then have d: "pipe_list ((pipe_drop ^^ k) q) = drop k (pipe_list q)" by simp
  with Suc.prems have "pipe_list ((pipe_drop ^^ k) q) \<noteq> []" by simp
  from pipe_drop_list [OF this] d have "pipe_list (pipe_drop ((pipe_drop ^^ k) q)) = tl (drop k (pipe_list q))"
    by (metis list.sel(3))
  then show ?case by (simp add: drop_Suc tl_drop)
qed simp

lemma piperead_copy_post:
  assumes "user_ready p user_w (unat addr) (unat addr + n) s" "i \<le> n"
    "k = min (n - i) (length (pipe_list (pipes s a)))"
  shows "\<exists>m. piperead_copy a p addr i n s = Ok (i + k, (upd_pipe a (pipe_drop ^^ k) s)\<lparr>mem := m\<rparr>) \<and>
    user_ready p user_w (unat addr) (unat addr + n) (s\<lparr>mem := m\<rparr>) \<and>
    (\<forall>x<4096 * UPAGES. ubyte m (p_pagetable (procs s p)) x =
       (if unat addr + i \<le> x \<and> x < unat addr + i + k then Some (pipe_list (pipes s a) ! (x - (unat addr + i)))
        else ubyte (mem s) (p_pagetable (procs s p)) x))"
  using assms
proof (induction k arbitrary: i s)
  case 0
  then have "i = n \<or> pipe_list (pipes s a) = []" by (auto simp: min_def split: if_splits)
  then have "piperead_copy a p addr i n s = Ok (i, s)"
    by (subst piperead_copy.simps) (auto simp: pipe_empty_iff)
  then show ?case using 0 by (intro exI [of _ "mem s"]) (auto simp: id_def)
next
  case (Suc k)
  let ?q = "pipes s a" and ?pt = "p_pagetable (procs s p)"
  define s1 where "s1 = upd_pipe a pipe_drop s"
  have i: "i < n" and ne: "pipe_list ?q \<noteq> []" using Suc.prems(3) by auto
  have r1: "user_ready p user_w (unat addr) (unat addr + n) s1"
    using Suc.prems(1) user_ready_cong [of s1 s] by (simp add: s1_def)
  obtain m1 where m1: "copyout ?pt (addr + of_nat i) [pipe_head ?q] s1 = Ok (0, s1\<lparr>mem := m1\<rparr>)"
    "user_ready p user_w (unat addr) (unat addr + n) (s1\<lparr>mem := m1\<rparr>)"
    "\<forall>x<4096 * UPAGES. ubyte m1 ?pt x = (if x = unat addr + i then Some (pipe_head ?q) else ubyte (mem s) ?pt x)"
    using user_copyout1 [OF r1 i, of "pipe_head ?q"] by (auto simp: s1_def)
  define s2 where "s2 = s1\<lparr>mem := m1\<rparr>"
  have st: "piperead_copy a p addr i n s = piperead_copy a p addr (i + 1) n s2"
    using m1(1) i ne by (subst piperead_copy.simps) (simp add: pipe_empty_iff s1_def s2_def)
  have q: "pipe_list ?q = pipe_head ?q # pipe_list (pipes s2 a)"
    using pipe_drop_list [OF ne] by (simp add: s2_def s1_def)
  have r2: "user_ready p user_w (unat addr) (unat addr + n) s2" using m1(2) by (simp add: s2_def)
  have i1: "i + 1 \<le> n" using i by simp
  have "length (pipe_list ?q) = Suc (length (pipe_list (pipes s2 a)))" by (subst q) simp
  then have k: "k = min (n - (i + 1)) (length (pipe_list (pipes s2 a)))" using Suc.prems(3) i by linarith
  obtain m where m: "piperead_copy a p addr (i + 1) n s2 = Ok (i + 1 + k, (upd_pipe a (pipe_drop ^^ k) s2)\<lparr>mem := m\<rparr>)"
    "user_ready p user_w (unat addr) (unat addr + n) (s2\<lparr>mem := m\<rparr>)"
    "\<forall>x<4096 * UPAGES. ubyte m (p_pagetable (procs s2 p)) x =
       (if unat addr + (i + 1) \<le> x \<and> x < unat addr + (i + 1) + k then Some (pipe_list (pipes s2 a) ! (x - (unat addr + (i + 1))))
        else ubyte (mem s2) (p_pagetable (procs s2 p)) x)"
    using Suc.IH [OF r2 i1 k] by blast
  have "ubyte m ?pt x = (if unat addr + i \<le> x \<and> x < unat addr + i + Suc k then Some (pipe_list ?q ! (x - (unat addr + i)))
        else ubyte (mem s) ?pt x)" if x: "x < 4096 * UPAGES" for x
  proof (cases "x = unat addr + i")
    case True
    then show ?thesis using m(3) m1(3) x q by (simp add: s2_def s1_def)
  next
    case False
    have "pipe_list ?q ! (x - (unat addr + i)) = pipe_list (pipes s2 a) ! (x - (unat addr + (i + 1)))" if "unat addr + i \<le> x"
      using False that by (subst q) (simp add: nth_Cons' Suc_diff_Suc [symmetric] )
    then show ?thesis using m(3) [rule_format, OF x] m1(3) x False by (auto simp: s2_def s1_def)
  qed
  moreover have "(upd_pipe a (pipe_drop ^^ k) s2)\<lparr>mem := m\<rparr> = (upd_pipe a (pipe_drop ^^ Suc k) s)\<lparr>mem := m\<rparr>"
    by (simp add: s2_def s1_def upd_pipe_def funpow_swap1)
  moreover have "user_ready p user_w (unat addr) (unat addr + n) (s\<lparr>mem := m\<rparr>)"
    using m(2) user_ready_cong [of "s2\<lparr>mem := m\<rparr>" "s\<lparr>mem := m\<rparr>"] by (simp add: s2_def s1_def)
  ultimately show ?case using st m(1) by (intro exI [of _ m]) (simp del: funpow.simps)
qed

section \<open>Properties\<close>

text \<open>A state of the file layer whose only process has a page table but no memory yet.\<close>

definition ex_kfile :: kfile where
  "ex_kfile = kcons.extend ex_kcons (kfile.fields
     (\<lambda>_. \<lparr>f_type = FD_NONE, f_ref = 0, f_readable = 0, f_writable = 0, f_pipe = 0, f_ip = 0, f_off = 0, f_major = 0\<rparr>)
     (\<lambda>_. \<lparr>pi_data = (\<lambda>_. 0), pi_nread = 0, pi_nwrite = 0, pi_readopen = True, pi_writeopen = True\<rparr>))"

lemmas ex_kfile_defs = ex_kfile_def ex_kcons_def kcons.defs kfile.defs

lemma ex_kfile_ready:
  "\<exists>m f. user_ready 0 user_w 16 18 (ex_kfile\<lparr>mem := m, freelist := f\<rparr>)"
proof -
  obtain m f where "uspace (ex_kfile\<lparr>mem := m, freelist := f\<rparr>) 0x87ff0000" "user_w (lf m 0x87ff0000 0)"
    using ex_user_page [of ex_kfile] by (auto simp: ex_kfile_defs)
  moreover have "x div 4096 = 0" if "x < 18" for x :: nat using that by simp
  ultimately have "user_ready 0 user_w 16 18 (ex_kfile\<lparr>mem := m, freelist := f\<rparr>)"
    by (auto simp: user_ready_def unlocked_def ex_kfile_defs zero_proc_def initlock_def UPAGES_def)
  then show ?thesis by blast
qed

text \<open>
  C12. Writing to a pipe is appending to a queue of at most 512 bytes.  When the reader's end is open
  and the process has not been killed, \<open>pipewrite\<close> appends the bytes of user memory, in order, as far as
  there is room, changes no memory, and returns when all of them are in the queue; otherwise it
  sleeps, having filled the queue, to go on from the first byte that did not fit.  The counters
  wrap around at 32 bits without losing a byte.
\<close>

theorem pipewrite_enqueues:
  assumes "user_ready p user_r (unat addr) (unat addr + n) s" "pipe_ok (pipes s a)"
    and "pi_readopen (pipes s a)" "\<not> killed p s"
  defines "k \<equiv> min n (PIPESIZE - length (pipe_list (pipes s a)))"
  shows "\<exists>s'. pipewrite a addr 0 (int n) s = Ok (if k = n then Done (int n) else Sleeping k, s') \<and>
    pipe_list (pipes s' a) = pipe_list (pipes s a) @ ubytes (mem s) (p_pagetable (procs s p)) (unat addr) k \<and>
    pipe_ok (pipes s' a) \<and> pi_readopen (pipes s' a) \<and> mem s' = mem s"
proof -
  let ?xs = "ubytes (mem s) (p_pagetable (procs s p)) (unat addr) k"
  have c: "cpu_proc s = Some p" using assms(1) by (simp add: user_ready_def)
  have "pipewrite a addr 0 (int n) s =
      Ok (if k = n then Done (int n) else Sleeping k, woken (ChanPipeR a) (upd_pipe a (pipe_puts ?xs) s))"
    using pipewrite_loop_post [OF assms(1-4), of 0 k] c by (simp add: pipewrite_def need_proc_def myproc_def k_def)
  moreover have "length (pipe_list (pipes s a)) + length ?xs \<le> PIPESIZE"
    using assms(2) by (simp add: pipe_ok_def k_def)
  ultimately show ?thesis
    using assms(3) by (simp add: woken_def pipe_puts_list pipe_ok_def)
qed

text \<open>Witness for C12: two bytes into an empty pipe.\<close>

theorem pipewrite_enqueues_witness:
  "\<exists>s s'. user_ready 0 user_r 16 18 (s :: kfile) \<and> pipewrite 0 16 0 2 s = Ok (Done 2, s') \<and>
     length (pipe_list (pipes s' 0)) = 2"
proof -
  obtain m f where r: "user_ready 0 user_w 16 18 (ex_kfile\<lparr>mem := m, freelist := f\<rparr>)" (is "user_ready _ _ _ _ ?s")
    using ex_kfile_ready by blast
  then have r': "user_ready 0 user_r (unat (16::uint64)) (unat (16::uint64) + 2) ?s" by (simp add: user_ready_def user_w_def)
  have "pipe_list (pipes ?s 0) = []" by (simp add: ex_kfile_defs pipe_list_def)
  then obtain s' where "pipewrite 0 16 0 2 ?s = Ok (Done 2, s')" "length (pipe_list (pipes s' 0)) = 2"
    using pipewrite_enqueues [OF r', of 0]
    by (auto simp: pipe_ok_def PIPESIZE_def ex_kfile_defs killed_def zero_proc_def min_def)
  with r' show ?thesis by (intro exI [of _ ?s] exI [of _ s']) simp
qed

text \<open>
  C13. Reading from a pipe is taking from the front of the same queue.  When there is something to read,
  or no writer is left, \<open>piperead\<close> moves the first bytes of the queue to user memory, as many as were
  asked for or are there, leaves the rest in the queue, changes no other byte of user memory, and
  returns their number.
\<close>

theorem piperead_dequeues:
  assumes "user_ready p user_w (unat addr) (unat addr + n) s"
    and "pipe_list (pipes s a) \<noteq> [] \<or> \<not> pi_writeopen (pipes s a)"
  defines "k \<equiv> min n (length (pipe_list (pipes s a)))" and "pt \<equiv> p_pagetable (procs s p)"
  shows "\<exists>s'. piperead a addr (int n) s = Ok (Done (int k), s') \<and>
    pipe_list (pipes s' a) = drop k (pipe_list (pipes s a)) \<and>
    (\<forall>x<4096 * UPAGES. ubyte (mem s') pt x =
       (if unat addr \<le> x \<and> x < unat addr + k then Some (pipe_list (pipes s a) ! (x - unat addr)) else ubyte (mem s) pt x))"
proof -
  have c: "cpu_proc s = Some p" using assms(1) by (simp add: user_ready_def)
  obtain m where m: "piperead_copy a p addr 0 n s = Ok (k, (upd_pipe a (pipe_drop ^^ k) s)\<lparr>mem := m\<rparr>)"
    "\<forall>x<4096 * UPAGES. ubyte m pt x =
       (if unat addr \<le> x \<and> x < unat addr + k then Some (pipe_list (pipes s a) ! (x - unat addr)) else ubyte (mem s) pt x)"
    using piperead_copy_post [OF assms(1), of 0 k a] by (auto simp: k_def pt_def)
  let ?s1 = "(upd_pipe a (pipe_drop ^^ k) s)\<lparr>mem := m\<rparr>"
  have "unlocked ?s1" using assms(1) by (simp add: user_ready_def unlocked_def myproc_def)
  then have "piperead a addr (int n) s = Ok (Done (int k), woken (ChanPipeW a) ?s1)"
    using assms(2) m(1) c by (auto simp: piperead_def need_proc_def myproc_def pipe_empty_iff wakeup_unlocked)
  moreover have "pipe_list ((pipe_drop ^^ k) (pipes s a)) = drop k (pipe_list (pipes s a))"
    by (rule pipe_drop_funpow) (simp add: k_def)
  ultimately show ?thesis using m(2) by (intro exI [of _ "woken (ChanPipeW a) ?s1"]) (simp add: woken_def)
qed

text \<open>Witness for C13: three bytes are in the pipe and two are read.\<close>

theorem piperead_dequeues_witness:
  "\<exists>s s'. user_ready 0 user_w 16 18 (s :: kfile) \<and> pipe_list (pipes s 0) = [5, 6, 7] \<and>
     piperead 0 16 2 s = Ok (Done 2, s') \<and> pipe_list (pipes s' 0) = [7]"
proof -
  obtain m f where r: "user_ready 0 user_w 16 18 (ex_kfile\<lparr>mem := m, freelist := f\<rparr>)" (is "user_ready _ _ _ _ ?s")
    using ex_kfile_ready by blast
  define s where "s = upd_pipe 0 (pipe_puts [5, 6, 7]) ?s"
  have r': "user_ready 0 user_w (unat (16::uint64)) (unat (16::uint64) + 2) s"
    using r user_ready_cong [of s ?s] by (simp add: s_def)
  have "pipe_list (pipes ?s 0) = []" by (simp add: ex_kfile_defs pipe_list_def)
  then have l: "pipe_list (pipes s 0) = [5, 6, 7]" by (simp add: s_def pipe_puts_list PIPESIZE_def del: pipe_puts_simps)
  then obtain s' where "piperead 0 16 2 s = Ok (Done 2, s')" "pipe_list (pipes s' 0) = [7]"
    using piperead_dequeues [OF r', of 0] by (auto simp: min_def)
  with r' l show ?thesis by (intro exI [of _ s] exI [of _ s']) simp
qed

end
