(* ===== verification/File.thy ===== *)
theory File
  imports Pipe
begin

text \<open>
  Open files, \<^verbatim>\<open>kernel/file.c\<close>, and \<^verbatim>\<open>pipealloc\<close> of \<^verbatim>\<open>kernel/pipe.c\<close>.  A file is its index in the file
  table.  The only device switch entry the kernel fills in is the console's, so \<^verbatim>\<open>devsw[CONSOLE]\<close> is
  the flag that \<^verbatim>\<open>consoleinit\<close> sets.  A transfer that sleeps is \<open>Wait\<close> here.
\<close>

definition filealloc :: "'a kfile_scheme \<Rightarrow> nat option \<times> 'a kfile_scheme" where
  "filealloc s =
     (case find (\<lambda>i. f_ref (ftable s i) = 0) [0..<NFILE] of
        Some i \<Rightarrow> (Some i, upd_file i (f_ref_update (\<lambda>_. 1)) s)
      | None \<Rightarrow> (None, s))"

definition filedup :: "nat \<Rightarrow> 'a kfile_scheme \<Rightarrow> 'a kfile_scheme res" where
  "filedup f s =
     (if f_ref (ftable s f) < 1 then Panic ''filedup''
      else Ok (upd_file f (f_ref_update (\<lambda>r. r + 1)) s))"

definition fileclose :: "nat \<Rightarrow> 'a kfile_scheme \<Rightarrow> 'a kfile_scheme res" where
  "fileclose f s =
     (let ff = ftable s f in
      if f_ref ff < 1 then Panic ''fileclose''
      else if f_ref ff - 1 > 0 then Ok (upd_file f (f_ref_update (\<lambda>r. r - 1)) s)
      else let s1 = upd_file f (\<lambda>x. x\<lparr>f_ref := 0, f_type := FD_NONE\<rparr>) s in
           case f_type ff of
             FD_PIPE \<Rightarrow> pipeclose (f_pipe ff) (f_writable ff \<noteq> 0) s1
           | FD_NONE \<Rightarrow> Ok s1
           | _ \<Rightarrow> bnd (begin_op s1) (\<lambda>s2. bnd (iput (f_ip ff) s2) end_op))"

text \<open>The layout of \<^verbatim>\<open>struct stat\<close>: \<^verbatim>\<open>dev\<close>, \<^verbatim>\<open>ino\<close>, \<^verbatim>\<open>type\<close>, \<^verbatim>\<open>nlink\<close>, four bytes of padding, \<^verbatim>\<open>size\<close>.
  The padding holds what the kernel stack held, here \<open>pad\<close>.\<close>

definition stat_bytes :: "byte list \<Rightarrow> stat \<Rightarrow> byte list" where
  "stat_bytes pad st =
     (let m = wr64 (wr16 (wr16 (wr32 (wr32 (\<lambda>i. if i < 16 then pad ! (i - 12) else 0)
                0 (st_dev st)) 4 (st_ino st)) 8 (st_type st)) 10 (st_nlink st)) 16 (st_size st)
      in map m [0..<24])"

definition filestat :: "byte list \<Rightarrow> nat \<Rightarrow> uint64 \<Rightarrow> 'a kfile_scheme \<Rightarrow> (int \<times> 'a kfile_scheme) res" where
  "filestat pad f addr s =
     bnd (need_proc s) (\<lambda>p.
       let ff = ftable s f in
       if f_type ff = FD_INODE \<or> f_type ff = FD_DEVICE then
         bnd (ilock (f_ip ff) s) (\<lambda>s1.
           let st = stati (itable s1 (f_ip ff)) in
           bnd (iunlock (f_ip ff) s1) (\<lambda>s2.
             bnd (copyout (p_pagetable (procs s2 p)) addr (stat_bytes pad st) s2) (\<lambda>(r, s3).
               Ok (if r < 0 then -1 else 0, s3))))
       else Ok (-1, s))"

definition await :: "string \<Rightarrow> ioret \<times> 'b \<Rightarrow> (int \<times> 'b) res" where
  "await why x = (case x of (Done r, s) \<Rightarrow> Ok (r, s) | (Sleeping _, _) \<Rightarrow> Wait why)"

definition dev_ok :: "ushort \<Rightarrow> 'a kfile_scheme \<Rightarrow> bool" where
  "dev_ok major s =
     (0 \<le> sint major \<and> sint major < int NDEV \<and> (sint major = int CONSOLE \<and> devsw_console s))"

definition fileread :: "nat \<Rightarrow> uint64 \<Rightarrow> int \<Rightarrow> 'a kfile_scheme \<Rightarrow> (int \<times> 'a kfile_scheme) res" where
  "fileread f addr n s =
     (let ff = ftable s f in
      if f_readable ff = 0 then Ok (-1, s)
      else case f_type ff of
        FD_PIPE \<Rightarrow> bnd (piperead (f_pipe ff) addr n s) (await ''pipe'')
      | FD_DEVICE \<Rightarrow>
          if \<not> dev_ok (f_major ff) s then Ok (-1, s) else consoleread (UserDst addr) n s
      | FD_INODE \<Rightarrow>
          bnd (ilock (f_ip ff) s) (\<lambda>s1.
            bnd (readi (f_ip ff) (UserDst addr) (f_off ff) (word_of_int n) s1) (\<lambda>((r, _), s2).
              let s3 = (if r > 0 then upd_file f (f_off_update (\<lambda>x. x + word_of_int r)) s2 else s2) in
              bnd (iunlock (f_ip ff) s3) (\<lambda>s4. Ok (r, s4))))
      | FD_NONE \<Rightarrow> Panic ''fileread'')"

definition FILE_MAX_WRITE :: nat where
  [param_defs]: "FILE_MAX_WRITE = ((MAXOPBLOCKS - 1 - 1 - 2) div 2) * BSIZE"

function filewrite_loop :: "nat \<Rightarrow> uint64 \<Rightarrow> nat \<Rightarrow> nat \<Rightarrow> 'a kfile_scheme \<Rightarrow> (nat \<times> 'a kfile_scheme) res" where
  "filewrite_loop f addr i n s =
     (if i < n then
        let n1 = min (n - i) FILE_MAX_WRITE; ip = f_ip (ftable s f) in
        bnd (begin_op s) (\<lambda>s1. bnd (ilock ip s1) (\<lambda>s2.
          bnd (writei ip (UserSrc (addr + of_nat i)) (f_off (ftable s2 f)) (of_nat n1) s2) (\<lambda>(r, s3).
            let s4 = (if r > 0 then upd_file f (f_off_update (\<lambda>x. x + word_of_int r)) s3 else s3) in
            bnd (iunlock ip s4) (\<lambda>s5. bnd (end_op s5) (\<lambda>s6.
              if r \<noteq> int n1 then Ok (i, s6) else filewrite_loop f addr (i + n1) n s6)))))
      else Ok (i, s))"
  by pat_completeness auto
termination
  by (relation "measure (\<lambda>(f, addr, i, n, s). n - i)") (auto simp: FILE_MAX_WRITE_def MAXOPBLOCKS_def BSIZE_def)

declare filewrite_loop.simps [simp del]

definition filewrite :: "nat \<Rightarrow> uint64 \<Rightarrow> int \<Rightarrow> 'a kfile_scheme \<Rightarrow> (int \<times> 'a kfile_scheme) res" where
  "filewrite f addr n s =
     (let ff = ftable s f in
      if f_writable ff = 0 then Ok (-1, s)
      else case f_type ff of
        FD_PIPE \<Rightarrow> bnd (pipewrite (f_pipe ff) addr 0 n s) (await ''pipe'')
      | FD_DEVICE \<Rightarrow>
          if \<not> dev_ok (f_major ff) s then Ok (-1, s) else consolewrite (UserSrc addr) n s
      | FD_INODE \<Rightarrow>
          bnd (filewrite_loop f addr 0 (nat n) s) (\<lambda>(i, s1). Ok (if int i = n then n else -1, s1))
      | FD_NONE \<Rightarrow> Panic ''filewrite'')"

section \<open>Making a pipe\<close>

text \<open>The data area follows the 24 bytes of the lock in the page and holds what the page held.\<close>

definition new_pipe :: "bytes \<Rightarrow> uint64 \<Rightarrow> pipe" where
  "new_pipe m pi = \<lparr>pi_data = (\<lambda>i. m (unat pi + 24 + i)), pi_nread = 0, pi_nwrite = 0, pi_readopen = True, pi_writeopen = True\<rparr>"

definition pipealloc :: "'a kfile_scheme \<Rightarrow> ((nat \<times> nat) option \<times> 'a kfile_scheme) res" where
  "pipealloc s =
     (case filealloc s of
        (None, s1) \<Rightarrow> Ok (None, s1)
      | (Some f0, s1) \<Rightarrow>
          (case filealloc s1 of
             (None, s2) \<Rightarrow> bnd (fileclose f0 s2) (\<lambda>s3. Ok (None, s3))
           | (Some f1, s2) \<Rightarrow>
               (case kalloc s2 of
                  (pi, s3) \<Rightarrow>
                    if pi = 0 then
                      bnd (fileclose f0 s3) (\<lambda>s4. bnd (fileclose f1 s4) (\<lambda>s5. Ok (None, s5)))
                    else
                      let s4 = upd_pipe pi (\<lambda>_. new_pipe (mem s3) pi) s3;
                          s5 = upd_file f0 (\<lambda>x. x\<lparr>f_type := FD_PIPE, f_readable := 1, f_writable := 0, f_pipe := pi\<rparr>) s4;
                          s6 = upd_file f1 (\<lambda>x. x\<lparr>f_type := FD_PIPE, f_readable := 0, f_writable := 1, f_pipe := pi\<rparr>) s5
                      in Ok (Some (f0, f1), s6))))"

end
