(* ===== verification/Proc.thy ===== *)
theory Proc
  imports File
begin

unbundle bit_operations_syntax

text \<open>
  Processes, \<^verbatim>\<open>kernel/proc.c\<close>.  Locks of the process table and \<^verbatim>\<open>wait_lock\<close> are taken and dropped where
  the source does.  A context switch ends an operation: \<open>sched\<close> is what the code does up to
  \<^verbatim>\<open>swtch\<close>, with the interrupt flag it saves, and \<open>sched_return\<close> what it does when it is switched to
  again; \<open>scheduler_round\<close> takes what a process does while it runs as its argument.
\<close>

definition need :: "'b option \<Rightarrow> 'b res" where
  "need x = (case x of None \<Rightarrow> Panic ''kerneltrap'' | Some y \<Rightarrow> Ok y)"

definition proc_chan :: "nat option \<Rightarrow> chan" where
  "proc_chan p = (case p of None \<Rightarrow> NoChan | Some i \<Rightarrow> ChanProc i)"

section \<open>Allocation\<close>

definition procinit :: "'a kproc_scheme \<Rightarrow> 'a kproc_scheme" where
  "procinit s =
     s\<lparr>wait_lock := initlock,
       procs := (\<lambda>i. if i < NPROC then (procs s i)\<lparr>p_lock := initlock, p_state := UNUSED, p_kstack := KSTACK i\<rparr>
                     else procs s i)\<rparr>"

definition allocpid :: "'a kproc_scheme \<Rightarrow> int \<times> 'a kproc_scheme" where
  "allocpid s = (nextpid s, s\<lparr>nextpid := nextpid s + 1\<rparr>)"

definition proc_pagetable :: "nat \<Rightarrow> 'a kproc_scheme \<Rightarrow> (uint64 \<times> 'a kproc_scheme) res" where
  "proc_pagetable p s =
     (case uvmcreate s of
        (pagetable, s1) \<Rightarrow>
          if pagetable = 0 then Ok (0, s1)
          else bnd (mappages pagetable TRAMPOLINE (of_nat PGSIZE) (sym_trampoline (ksym s1)) (PTE_R OR PTE_X) s1) (\<lambda>(r, s2).
            if r < 0 then bnd (uvmfree pagetable 0 s2) (\<lambda>s3. Ok (0, s3))
            else bnd (mappages pagetable TRAPFRAME (of_nat PGSIZE) (p_trapframe (procs s2 p)) (PTE_R OR PTE_W) s2) (\<lambda>(r, s3).
              if r < 0 then bnd (uvmunmap pagetable TRAMPOLINE 1 False s3) (\<lambda>s4.
                              bnd (uvmfree pagetable 0 s4) (\<lambda>s5. Ok (0, s5)))
              else Ok (pagetable, s3))))"

definition proc_freepagetable :: "uint64 \<Rightarrow> uint64 \<Rightarrow> 'a kmem_scheme \<Rightarrow> 'a kmem_scheme res" where
  "proc_freepagetable pagetable sz s =
     bnd (uvmunmap pagetable TRAMPOLINE 1 False s) (\<lambda>s1.
       bnd (uvmunmap pagetable TRAPFRAME 1 False s1) (\<lambda>s2. uvmfree pagetable sz s2))"

definition freeproc :: "nat \<Rightarrow> 'a kproc_scheme \<Rightarrow> 'a kproc_scheme res" where
  "freeproc p s =
     bnd (if p_trapframe (procs s p) \<noteq> 0 then kfree (p_trapframe (procs s p)) s else Ok s) (\<lambda>s1.
       let s2 = upd_proc p (p_trapframe_update (\<lambda>_. 0)) s1 in
       bnd (if p_pagetable (procs s2 p) \<noteq> 0
            then proc_freepagetable (p_pagetable (procs s2 p)) (p_sz (procs s2 p)) s2 else Ok s2) (\<lambda>s3.
         Ok (upd_proc p (\<lambda>x. x\<lparr>p_pagetable := 0, p_sz := 0, p_pid := 0, p_parent := None,
               p_name := (p_name x)(0 := 0), p_chan := NoChan, p_killed := False, p_xstate := 0,
               p_state := UNUSED\<rparr>) s3)))"

fun allocproc_scan :: "nat list \<Rightarrow> 'a kproc_scheme \<Rightarrow> (nat option \<times> 'a kproc_scheme) res" where
  "allocproc_scan [] s = Ok (None, s)"
| "allocproc_scan (p # ps) s =
     bnd (acquire_proc p s) (\<lambda>s1.
       if p_state (procs s1 p) = UNUSED then Ok (Some p, s1)
       else bnd (release_proc p s1) (allocproc_scan ps))"

definition allocproc_fail :: "nat \<Rightarrow> 'a kproc_scheme \<Rightarrow> (nat option \<times> 'a kproc_scheme) res" where
  "allocproc_fail p s = bnd (freeproc p s) (\<lambda>s1. bnd (release_proc p s1) (\<lambda>s2. Ok (None, s2)))"

definition allocproc :: "'a kproc_scheme \<Rightarrow> (nat option \<times> 'a kproc_scheme) res" where
  "allocproc s =
     bnd (allocproc_scan [0..<NPROC] s) (\<lambda>(found, s1).
       case found of
         None \<Rightarrow> Ok (None, s1)
       | Some p \<Rightarrow>
           (case allocpid s1 of
              (pid, s2) \<Rightarrow>
                let s3 = upd_proc p (\<lambda>x. x\<lparr>p_pid := pid, p_state := USED\<rparr>) s2 in
                case kalloc s3 of
                  (tf, s4) \<Rightarrow>
                    let s5 = upd_proc p (p_trapframe_update (\<lambda>_. tf)) s4 in
                    if tf = 0 then allocproc_fail p s5
                    else bnd (proc_pagetable p s5) (\<lambda>(pt, s6).
                      let s7 = upd_proc p (p_pagetable_update (\<lambda>_. pt)) s6 in
                      if pt = 0 then allocproc_fail p s7
                      else Ok (Some p, upd_proc p (\<lambda>x. x\<lparr>p_context := zero_context\<lparr>c_ra := sym_forkret (ksym s7),
                                                          c_sp := p_kstack x + of_nat PGSIZE\<rparr>\<rparr>) s7))))"

definition userinit :: "'a kfs_scheme \<Rightarrow> 'a kfs_scheme res" where
  "userinit s =
     bnd (allocproc s) (\<lambda>(found, s1).
       let s2 = s1\<lparr>initproc := found\<rparr> in
       bnd (namei [slash] s2) (\<lambda>(cwd, s3).
         bnd (need found) (\<lambda>p.
           release_proc p (upd_proc p (\<lambda>x. x\<lparr>p_cwd := cwd, p_state := RUNNABLE\<rparr>) s3))))"

definition growproc :: "int \<Rightarrow> 'a kproc_scheme \<Rightarrow> (int \<times> 'a kproc_scheme) res" where
  "growproc n s =
     bnd (need_proc s) (\<lambda>p.
       let pr = procs s p; sz = p_sz pr in
       if n > 0 then
         bnd (uvmalloc (p_pagetable pr) sz (sz + word_of_int n) PTE_W s) (\<lambda>(sz1, s1).
           if sz1 = 0 then Ok (-1, s1) else Ok (0, upd_proc p (p_sz_update (\<lambda>_. sz1)) s1))
       else if n < 0 then
         bnd (uvmdealloc (p_pagetable pr) sz (sz + word_of_int n) s) (\<lambda>(sz1, s1).
           Ok (0, upd_proc p (p_sz_update (\<lambda>_. sz1)) s1))
       else Ok (0, upd_proc p (p_sz_update (\<lambda>_. sz)) s))"

section \<open>fork, exit, wait\<close>

fun dup_ofiles :: "nat list \<Rightarrow> nat \<Rightarrow> nat \<Rightarrow> 'a kfile_scheme \<Rightarrow> 'a kfile_scheme res" where
  "dup_ofiles [] p np s = Ok s"
| "dup_ofiles (i # is) p np s =
     (case p_ofile (procs s p) i of
        None \<Rightarrow> dup_ofiles is p np s
      | Some f \<Rightarrow> bnd (filedup f s) (\<lambda>s1.
          dup_ofiles is p np (upd_proc np (p_ofile_update (\<lambda>fs. fs(i := Some f))) s1)))"

definition kfork :: "'a kfile_scheme \<Rightarrow> (int \<times> 'a kfile_scheme) res" where
  "kfork s =
     bnd (need_proc s) (\<lambda>p.
     bnd (allocproc s) (\<lambda>(found, s1).
       case found of
         None \<Rightarrow> Ok (-1, s1)
       | Some np \<Rightarrow>
           bnd (uvmcopy (p_pagetable (procs s1 p)) (p_pagetable (procs s1 np)) (p_sz (procs s1 p)) s1) (\<lambda>(r, s2).
             if r < 0 then bnd (freeproc np s2) (\<lambda>s3. bnd (release_proc np s3) (\<lambda>s4. Ok (-1, s4)))
             else
               let s3 = upd_proc np (p_sz_update (\<lambda>_. p_sz (procs s2 p))) s2;
                   ntf = unat (p_trapframe (procs s3 np));
                   s4 = s3\<lparr>mem := wr64 (putl (mem s3) ntf (getl (mem s3) (unat (p_trapframe (procs s3 p))) TF_SIZE))
                                       (ntf + TF_a0) 0\<rparr>
               in bnd (dup_ofiles [0..<NOFILE] p np s4) (\<lambda>s5.
                  bnd (need (p_cwd (procs s5 p))) (\<lambda>cwd.
                    let s6 = upd_proc np (\<lambda>x. x\<lparr>p_cwd := Some cwd,
                               p_name := safestrcpy (p_name x) 0 (p_name (procs s5 p)) 16\<rparr>) (idup cwd s5);
                        pid = p_pid (procs s6 np)
                    in bnd (release_proc np s6) (\<lambda>s7.
                       bnd (acquire_wait s7) (\<lambda>s8.
                       bnd (release_wait (upd_proc np (p_parent_update (\<lambda>_. Some p)) s8)) (\<lambda>s9.
                       bnd (acquire_proc np s9) (\<lambda>s10.
                       bnd (release_proc np (upd_proc np (p_state_update (\<lambda>_. RUNNABLE)) s10)) (\<lambda>s11.
                         Ok (pid, s11)))))))))))"

fun reparent_loop :: "nat list \<Rightarrow> nat \<Rightarrow> 'a kproc_scheme \<Rightarrow> 'a kproc_scheme res" where
  "reparent_loop [] p s = Ok s"
| "reparent_loop (i # is) p s =
     (if p_parent (procs s i) = Some p then
        bnd (wakeup (proc_chan (initproc s)) (upd_proc i (p_parent_update (\<lambda>_. initproc s)) s)) (reparent_loop is p)
      else reparent_loop is p s)"

definition reparent :: "nat \<Rightarrow> 'a kproc_scheme \<Rightarrow> 'a kproc_scheme res" where
  "reparent p s = reparent_loop [0..<NPROC] p s"

section \<open>Switching\<close>

definition sched :: "'a kproc_scheme \<Rightarrow> (bool \<times> 'a kproc_scheme) res" where
  "sched s =
     bnd (need_proc s) (\<lambda>p.
       if \<not> holding_proc p s then Panic ''sched p->lock''
       else if noff (thiscpu s) \<noteq> 1 then Panic ''sched locks''
       else if p_state (procs s p) = RUNNING then Panic ''sched RUNNING''
       else if sie (thiscpu s) then Panic ''sched interruptible''
       else Ok (intena (thiscpu s), s))"

definition sched_return :: "bool \<Rightarrow> 'a kproc_scheme \<Rightarrow> 'a kproc_scheme" where
  "sched_return ie s = s\<lparr>thiscpu := (thiscpu s)\<lparr>intena := ie\<rparr>\<rparr>"

fun close_ofiles :: "nat list \<Rightarrow> nat \<Rightarrow> 'a kfile_scheme \<Rightarrow> 'a kfile_scheme res" where
  "close_ofiles [] p s = Ok s"
| "close_ofiles (fd # fds) p s =
     (case p_ofile (procs s p) fd of
        None \<Rightarrow> close_ofiles fds p s
      | Some f \<Rightarrow> bnd (fileclose f s) (\<lambda>s1.
          close_ofiles fds p (upd_proc p (p_ofile_update (\<lambda>fs. fs(fd := None))) s1)))"

definition kexit :: "int \<Rightarrow> 'a kfile_scheme \<Rightarrow> 'a kfile_scheme res" where
  "kexit status s =
     bnd (need_proc s) (\<lambda>p.
       if initproc s = Some p then Panic ''init exiting''
       else bnd (close_ofiles [0..<NOFILE] p s) (\<lambda>s1.
            bnd (begin_op s1) (\<lambda>s2.
            bnd (need (p_cwd (procs s2 p))) (\<lambda>cwd.
            bnd (iput cwd s2) (\<lambda>s3.
            bnd (end_op s3) (\<lambda>s4.
            bnd (acquire_wait (upd_proc p (p_cwd_update (\<lambda>_. None)) s4)) (\<lambda>s5.
            bnd (reparent p s5) (\<lambda>s6.
            bnd (wakeup (proc_chan (p_parent (procs s6 p))) s6) (\<lambda>s7.
            bnd (acquire_proc p s7) (\<lambda>s8.
            bnd (release_wait (upd_proc p (\<lambda>x. x\<lparr>p_xstate := status, p_state := ZOMBIE\<rparr>) s8)) (\<lambda>s9.
            bnd (sched s9) (\<lambda>(ie, s10). Ok s10))))))))))))"

text \<open>One scan of the table by \<^verbatim>\<open>kwait\<close>: the answer, or whether there were children.\<close>

fun kwait_scan ::
    "nat list \<Rightarrow> nat \<Rightarrow> uint64 \<Rightarrow> bool \<Rightarrow> 'a kproc_scheme \<Rightarrow> ((int + bool) \<times> 'a kproc_scheme) res" where
  "kwait_scan [] p addr kids s = Ok (Inr kids, s)"
| "kwait_scan (pp # pps) p addr kids s =
     (if p_parent (procs s pp) = Some p then
        bnd (acquire_proc pp s) (\<lambda>s1.
          if p_state (procs s1 pp) = ZOMBIE then
            let pid = p_pid (procs s1 pp) in
            bnd (if addr \<noteq> 0
                 then copyout (p_pagetable (procs s1 p)) addr (getl (wr32 (\<lambda>_. 0) 0 (word_of_int (p_xstate (procs s1 pp)))) 0 4) s1
                 else Ok (0, s1)) (\<lambda>(r, s2).
              if r < 0 then bnd (release_proc pp s2) (\<lambda>s3. bnd (release_wait s3) (\<lambda>s4. Ok (Inl (-1), s4)))
              else bnd (freeproc pp s2) (\<lambda>s3. bnd (release_proc pp s3) (\<lambda>s4. bnd (release_wait s4) (\<lambda>s5. Ok (Inl pid, s5)))))
          else bnd (release_proc pp s1) (kwait_scan pps p addr True))
      else kwait_scan pps p addr kids s)"

definition kwait :: "uint64 \<Rightarrow> 'a kproc_scheme \<Rightarrow> (int \<times> 'a kproc_scheme) res" where
  "kwait addr s =
     bnd (need_proc s) (\<lambda>p.
     bnd (acquire_wait s) (\<lambda>s1.
     bnd (kwait_scan [0..<NPROC] p addr False s1) (\<lambda>(r, s2).
       case r of
         Inl pid \<Rightarrow> Ok (pid, s2)
       | Inr kids \<Rightarrow>
           if \<not> kids \<or> killed p s2 then bnd (release_wait s2) (\<lambda>s3. Ok (-1, s3))
           else Wait ''wait'')))"

text \<open>
  \<open>scheduler_pick\<close> is the scheduler up to \<^verbatim>\<open>swtch\<close> for one process, \<open>scheduler_back\<close> what follows it;
  \<open>run p\<close> is what process \<open>p\<close> does until it switches back.
\<close>

definition scheduler_pick :: "nat \<Rightarrow> 'a kproc_scheme \<Rightarrow> (bool \<times> 'a kproc_scheme) res" where
  "scheduler_pick p s =
     bnd (acquire_proc p s) (\<lambda>s1.
       if p_state (procs s1 p) = RUNNABLE
       then Ok (True, (upd_proc p (p_state_update (\<lambda>_. RUNNING)) s1)\<lparr>cpu_proc := Some p\<rparr>)
       else Ok (False, s1))"

definition scheduler_back :: "nat \<Rightarrow> 'a kproc_scheme \<Rightarrow> 'a kproc_scheme res" where
  "scheduler_back p s = release_proc p (s\<lparr>cpu_proc := None\<rparr>)"

fun scheduler_loop ::
    "(nat \<Rightarrow> 'a kproc_scheme \<Rightarrow> 'a kproc_scheme res) \<Rightarrow> nat list \<Rightarrow> bool \<Rightarrow> 'a kproc_scheme \<Rightarrow>
     (bool \<times> 'a kproc_scheme) res" where
  "scheduler_loop run [] found s = Ok (found, s)"
| "scheduler_loop run (p # ps) found s =
     bnd (scheduler_pick p s) (\<lambda>(b, s1).
       if b then bnd (run p s1) (\<lambda>s2. bnd (scheduler_back p s2) (scheduler_loop run ps True))
       else bnd (release_proc p s1) (scheduler_loop run ps found))"

text \<open>One turn of the endless loop; it ends in \<^verbatim>\<open>wfi\<close> when nothing was found.\<close>

definition scheduler_round ::
    "(nat \<Rightarrow> 'a kproc_scheme \<Rightarrow> 'a kproc_scheme res) \<Rightarrow> 'a kproc_scheme \<Rightarrow> (bool \<times> 'a kproc_scheme) res" where
  "scheduler_round run s = scheduler_loop run [0..<NPROC] False (s\<lparr>thiscpu := (thiscpu s)\<lparr>sie := False\<rparr>\<rparr>)"

definition yield_begin :: "'a kproc_scheme \<Rightarrow> (bool \<times> 'a kproc_scheme) res" where
  "yield_begin s =
     bnd (need_proc s) (\<lambda>p. bnd (acquire_proc p s) (\<lambda>s1.
       sched (upd_proc p (p_state_update (\<lambda>_. RUNNABLE)) s1)))"

definition yield_end :: "bool \<Rightarrow> 'a kproc_scheme \<Rightarrow> 'a kproc_scheme res" where
  "yield_end ie s = bnd (need_proc s) (\<lambda>p. release_proc p (sched_return ie s))"

text \<open>\<open>rel\<close> and \<open>acq\<close> are \<^verbatim>\<open>release(lk)\<close> and \<^verbatim>\<open>acquire(lk)\<close> of the condition lock.\<close>

definition sleep_begin ::
    "('a kproc_scheme \<Rightarrow> 'a kproc_scheme res) \<Rightarrow> chan \<Rightarrow> 'a kproc_scheme \<Rightarrow> (bool \<times> 'a kproc_scheme) res" where
  "sleep_begin rel ch s =
     bnd (need_proc s) (\<lambda>p. bnd (acquire_proc p s) (\<lambda>s1. bnd (rel s1) (\<lambda>s2.
       sched (upd_proc p (\<lambda>x. x\<lparr>p_chan := ch, p_state := SLEEPING\<rparr>) s2))))"

definition sleep_end ::
    "('a kproc_scheme \<Rightarrow> 'a kproc_scheme res) \<Rightarrow> bool \<Rightarrow> 'a kproc_scheme \<Rightarrow> 'a kproc_scheme res" where
  "sleep_end acq ie s =
     bnd (need_proc s) (\<lambda>p.
       bnd (release_proc p (upd_proc p (p_chan_update (\<lambda>_. NoChan)) (sched_return ie s))) acq)"

section \<open>kill\<close>

fun kkill_loop :: "nat list \<Rightarrow> int \<Rightarrow> 'a kproc_scheme \<Rightarrow> (int \<times> 'a kproc_scheme) res" where
  "kkill_loop [] pid s = Ok (-1, s)"
| "kkill_loop (p # ps) pid s =
     bnd (acquire_proc p s) (\<lambda>s1.
       if p_pid (procs s1 p) = pid then
         bnd (release_proc p (upd_proc p (\<lambda>x. x\<lparr>p_killed := True,
                p_state := (if p_state x = SLEEPING then RUNNABLE else p_state x)\<rparr>) s1)) (\<lambda>s2. Ok (0, s2))
       else bnd (release_proc p s1) (kkill_loop ps pid))"

definition kkill :: "int \<Rightarrow> 'a kproc_scheme \<Rightarrow> (int \<times> 'a kproc_scheme) res" where
  "kkill pid s = kkill_loop [0..<NPROC] pid s"

definition setkilled :: "nat \<Rightarrow> 'a kproc_scheme \<Rightarrow> 'a kproc_scheme res" where
  "setkilled p s =
     bnd (acquire_proc p s) (\<lambda>s1. release_proc p (upd_proc p (p_killed_update (\<lambda>_. True)) s1))"

end
