(* ===== verification/Sysproc.thy ===== *)
theory Sysproc
  imports Proc
begin

text \<open>
  Fetching the arguments of a system call, \<^verbatim>\<open>kernel/syscall.c\<close>, and the system calls about processes,
  \<^verbatim>\<open>kernel/sysproc.c\<close>.  A string argument is the list of its characters before the NUL.  The value
  of a call is an \<open>int\<close>, which \<^verbatim>\<open>syscall\<close> stores in \<^verbatim>\<open>a0\<close> as 64 bits.
\<close>

definition SBRK_EAGER :: int where [param_defs]: "SBRK_EAGER = 1"

section \<open>Arguments\<close>

definition fetchaddr :: "uint64 \<Rightarrow> 'a kproc_scheme \<Rightarrow> (uint64 option \<times> 'a kproc_scheme) res" where
  "fetchaddr addr s =
     bnd (need_proc s) (\<lambda>p.
       let sz = p_sz (procs s p) in
       if addr \<ge> sz \<or> addr + 8 > sz then Ok (None, s)
       else bnd (copyin (p_pagetable (procs s p)) addr 8 s) (\<lambda>((xs, ok), s1).
              Ok (if ok then Some (rd64 (cstr xs) 0) else None, s1)))"

text \<open>\<open>fetchbuf\<close> has the characters that \<^verbatim>\<open>copyinstr\<close> put in the buffer even when it failed.\<close>

definition fetchbuf :: "uint64 \<Rightarrow> nat \<Rightarrow> 'a kproc_scheme \<Rightarrow> (byte list \<times> bool) res" where
  "fetchbuf addr mx s = bnd (need_proc s) (\<lambda>p. Ok (copyinstr (p_pagetable (procs s p)) addr mx s))"

definition fetchstr :: "uint64 \<Rightarrow> nat \<Rightarrow> 'a kproc_scheme \<Rightarrow> byte list option res" where
  "fetchstr addr mx s = bnd (fetchbuf addr mx s) (\<lambda>(xs, ok). Ok (if ok then Some xs else None))"

definition argraw :: "nat \<Rightarrow> 'a kproc_scheme \<Rightarrow> uint64 res" where
  "argraw n s =
     bnd (need_proc s) (\<lambda>p.
       if n < 6 then Ok (rd64 (mem s) (unat (p_trapframe (procs s p)) + TF_a0 + 8 * n))
       else Panic ''argraw'')"

definition argint :: "nat \<Rightarrow> 'a kproc_scheme \<Rightarrow> int res" where
  "argint n s = bnd (argraw n s) (\<lambda>x. Ok (sint (ucast x :: uint)))"

definition argaddr :: "nat \<Rightarrow> 'a kproc_scheme \<Rightarrow> uint64 res" where
  "argaddr n s = argraw n s"

definition argstr :: "nat \<Rightarrow> nat \<Rightarrow> 'a kproc_scheme \<Rightarrow> byte list option res" where
  "argstr n mx s = bnd (argaddr n s) (\<lambda>addr. fetchstr addr mx s)"

section \<open>Calls\<close>

definition sys_exit :: "'a kfile_scheme \<Rightarrow> 'a kfile_scheme res" where
  "sys_exit s = bnd (argint 0 s) (\<lambda>n. kexit n s)"

definition sys_getpid :: "'a kproc_scheme \<Rightarrow> (int \<times> 'a kproc_scheme) res" where
  "sys_getpid s = bnd (need_proc s) (\<lambda>p. Ok (p_pid (procs s p), s))"

definition sys_fork :: "'a kfile_scheme \<Rightarrow> (int \<times> 'a kfile_scheme) res" where
  "sys_fork s = kfork s"

definition sys_wait :: "'a kproc_scheme \<Rightarrow> (int \<times> 'a kproc_scheme) res" where
  "sys_wait s = bnd (argaddr 0 s) (\<lambda>p. kwait p s)"

definition sys_sbrk :: "'a kproc_scheme \<Rightarrow> (int \<times> 'a kproc_scheme) res" where
  "sys_sbrk s =
     bnd (argint 0 s) (\<lambda>n. bnd (argint 1 s) (\<lambda>t. bnd (need_proc s) (\<lambda>p.
       let addr = p_sz (procs s p) in
       if t = SBRK_EAGER \<or> n < 0 then
         bnd (growproc n s) (\<lambda>(r, s1). Ok (if r < 0 then -1 else uint addr, s1))
       else if addr + word_of_int n < addr then Ok (-1, s)
       else Ok (uint addr, upd_proc p (p_sz_update (\<lambda>z. z + word_of_int n)) s))))"

text \<open>\<open>ticks0\<close> is the time at which the call was made; the call sleeps until enough ticks have
  passed, and looks again each time the clock wakes it.\<close>

definition sys_pause_at :: "uint \<Rightarrow> 'a kproc_scheme \<Rightarrow> (int \<times> 'a kproc_scheme) res" where
  "sys_pause_at ticks0 s =
     bnd (argint 0 s) (\<lambda>n0. bnd (need_proc s) (\<lambda>p.
       let n = (if n0 < 0 then 0 else n0) in
       if ticks s - ticks0 < word_of_int n then
         if killed p s then Ok (-1, s) else Wait ''ticks''
       else Ok (0, s)))"

definition sys_pause :: "'a kproc_scheme \<Rightarrow> (int \<times> 'a kproc_scheme) res" where
  "sys_pause s = sys_pause_at (ticks s) s"

definition sys_kill :: "'a kproc_scheme \<Rightarrow> (int \<times> 'a kproc_scheme) res" where
  "sys_kill s = bnd (argint 0 s) (\<lambda>pid. kkill pid s)"

definition sys_uptime :: "'a kproc_scheme \<Rightarrow> (int \<times> 'a kproc_scheme) res" where
  "sys_uptime s = Ok (uint (ticks s), s)"

end
