(* ===== verification/Exec.thy ===== *)
theory Exec
  imports Sysproc
begin

unbundle bit_operations_syntax

text \<open>
  Program loading, \<^verbatim>\<open>kernel/exec.c\<close>, with the layouts of \<^verbatim>\<open>kernel/elf.h\<close>.  The argument vector is the
  list of its strings.  The label \<^verbatim>\<open>bad\<close> is \<open>exec_bad\<close>: it takes the page table and size built so far
  and the inode while it is still locked.
\<close>

definition ELF_MAGIC :: uint where "ELF_MAGIC = 0x464C457F"
definition ELF_PROG_LOAD :: uint where "ELF_PROG_LOAD = 1"

record elfhdr =
  e_magic :: uint
  e_entry :: uint64
  e_phoff :: uint64
  e_phnum :: ushort

record proghdr =
  ph_type :: uint
  ph_flags :: uint
  ph_off :: uint64
  ph_vaddr :: uint64
  ph_filesz :: uint64
  ph_memsz :: uint64

definition ELFHDR_SIZE :: nat where "ELFHDR_SIZE = 64"
definition PROGHDR_SIZE :: nat where "PROGHDR_SIZE = 56"

definition rd_elfhdr :: "bytes \<Rightarrow> elfhdr" where
  "rd_elfhdr b = \<lparr>e_magic = rd32 b 0, e_entry = rd64 b 24, e_phoff = rd64 b 32, e_phnum = rd16 b 56\<rparr>"

definition rd_proghdr :: "bytes \<Rightarrow> proghdr" where
  "rd_proghdr b = \<lparr>ph_type = rd32 b 0, ph_flags = rd32 b 4, ph_off = rd64 b 8, ph_vaddr = rd64 b 16,
                   ph_filesz = rd64 b 32, ph_memsz = rd64 b 40\<rparr>"

definition flags2perm :: "uint \<Rightarrow> uint64" where
  "flags2perm flags =
     (let perm = (if flags AND 1 \<noteq> 0 then PTE_X else 0)
      in if flags AND 2 \<noteq> 0 then perm OR PTE_W else perm)"

function loadseg_loop ::
    "uint64 \<Rightarrow> uint64 \<Rightarrow> nat \<Rightarrow> uint \<Rightarrow> nat \<Rightarrow> nat \<Rightarrow> 'a kfs_scheme \<Rightarrow> (int \<times> 'a kfs_scheme) res" where
  "loadseg_loop pagetable va ip offset i sz s =
     (if i < sz then
        let pa = walkaddr pagetable (va + of_nat i) s in
        if pa = 0 then Panic ''loadseg: address should exist''
        else let n = min (sz - i) PGSIZE in
             bnd (readi ip (MemDst pa) (offset + of_nat i) (of_nat n) s) (\<lambda>((r, _), s1).
               if r \<noteq> int n then Ok (-1, s1)
               else loadseg_loop pagetable va ip offset (i + PGSIZE) sz s1)
      else Ok (0, s))"
  by pat_completeness auto
termination
  by (relation "measure (\<lambda>(pagetable, va, ip, offset, i, sz, s). sz - i)") (auto simp: PGSIZE_def)

declare loadseg_loop.simps [simp del]

definition loadseg ::
    "uint64 \<Rightarrow> uint64 \<Rightarrow> nat \<Rightarrow> uint \<Rightarrow> uint \<Rightarrow> 'a kfs_scheme \<Rightarrow> (int \<times> 'a kfs_scheme) res" where
  "loadseg pagetable va ip offset sz s = loadseg_loop pagetable va ip offset 0 (unat sz) s"

definition exec_bad ::
    "uint64 \<Rightarrow> uint64 \<Rightarrow> nat option \<Rightarrow> 'a kfs_scheme \<Rightarrow> (int \<times> 'a kfs_scheme) res" where
  "exec_bad pagetable sz ip s =
     bnd (if pagetable \<noteq> 0 then proc_freepagetable pagetable sz s else Ok s) (\<lambda>s1.
     bnd (case ip of None \<Rightarrow> Ok s1 | Some i \<Rightarrow> bnd (iunlockput i s1) end_op) (\<lambda>s2.
       Ok (-1, s2)))"

text \<open>
  The loop over the program headers: \<open>None\<close> where the source goes to \<^verbatim>\<open>bad\<close>, with the size
  allocated by then.
\<close>

definition load_one ::
    "uint64 \<Rightarrow> nat \<Rightarrow> proghdr \<Rightarrow> uint64 \<Rightarrow> 'a kfs_scheme \<Rightarrow> ((bool \<times> uint64) \<times> 'a kfs_scheme) res" where
  "load_one pagetable ip ph sz s =
     (if ph_type ph \<noteq> ELF_PROG_LOAD then Ok ((True, sz), s)
      else if ph_memsz ph < ph_filesz ph then Ok ((False, sz), s)
      else if ph_vaddr ph + ph_memsz ph < ph_vaddr ph then Ok ((False, sz), s)
      else if unat (ph_vaddr ph) mod PGSIZE \<noteq> 0 then Ok ((False, sz), s)
      else bnd (uvmalloc pagetable sz (ph_vaddr ph + ph_memsz ph) (flags2perm (ph_flags ph)) s) (\<lambda>(sz1, s1).
             if sz1 = 0 then Ok ((False, sz), s1)
             else bnd (loadseg pagetable (ph_vaddr ph) ip (ucast (ph_off ph)) (ucast (ph_filesz ph)) s1) (\<lambda>(r, s2).
                    Ok ((\<not> r < 0, sz1), s2))))"

fun load_segs ::
    "nat \<Rightarrow> uint \<Rightarrow> uint64 \<Rightarrow> nat \<Rightarrow> uint64 \<Rightarrow> 'a kfs_scheme \<Rightarrow> ((bool \<times> uint64) \<times> 'a kfs_scheme) res" where
  "load_segs 0 off pagetable ip sz s = Ok ((True, sz), s)"
| "load_segs (Suc k) off pagetable ip sz s =
     bnd (readi ip StackDst off (of_nat PROGHDR_SIZE) s) (\<lambda>((r, bs), s1).
       if r \<noteq> int PROGHDR_SIZE then Ok ((False, sz), s1)
       else bnd (load_one pagetable ip (rd_proghdr (cstr bs)) sz s1) (\<lambda>((ok, sz1), s2).
              if \<not> ok then Ok ((False, sz1), s2)
              else load_segs k (off + of_nat PROGHDR_SIZE) pagetable ip sz1 s2))"

text \<open>Pushing the argument strings: the stack pointer and the addresses pushed, or \<open>None\<close> for \<^verbatim>\<open>bad\<close>.\<close>

fun push_args ::
    "uint64 \<Rightarrow> uint64 \<Rightarrow> byte list list \<Rightarrow> uint64 \<Rightarrow> uint64 list \<Rightarrow> 'a kproc_scheme \<Rightarrow>
     ((uint64 \<times> uint64 list) option \<times> 'a kproc_scheme) res" where
  "push_args pagetable stackbase [] sp ustack s = Ok (Some (sp, ustack), s)"
| "push_args pagetable stackbase (a # as) sp ustack s =
     (if length ustack \<ge> MAXARG then Ok (None, s)
      else let sp1 = sp - of_nat (length a + 1);
               sp2 = sp1 - sp1 mod 16
           in if sp2 < stackbase then Ok (None, s)
              else bnd (copyout pagetable sp2 (a @ [0]) s) (\<lambda>(r, s1).
                     if r < 0 then Ok (None, s1)
                     else push_args pagetable stackbase as sp2 (ustack @ [sp2]) s1))"

definition bytes_of_uint64 :: "uint64 \<Rightarrow> byte list" where
  "bytes_of_uint64 x = getl (wr64 (\<lambda>_. 0) 0 x) 0 8"

text \<open>The name after the last slash.\<close>

definition base_name :: "byte list \<Rightarrow> byte list" where
  "base_name path = rev (takeWhile (\<lambda>c. c \<noteq> slash) (rev path))"

text \<open>From the user stack on: the program is loaded and the file closed.\<close>

definition exec_stack ::
    "byte list \<Rightarrow> byte list list \<Rightarrow> uint64 \<Rightarrow> uint64 \<Rightarrow> uint64 \<Rightarrow> 'a kfs_scheme \<Rightarrow> (int \<times> 'a kfs_scheme) res" where
  "exec_stack path argv entry pagetable sz0 s =
     bnd (need_proc s) (\<lambda>p.
       let oldsz = p_sz (procs s p);
           sz = PGROUNDUP sz0;
           need_sz = of_nat ((USERSTACK + 1) * PGSIZE)
       in bnd (uvmalloc pagetable sz (sz + need_sz) PTE_W s) (\<lambda>(sz1, s1).
          if sz1 = 0 then exec_bad pagetable sz None s1
          else bnd (uvmclear pagetable (sz1 - need_sz) s1) (\<lambda>s2.
          let stackbase = sz1 - of_nat (USERSTACK * PGSIZE) in
          bnd (push_args pagetable stackbase argv sz1 [] s2) (\<lambda>(pushed, s3).
            case pushed of
              None \<Rightarrow> exec_bad pagetable sz1 None s3
            | Some (sp0, ustack) \<Rightarrow>
                let argc = length ustack;
                    sp1 = sp0 - of_nat ((argc + 1) * 8);
                    sp = sp1 - sp1 mod 16
                in if sp < stackbase then exec_bad pagetable sz1 None s3
                   else bnd (copyout pagetable sp (concat (map bytes_of_uint64 (ustack @ [0]))) s3) (\<lambda>(r, s4).
                     if r < 0 then exec_bad pagetable sz1 None s4
                     else
                       let tf = unat (p_trapframe (procs s4 p));
                           oldpagetable = p_pagetable (procs s4 p);
                           s5 = upd_proc p (\<lambda>x. x\<lparr>p_name := safestrcpy (p_name x) 0 (cstr (base_name path)) 16,
                                                  p_pagetable := pagetable, p_sz := sz1\<rparr>) s4;
                           s6 = s5\<lparr>mem := wr64 (wr64 (wr64 (mem s5) (tf + TF_a1) sp) (tf + TF_epc) entry) (tf + TF_sp) sp\<rparr>
                       in bnd (proc_freepagetable oldpagetable oldsz s6) (\<lambda>s7. Ok (int argc, s7)))))))"

definition kexec :: "byte list \<Rightarrow> byte list list \<Rightarrow> 'a kfs_scheme \<Rightarrow> (int \<times> 'a kfs_scheme) res" where
  "kexec path argv s =
     bnd (need_proc s) (\<lambda>p.
     bnd (begin_op s) (\<lambda>s1.
     bnd (namei path s1) (\<lambda>(found, s2).
       case found of
         None \<Rightarrow> bnd (end_op s2) (\<lambda>s3. Ok (-1, s3))
       | Some ip \<Rightarrow>
           bnd (ilock ip s2) (\<lambda>s3.
           bnd (readi ip StackDst 0 (of_nat ELFHDR_SIZE) s3) (\<lambda>((r, bs), s4).
             if r \<noteq> int ELFHDR_SIZE then exec_bad 0 0 (Some ip) s4
             else let elf = rd_elfhdr (cstr bs) in
               if e_magic elf \<noteq> ELF_MAGIC then exec_bad 0 0 (Some ip) s4
               else bnd (proc_pagetable p s4) (\<lambda>(pagetable, s5).
                 if pagetable = 0 then exec_bad 0 0 (Some ip) s5
                 else bnd (load_segs (unat (e_phnum elf)) (ucast (e_phoff elf)) pagetable ip 0 s5) (\<lambda>((ok, sz), s6).
                   if \<not> ok then exec_bad pagetable sz (Some ip) s6
                   else bnd (iunlockput ip s6) (\<lambda>s7.
                        bnd (end_op s7) (\<lambda>s8.
                          exec_stack path argv (e_entry elf) pagetable sz s8)))))))))"

end
