(* ===== verification/Sysfile.thy ===== *)
theory Sysfile
  imports Exec
begin

unbundle bit_operations_syntax

text \<open>
  The system calls about files, \<^verbatim>\<open>kernel/sysfile.c\<close>, with \<^verbatim>\<open>create\<close>, which the checkpoint code calls
  too.  \<open>MAXPATH\<close> bounds every path that is fetched.
\<close>

definition O_RDONLY :: uint where "O_RDONLY = 0"
definition O_WRONLY :: uint where "O_WRONLY = 1"
definition O_RDWR :: uint where "O_RDWR = 2"
definition O_CREATE :: uint where "O_CREATE = 0x200"
definition O_TRUNC :: uint where "O_TRUNC = 0x400"

section \<open>Descriptors\<close>

definition argfd :: "nat \<Rightarrow> 'a kproc_scheme \<Rightarrow> (nat \<times> nat) option res" where
  "argfd n s =
     bnd (argint n s) (\<lambda>fd. bnd (need_proc s) (\<lambda>p.
       if fd < 0 \<or> fd \<ge> int NOFILE then Ok None
       else Ok (map_option (\<lambda>f. (nat fd, f)) (p_ofile (procs s p) (nat fd)))))"

definition fdalloc :: "nat \<Rightarrow> 'a kproc_scheme \<Rightarrow> (nat option \<times> 'a kproc_scheme) res" where
  "fdalloc f s =
     bnd (need_proc s) (\<lambda>p.
       case find (\<lambda>fd. p_ofile (procs s p) fd = None) [0..<NOFILE] of
         None \<Rightarrow> Ok (None, s)
       | Some fd \<Rightarrow> Ok (Some fd, upd_proc p (p_ofile_update (\<lambda>fs. fs(fd := Some f))) s))"

definition fdclear :: "nat \<Rightarrow> nat \<Rightarrow> 'a kproc_scheme \<Rightarrow> 'a kproc_scheme" where
  "fdclear p fd s = upd_proc p (p_ofile_update (\<lambda>fs. fs(fd := None))) s"

definition sys_dup :: "'a kfile_scheme \<Rightarrow> (int \<times> 'a kfile_scheme) res" where
  "sys_dup s =
     bnd (argfd 0 s) (\<lambda>a.
       case a of
         None \<Rightarrow> Ok (-1, s)
       | Some (_, f) \<Rightarrow>
           bnd (fdalloc f s) (\<lambda>(r, s1).
             case r of
               None \<Rightarrow> Ok (-1, s1)
             | Some fd \<Rightarrow> bnd (filedup f s1) (\<lambda>s2. Ok (int fd, s2))))"

definition sys_read :: "'a kfile_scheme \<Rightarrow> (int \<times> 'a kfile_scheme) res" where
  "sys_read s =
     bnd (argaddr 1 s) (\<lambda>p. bnd (argint 2 s) (\<lambda>n. bnd (argfd 0 s) (\<lambda>a.
       case a of None \<Rightarrow> Ok (-1, s) | Some (_, f) \<Rightarrow> fileread f p n s)))"

definition sys_write :: "'a kfile_scheme \<Rightarrow> (int \<times> 'a kfile_scheme) res" where
  "sys_write s =
     bnd (argaddr 1 s) (\<lambda>p. bnd (argint 2 s) (\<lambda>n. bnd (argfd 0 s) (\<lambda>a.
       case a of None \<Rightarrow> Ok (-1, s) | Some (_, f) \<Rightarrow> filewrite f p n s)))"

definition sys_close :: "'a kfile_scheme \<Rightarrow> (int \<times> 'a kfile_scheme) res" where
  "sys_close s =
     bnd (argfd 0 s) (\<lambda>a.
       case a of
         None \<Rightarrow> Ok (-1, s)
       | Some (fd, f) \<Rightarrow>
           bnd (need_proc s) (\<lambda>p. bnd (fileclose f (fdclear p fd s)) (\<lambda>s1. Ok (0, s1))))"

definition sys_fstat :: "byte list \<Rightarrow> 'a kfile_scheme \<Rightarrow> (int \<times> 'a kfile_scheme) res" where
  "sys_fstat pad s =
     bnd (argaddr 1 s) (\<lambda>st. bnd (argfd 0 s) (\<lambda>a.
       case a of None \<Rightarrow> Ok (-1, s) | Some (_, f) \<Rightarrow> filestat pad f st s))"

section \<open>Links\<close>

definition end_with :: "int \<Rightarrow> 'a klog_scheme \<Rightarrow> (int \<times> 'a klog_scheme) res" where
  "end_with r s = bnd (end_op s) (\<lambda>s1. Ok (r, s1))"

definition link_bad :: "nat \<Rightarrow> 'a kfs_scheme \<Rightarrow> (int \<times> 'a kfs_scheme) res" where
  "link_bad ip s =
     bnd (ilock ip s) (\<lambda>s1.
     bnd (iupdate ip (upd_inode ip (i_nlink_update (\<lambda>n. n - 1)) s1)) (\<lambda>s2.
     bnd (iunlockput ip s2) (end_with (-1))))"

definition do_link :: "byte list \<Rightarrow> byte list \<Rightarrow> 'a kfs_scheme \<Rightarrow> (int \<times> 'a kfs_scheme) res" where
  "do_link old new s =
     bnd (begin_op s) (\<lambda>s1.
     bnd (namei old s1) (\<lambda>(found, s2).
       case found of
         None \<Rightarrow> end_with (-1) s2
       | Some ip \<Rightarrow>
           bnd (ilock ip s2) (\<lambda>s3.
             if i_type (itable s3 ip) = T_DIR then bnd (iunlockput ip s3) (end_with (-1))
             else
               bnd (iupdate ip (upd_inode ip (i_nlink_update (\<lambda>n. n + 1)) s3)) (\<lambda>s4.
               bnd (iunlock ip s4) (\<lambda>s5.
               bnd (nameiparent new s5) (\<lambda>((dpo, name), s6).
                 case dpo of
                   None \<Rightarrow> link_bad ip s6
                 | Some dp \<Rightarrow>
                     bnd (ilock dp s6) (\<lambda>s7.
                     bnd (if i_dev (itable s7 dp) \<noteq> i_dev (itable s7 ip) then Ok (-1, s7)
                          else dirlink dp name (i_inum (itable s7 ip)) s7) (\<lambda>(r, s8).
                     bnd (iunlockput dp s8) (\<lambda>s9.
                       if r < 0 then link_bad ip s9
                       else bnd (iput ip s9) (end_with 0))))))))))"

definition sys_link :: "'a kfs_scheme \<Rightarrow> (int \<times> 'a kfs_scheme) res" where
  "sys_link s =
     bnd (argstr 0 MAXPATH s) (\<lambda>old0.
       case old0 of
         None \<Rightarrow> Ok (-1, s)
       | Some old \<Rightarrow> bnd (argstr 1 MAXPATH s) (\<lambda>new0.
           case new0 of None \<Rightarrow> Ok (-1, s) | Some new \<Rightarrow> do_link old new s))"

function isdirempty_loop :: "nat \<Rightarrow> nat \<Rightarrow> nat \<Rightarrow> 'a kfs_scheme \<Rightarrow> (bool \<times> 'a kfs_scheme) res" where
  "isdirempty_loop dp off sz s =
     (if off < sz then
        bnd (readi dp StackDst (of_nat off) (of_nat DIRENT_SIZE) s) (\<lambda>((r, de), s1).
          if r \<noteq> int DIRENT_SIZE then Panic ''isdirempty: readi''
          else if dirent_inum de \<noteq> 0 then Ok (False, s1)
          else isdirempty_loop dp (off + DIRENT_SIZE) sz s1)
      else Ok (True, s))"
  by pat_completeness auto
termination
  by (relation "measure (\<lambda>(dp, off, sz, s). sz - off)") (auto simp: DIRENT_SIZE_def)

declare isdirempty_loop.simps [simp del]

definition isdirempty :: "nat \<Rightarrow> 'a kfs_scheme \<Rightarrow> (bool \<times> 'a kfs_scheme) res" where
  "isdirempty dp s = isdirempty_loop dp (2 * DIRENT_SIZE) (unat (i_size (itable s dp))) s"

definition dot :: "byte list" where "dot = [0x2e]"
definition dotdot :: "byte list" where "dotdot = [0x2e, 0x2e]"

text \<open>The entry has been found: \<open>ip\<close> is locked and so is its directory \<open>dp\<close>.\<close>

definition unlink_entry :: "nat \<Rightarrow> nat \<Rightarrow> uint \<Rightarrow> 'a kfs_scheme \<Rightarrow> (int \<times> 'a kfs_scheme) res" where
  "unlink_entry dp ip off s =
     (if sint (i_nlink (itable s ip)) < 1 then Panic ''unlink: nlink < 1''
      else bnd (if i_type (itable s ip) = T_DIR then isdirempty ip s else Ok (True, s)) (\<lambda>(empty, s1).
        if \<not> empty then
          bnd (iunlockput ip s1) (\<lambda>s2. bnd (iunlockput dp s2) (end_with (-1)))
        else
          bnd (writei dp (StackSrc (replicate DIRENT_SIZE 0)) off (of_nat DIRENT_SIZE) s1) (\<lambda>(r, s2).
            if r \<noteq> int DIRENT_SIZE then Panic ''unlink: writei''
            else
              bnd (if i_type (itable s2 ip) = T_DIR
                   then iupdate dp (upd_inode dp (i_nlink_update (\<lambda>n. n - 1)) s2) else Ok s2) (\<lambda>s3.
              bnd (iunlockput dp s3) (\<lambda>s4.
              bnd (iupdate ip (upd_inode ip (i_nlink_update (\<lambda>n. n - 1)) s4)) (\<lambda>s5.
              bnd (iunlockput ip s5) (end_with 0)))))))"

definition do_unlink :: "byte list \<Rightarrow> 'a kfs_scheme \<Rightarrow> (int \<times> 'a kfs_scheme) res" where
  "do_unlink path s =
     bnd (begin_op s) (\<lambda>s1.
     bnd (nameiparent path s1) (\<lambda>((dpo, name), s2).
       case dpo of
         None \<Rightarrow> end_with (-1) s2
       | Some dp \<Rightarrow>
           bnd (ilock dp s2) (\<lambda>s3.
             if namecmp (cstr name) (cstr dot) = 0 \<or> namecmp (cstr name) (cstr dotdot) = 0
             then bnd (iunlockput dp s3) (end_with (-1))
             else bnd (dirlookup dp name s3) (\<lambda>(found, s4).
               case found of
                 None \<Rightarrow> bnd (iunlockput dp s4) (end_with (-1))
               | Some (ip, off) \<Rightarrow> bnd (ilock ip s4) (unlink_entry dp ip off)))))"

definition sys_unlink :: "'a kfs_scheme \<Rightarrow> (int \<times> 'a kfs_scheme) res" where
  "sys_unlink s =
     bnd (argstr 0 MAXPATH s) (\<lambda>a. case a of None \<Rightarrow> Ok (-1, s) | Some path \<Rightarrow> do_unlink path s)"

section \<open>Creating and opening\<close>

definition create_fail :: "nat \<Rightarrow> nat \<Rightarrow> 'a kfs_scheme \<Rightarrow> (nat option \<times> 'a kfs_scheme) res" where
  "create_fail dp ip s =
     bnd (iupdate ip (upd_inode ip (i_nlink_update (\<lambda>_. 0)) s)) (\<lambda>s1.
     bnd (iunlockput ip s1) (\<lambda>s2. bnd (iunlockput dp s2) (\<lambda>s3. Ok (None, s3))))"

definition create_new ::
    "nat \<Rightarrow> byte list \<Rightarrow> ushort \<Rightarrow> ushort \<Rightarrow> ushort \<Rightarrow> nat \<Rightarrow> 'a kfs_scheme \<Rightarrow> (nat option \<times> 'a kfs_scheme) res" where
  "create_new dp name type major minor ip s =
     bnd (ilock ip s) (\<lambda>s1.
     bnd (iupdate ip (upd_inode ip (\<lambda>x. x\<lparr>i_major := major, i_minor := minor, i_nlink := 1\<rparr>) s1)) (\<lambda>s2.
     bnd (if type = T_DIR
          then bnd (dirlink ip dot (i_inum (itable s2 ip)) s2) (\<lambda>(r, s3).
                 if r < 0 then Ok (r, s3) else dirlink ip dotdot (i_inum (itable s3 dp)) s3)
          else Ok (0, s2)) (\<lambda>(r, s4).
       if r < 0 then create_fail dp ip s4
       else bnd (dirlink dp name (i_inum (itable s4 ip)) s4) (\<lambda>(r, s5).
         if r < 0 then create_fail dp ip s5
         else bnd (if type = T_DIR
                   then iupdate dp (upd_inode dp (i_nlink_update (\<lambda>n. n + 1)) s5) else Ok s5) (\<lambda>s6.
              bnd (iunlockput dp s6) (\<lambda>s7. Ok (Some ip, s7)))))))"

definition create ::
    "byte list \<Rightarrow> ushort \<Rightarrow> ushort \<Rightarrow> ushort \<Rightarrow> 'a kfs_scheme \<Rightarrow> (nat option \<times> 'a kfs_scheme) res" where
  "create path type major minor s =
     bnd (nameiparent path s) (\<lambda>((dpo, name), s1).
       case dpo of
         None \<Rightarrow> Ok (None, s1)
       | Some dp \<Rightarrow>
           bnd (ilock dp s1) (\<lambda>s2.
           bnd (dirlookup dp name s2) (\<lambda>(found, s3).
             case found of
               Some (ip, _) \<Rightarrow>
                 bnd (iunlockput dp s3) (\<lambda>s4.
                 bnd (ilock ip s4) (\<lambda>s5.
                   if type = T_FILE \<and> (i_type (itable s5 ip) = T_FILE \<or> i_type (itable s5 ip) = T_DEVICE)
                   then Ok (Some ip, s5)
                   else bnd (iunlockput ip s5) (\<lambda>s6. Ok (None, s6))))
             | None \<Rightarrow>
                 bnd (ialloc (i_dev (itable s3 dp)) type s3) (\<lambda>(ipo, s4).
                   case ipo of
                     None \<Rightarrow> bnd (iunlockput dp s4) (\<lambda>s5. Ok (None, s5))
                   | Some ip \<Rightarrow> create_new dp name type major minor ip s4))))"

definition open_fail :: "nat \<Rightarrow> 'a kfs_scheme \<Rightarrow> (int \<times> 'a kfs_scheme) res" where
  "open_fail ip s = bnd (iunlockput ip s) (end_with (-1))"

text \<open>From the locked inode to the descriptor.\<close>

definition open_inode :: "nat \<Rightarrow> uint \<Rightarrow> 'a kfile_scheme \<Rightarrow> (int \<times> 'a kfile_scheme) res" where
  "open_inode ip omode s =
     (let x = itable s ip in
      if i_type x = T_DEVICE \<and> (sint (i_major x) < 0 \<or> sint (i_major x) \<ge> int NDEV) then open_fail ip s
      else case filealloc s of
        (None, s1) \<Rightarrow> open_fail ip s1
      | (Some f, s1) \<Rightarrow>
          bnd (fdalloc f s1) (\<lambda>(fdo, s2).
            case fdo of
              None \<Rightarrow> bnd (fileclose f s2) (open_fail ip)
            | Some fd \<Rightarrow>
                let s3 = upd_file f (\<lambda>y.
                           (if i_type x = T_DEVICE then y\<lparr>f_type := FD_DEVICE, f_major := i_major x\<rparr>
                            else y\<lparr>f_type := FD_INODE, f_off := 0\<rparr>)
                           \<lparr>f_ip := ip,
                            f_readable := (if omode AND O_WRONLY = 0 then 1 else 0),
                            f_writable := (if omode AND O_WRONLY \<noteq> 0 \<or> omode AND O_RDWR \<noteq> 0 then 1 else 0)\<rparr>) s2
                in bnd (if omode AND O_TRUNC \<noteq> 0 \<and> i_type x = T_FILE then itrunc ip s3 else Ok s3) (\<lambda>s4.
                   bnd (iunlock ip s4) (end_with (int fd)))))"

definition do_open :: "byte list \<Rightarrow> uint \<Rightarrow> 'a kfile_scheme \<Rightarrow> (int \<times> 'a kfile_scheme) res" where
  "do_open path omode s =
     bnd (begin_op s) (\<lambda>s1.
       if omode AND O_CREATE \<noteq> 0 then
         bnd (create path T_FILE 0 0 s1) (\<lambda>(ipo, s2).
           case ipo of None \<Rightarrow> end_with (-1) s2 | Some ip \<Rightarrow> open_inode ip omode s2)
       else
         bnd (namei path s1) (\<lambda>(ipo, s2).
           case ipo of
             None \<Rightarrow> end_with (-1) s2
           | Some ip \<Rightarrow>
               bnd (ilock ip s2) (\<lambda>s3.
                 if i_type (itable s3 ip) = T_DIR \<and> omode \<noteq> O_RDONLY then open_fail ip s3
                 else open_inode ip omode s3)))"

definition sys_open :: "'a kfile_scheme \<Rightarrow> (int \<times> 'a kfile_scheme) res" where
  "sys_open s =
     bnd (argint 1 s) (\<lambda>omode. bnd (argstr 0 MAXPATH s) (\<lambda>a.
       case a of None \<Rightarrow> Ok (-1, s) | Some path \<Rightarrow> do_open path (word_of_int omode) s))"

definition create_and_put ::
    "byte list option \<Rightarrow> ushort \<Rightarrow> ushort \<Rightarrow> ushort \<Rightarrow> 'a kfs_scheme \<Rightarrow> (int \<times> 'a kfs_scheme) res" where
  "create_and_put patho type major minor s =
     (case patho of
        None \<Rightarrow> end_with (-1) s
      | Some path \<Rightarrow>
          bnd (create path type major minor s) (\<lambda>(ipo, s1).
            case ipo of
              None \<Rightarrow> end_with (-1) s1
            | Some ip \<Rightarrow> bnd (iunlockput ip s1) (end_with 0)))"

definition sys_mkdir :: "'a kfs_scheme \<Rightarrow> (int \<times> 'a kfs_scheme) res" where
  "sys_mkdir s =
     bnd (begin_op s) (\<lambda>s1. bnd (argstr 0 MAXPATH s1) (\<lambda>a. create_and_put a T_DIR 0 0 s1))"

definition sys_mknod :: "'a kfs_scheme \<Rightarrow> (int \<times> 'a kfs_scheme) res" where
  "sys_mknod s =
     bnd (begin_op s) (\<lambda>s1.
     bnd (argint 1 s1) (\<lambda>major. bnd (argint 2 s1) (\<lambda>minor.
     bnd (argstr 0 MAXPATH s1) (\<lambda>a. create_and_put a T_DEVICE (word_of_int major) (word_of_int minor) s1))))"

definition sys_chdir :: "'a kfs_scheme \<Rightarrow> (int \<times> 'a kfs_scheme) res" where
  "sys_chdir s =
     bnd (need_proc s) (\<lambda>p.
     bnd (begin_op s) (\<lambda>s1.
     bnd (argstr 0 MAXPATH s1) (\<lambda>a.
       case a of
         None \<Rightarrow> end_with (-1) s1
       | Some path \<Rightarrow>
           bnd (namei path s1) (\<lambda>(ipo, s2).
             case ipo of
               None \<Rightarrow> end_with (-1) s2
             | Some ip \<Rightarrow>
                 bnd (ilock ip s2) (\<lambda>s3.
                   if i_type (itable s3 ip) \<noteq> T_DIR then bnd (iunlockput ip s3) (end_with (-1))
                   else bnd (iunlock ip s3) (\<lambda>s4.
                        bnd (need (p_cwd (procs s4 p))) (\<lambda>cwd.
                        bnd (iput cwd s4) (\<lambda>s5.
                        bnd (end_op s5) (\<lambda>s6.
                          Ok (0, upd_proc p (p_cwd_update (\<lambda>_. Some ip)) s6))))))))))"

section \<open>exec and pipe\<close>

text \<open>
  The argument vector: whether it was fetched, and the pages allocated for it with their strings.
\<close>

fun exec_args ::
    "nat \<Rightarrow> uint64 \<Rightarrow> nat \<Rightarrow> (uint64 \<times> byte list) list \<Rightarrow> 'a kproc_scheme \<Rightarrow>
     ((bool \<times> (uint64 \<times> byte list) list) \<times> 'a kproc_scheme) res" where
  "exec_args 0 uargv i argv s = Ok ((False, argv), s)"
| "exec_args (Suc k) uargv i argv s =
     bnd (fetchaddr (uargv + of_nat (8 * i)) s) (\<lambda>(ua, s1).
       case ua of
         None \<Rightarrow> Ok ((False, argv), s1)
       | Some uarg \<Rightarrow>
           if uarg = 0 then Ok ((True, argv), s1)
           else case kalloc s1 of
             (pg, s2) \<Rightarrow>
               if pg = 0 then Ok ((False, argv), s2)
               else bnd (fetchbuf uarg PGSIZE s2) (\<lambda>(xs, ok).
                 let s3 = s2\<lparr>mem := putl (mem s2) (unat pg) (if ok then xs @ [0] else xs)\<rparr> in
                 if \<not> ok then Ok ((False, argv @ [(pg, xs)]), s3)
                 else exec_args k uargv (i + 1) (argv @ [(pg, xs)]) s3))"

fun free_args :: "(uint64 \<times> byte list) list \<Rightarrow> 'a kmem_scheme \<Rightarrow> 'a kmem_scheme res" where
  "free_args [] s = Ok s"
| "free_args ((pg, xs) # as) s = bnd (kfree pg s) (free_args as)"

definition sys_exec :: "'a kfs_scheme \<Rightarrow> (int \<times> 'a kfs_scheme) res" where
  "sys_exec s =
     bnd (argaddr 1 s) (\<lambda>uargv. bnd (argstr 0 MAXPATH s) (\<lambda>a.
       case a of
         None \<Rightarrow> Ok (-1, s)
       | Some path \<Rightarrow>
           bnd (exec_args MAXARG uargv 0 [] s) (\<lambda>((ok, argv), s1).
             if \<not> ok then bnd (free_args argv s1) (\<lambda>s2. Ok (-1, s2))
             else bnd (kexec path (map snd argv) s1) (\<lambda>(ret, s2).
                  bnd (free_args argv s2) (\<lambda>s3. Ok (ret, s3))))))"

definition bytes_of_int :: "int \<Rightarrow> byte list" where
  "bytes_of_int x = getl (wr32 (\<lambda>_. 0) 0 (word_of_int x)) 0 4"

definition pipe_abort :: "nat \<Rightarrow> nat \<Rightarrow> 'a kfile_scheme \<Rightarrow> (int \<times> 'a kfile_scheme) res" where
  "pipe_abort rfl wfl s = bnd (fileclose rfl s) (\<lambda>s1. bnd (fileclose wfl s1) (\<lambda>s2. Ok (-1, s2)))"

definition sys_pipe :: "'a kfile_scheme \<Rightarrow> (int \<times> 'a kfile_scheme) res" where
  "sys_pipe s =
     bnd (need_proc s) (\<lambda>p. bnd (argaddr 0 s) (\<lambda>fdarray.
     bnd (pipealloc s) (\<lambda>(fo, s1).
       case fo of
         None \<Rightarrow> Ok (-1, s1)
       | Some (rfl, wfl) \<Rightarrow>
           bnd (fdalloc rfl s1) (\<lambda>(a0, s2).
             case a0 of
               None \<Rightarrow> pipe_abort rfl wfl s2
             | Some fd0 \<Rightarrow>
                 bnd (fdalloc wfl s2) (\<lambda>(a1, s3).
                   case a1 of
                     None \<Rightarrow> pipe_abort rfl wfl (fdclear p fd0 s3)
                   | Some fd1 \<Rightarrow>
                       bnd (copyout (p_pagetable (procs s3 p)) fdarray (bytes_of_int (int fd0)) s3) (\<lambda>(r, s4).
                       bnd (if r < 0 then Ok (r, s4)
                            else copyout (p_pagetable (procs s4 p)) (fdarray + 4) (bytes_of_int (int fd1)) s4) (\<lambda>(r, s5).
                         if r < 0 then pipe_abort rfl wfl (fdclear p fd1 (fdclear p fd0 s5))
                         else Ok (0, s5))))))))"

end
