(* ===== verification/Checkpoint.thy ===== *)
theory Checkpoint
  imports Sysfile
begin

unbundle bit_operations_syntax

text \<open>
  Checkpoint and restore: \<^verbatim>\<open>checkpoint_proc\<close> and \<^verbatim>\<open>restore_proc\<close> of \<^verbatim>\<open>kernel/proc.c\<close>,
  \<^verbatim>\<open>checkpoint_addr_space\<close> and \<^verbatim>\<open>restore_addr_space\<close> of \<^verbatim>\<open>kernel/vm.c\<close> and their two system calls.  The
  header of a checkpoint file is the record \<open>ckpt_header\<close>; \<open>hdr_bytes\<close> and \<open>rd_hdr\<close> are its layout.
  Bytes of the header that the code does not set (padding, and the name after its NUL) are those
  the kernel stack held, the argument \<open>junk\<close>.
\<close>

definition CKPT_MAGIC :: uint where "CKPT_MAGIC = 0x43484B50"
definition CKPT_VERSION :: uint where "CKPT_VERSION = 1"
definition CKPT_FD_SIZE :: nat where "CKPT_FD_SIZE = 24"
definition CKPT_HDR_SIZE :: nat where "CKPT_HDR_SIZE = 720"

record ckpt_fd =
  cf_type :: uint
  cf_readable :: byte
  cf_writable :: byte
  cf_inum :: uint
  cf_off :: uint
  cf_major :: ushort
  cf_pipe_id :: uint

record ckpt_header =
  h_magic :: uint
  h_version :: uint
  h_pid :: uint
  h_sz :: uint64
  h_tf :: "byte list"
  h_name :: "byte list"
  h_num_fds :: uint
  h_cwd_inum :: uint
  h_fds :: "nat \<Rightarrow> ckpt_fd"

fun fdcode :: "fdtype \<Rightarrow> uint" where
  "fdcode FD_NONE = 0" | "fdcode FD_PIPE = 1" | "fdcode FD_INODE = 2" | "fdcode FD_DEVICE = 3"

section \<open>Layout\<close>

definition wr_ckpt_fd :: "bytes \<Rightarrow> nat \<Rightarrow> ckpt_fd \<Rightarrow> bytes" where
  "wr_ckpt_fd b a d =
     wr32 (wr16 (wr32 (wr32 ((wr32 b a (cf_type d))(a + 4 := cf_readable d, a + 5 := cf_writable d))
       (a + 8) (cf_inum d)) (a + 12) (cf_off d)) (a + 16) (cf_major d)) (a + 20) (cf_pipe_id d)"

definition rd_ckpt_fd :: "bytes \<Rightarrow> nat \<Rightarrow> ckpt_fd" where
  "rd_ckpt_fd b a =
     \<lparr>cf_type = rd32 b a, cf_readable = b (a + 4), cf_writable = b (a + 5), cf_inum = rd32 b (a + 8),
      cf_off = rd32 b (a + 12), cf_major = rd16 b (a + 16), cf_pipe_id = rd32 b (a + 20)\<rparr>"

fun wr_ckpt_fds :: "bytes \<Rightarrow> nat \<Rightarrow> (nat \<Rightarrow> ckpt_fd) \<Rightarrow> nat \<Rightarrow> bytes" where
  "wr_ckpt_fds b a fds 0 = b"
| "wr_ckpt_fds b a fds (Suc k) = wr_ckpt_fd (wr_ckpt_fds b a fds k) (a + CKPT_FD_SIZE * k) (fds k)"

definition wr_hdr :: "bytes \<Rightarrow> ckpt_header \<Rightarrow> bytes" where
  "wr_hdr junk h =
     (let b1 = wr32 (wr32 (wr32 junk 0 (h_magic h)) 4 (h_version h)) 8 (h_pid h);
          b2 = putl (wr64 b1 16 (h_sz h)) 24 (h_tf h);
          b3 = wr32 (wr32 (putl b2 312 (h_name h)) 328 (h_num_fds h)) 332 (h_cwd_inum h)
      in wr_ckpt_fds b3 336 (h_fds h) NOFILE)"

definition hdr_bytes :: "bytes \<Rightarrow> ckpt_header \<Rightarrow> byte list" where
  "hdr_bytes junk h = getl (wr_hdr junk h) 0 CKPT_HDR_SIZE"

definition rd_hdr :: "bytes \<Rightarrow> ckpt_header" where
  "rd_hdr b =
     \<lparr>h_magic = rd32 b 0, h_version = rd32 b 4, h_pid = rd32 b 8, h_sz = rd64 b 16,
      h_tf = getl b 24 TF_SIZE, h_name = getl b 312 16, h_num_fds = rd32 b 328, h_cwd_inum = rd32 b 332,
      h_fds = (\<lambda>i. rd_ckpt_fd b (336 + CKPT_FD_SIZE * i))\<rparr>"

section \<open>The address space\<close>

function checkpoint_addr_space ::
    "uint64 \<Rightarrow> nat \<Rightarrow> nat \<Rightarrow> nat \<Rightarrow> uint \<Rightarrow> 'a kfs_scheme \<Rightarrow> (int \<times> 'a kfs_scheme) res" where
  "checkpoint_addr_space pagetable i sz ip off s =
     (if i < sz then
        bnd (walk pagetable (of_nat i) False s) (\<lambda>(pte, _).
          let present = (pte \<noteq> 0 \<and> rd64 (mem s) (unat pte) AND PTE_V \<noteq> 0) in
          bnd (writei ip (StackSrc [if present then 1 else 0]) off 1 s) (\<lambda>(r, s1).
            if r \<noteq> 1 then Ok (-1, s1)
            else if present then
              bnd (writei ip (MemSrc (PTE2PA (rd64 (mem s1) (unat pte)))) (off + 1) (of_nat PGSIZE) s1) (\<lambda>(r, s2).
                if r \<noteq> int PGSIZE then Ok (-1, s2)
                else checkpoint_addr_space pagetable (i + PGSIZE) sz ip (off + 1 + of_nat PGSIZE) s2)
            else checkpoint_addr_space pagetable (i + PGSIZE) sz ip (off + 1) s1))
      else Ok (0, s))"
  by pat_completeness auto
termination
  by (relation "measure (\<lambda>(pagetable, i, sz, ip, off, s). sz - i)") (auto simp: PGSIZE_def)

function restore_addr_space ::
    "uint64 \<Rightarrow> nat \<Rightarrow> nat \<Rightarrow> nat \<Rightarrow> uint \<Rightarrow> 'a kfs_scheme \<Rightarrow> (int \<times> 'a kfs_scheme) res" where
  "restore_addr_space pagetable i sz ip off s =
     (if i < sz then
        bnd (readi ip StackDst off 1 s) (\<lambda>((r, bs), s1).
          if r \<noteq> 1 then Ok (-1, s1)
          else bnd (walk pagetable (of_nat i) False s1) (\<lambda>(pte, _).
            if pte = 0 then Ok (-1, s1)
            else if rd64 (mem s1) (unat pte) AND PTE_V = 0 then Ok (-1, s1)
            else let pa = PTE2PA (rd64 (mem s1) (unat pte)) in
              if hd bs \<noteq> 0 then
                bnd (readi ip (MemDst pa) (off + 1) (of_nat PGSIZE) s1) (\<lambda>((r, _), s2).
                  if r \<noteq> int PGSIZE then Ok (-1, s2)
                  else restore_addr_space pagetable (i + PGSIZE) sz ip (off + 1 + of_nat PGSIZE) s2)
              else restore_addr_space pagetable (i + PGSIZE) sz ip (off + 1)
                     (s1\<lparr>mem := memset (mem s1) (unat pa) 0 PGSIZE\<rparr>)))
      else Ok (0, s))"
  by pat_completeness auto
termination
  by (relation "measure (\<lambda>(pagetable, i, sz, ip, off, s). sz - i)") (auto simp: PGSIZE_def)

declare checkpoint_addr_space.simps [simp del] restore_addr_space.simps [simp del]

section \<open>Checkpoint\<close>

definition no_ckpt_fd :: ckpt_fd where
  "no_ckpt_fd = \<lparr>cf_type = 0, cf_readable = 0, cf_writable = 0, cf_inum = 0, cf_off = 0, cf_major = 0,
                 cf_pipe_id = -1\<rparr>"

text \<open>
  What the loop over the descriptors has so far: the table, for each pipe its address and how often
  it occurs, for reading and for writing, and the number of descriptors.
\<close>

record capture =
  cap_fds :: "nat \<Rightarrow> ckpt_fd"
  cap_pipes :: "(uint64 \<times> nat \<times> nat \<times> nat) list"
  cap_num :: uint

fun find_pipe :: "uint64 \<Rightarrow> (uint64 \<times> nat \<times> nat \<times> nat) list \<Rightarrow> nat \<Rightarrow> nat option" where
  "find_pipe pi [] j = None"
| "find_pipe pi ((q, _) # ps) j = (if q = pi then Some j else find_pipe pi ps (j + 1))"

definition capture_pipe :: "nat \<Rightarrow> filerec \<Rightarrow> ckpt_fd \<Rightarrow> capture \<Rightarrow> capture option" where
  "capture_pipe i f d c =
     (let found = find_pipe (f_pipe f) (cap_pipes c) 0;
          ps = (case found of None \<Rightarrow> cap_pipes c @ [(f_pipe f, 0, 0, 0)] | Some _ \<Rightarrow> cap_pipes c);
          k = (case found of None \<Rightarrow> length (cap_pipes c) | Some j \<Rightarrow> j)
      in if found = None \<and> length (cap_pipes c) \<ge> NOFILE then None
         else case ps ! k of
           (q, n, r, w) \<Rightarrow>
             let rd = (f_readable f \<noteq> 0 \<and> f_writable f = 0); wr = (f_readable f = 0 \<and> f_writable f \<noteq> 0) in
             if \<not> rd \<and> \<not> wr then None
             else if n + 1 > 2 then None
             else Some (c\<lparr>cap_fds := (cap_fds c)(i := d\<lparr>cf_pipe_id := of_nat k\<rparr>),
                          cap_pipes := ps[k := (q, n + 1, if rd then r + 1 else r, if wr then w + 1 else w)],
                          cap_num := cap_num c + 1\<rparr>))"

definition capture_fd :: "nat \<Rightarrow> filerec \<Rightarrow> (nat \<Rightarrow> inode) \<Rightarrow> capture \<Rightarrow> capture option" where
  "capture_fd i f itab c =
     (let d = (cap_fds c i)\<lparr>cf_type := fdcode (f_type f), cf_readable := f_readable f, cf_writable := f_writable f\<rparr> in
      case f_type f of
        FD_INODE \<Rightarrow> Some (c\<lparr>cap_fds := (cap_fds c)(i := d\<lparr>cf_inum := i_inum (itab (f_ip f)), cf_off := f_off f\<rparr>),
                            cap_num := cap_num c + 1\<rparr>)
      | FD_DEVICE \<Rightarrow> Some (c\<lparr>cap_fds := (cap_fds c)(i := d\<lparr>cf_inum := i_inum (itab (f_ip f)), cf_major := f_major f\<rparr>),
                             cap_num := cap_num c + 1\<rparr>)
      | FD_PIPE \<Rightarrow> capture_pipe i f d c
      | FD_NONE \<Rightarrow> None)"

fun capture_fds :: "nat list \<Rightarrow> nat \<Rightarrow> 'a kfile_scheme \<Rightarrow> capture \<Rightarrow> capture option" where
  "capture_fds [] p s c = Some c"
| "capture_fds (i # is) p s c =
     (case p_ofile (procs s p) i of
        None \<Rightarrow> capture_fds is p s c
      | Some f \<Rightarrow> (case capture_fd i (ftable s f) (itable s) c of
                     None \<Rightarrow> None
                   | Some c1 \<Rightarrow> capture_fds is p s c1))"

definition capture_all :: "nat \<Rightarrow> 'a kfile_scheme \<Rightarrow> capture option" where
  "capture_all p s =
     (case capture_fds [0..<NOFILE] p s \<lparr>cap_fds = (\<lambda>_. no_ckpt_fd), cap_pipes = [], cap_num = 0\<rparr> of
        None \<Rightarrow> None
      | Some c \<Rightarrow> if list_all (\<lambda>(q, n, r, w). n = 2 \<and> r = 1 \<and> w = 1) (cap_pipes c) then Some c else None)"

definition ckpt_name :: "bytes \<Rightarrow> bytes \<Rightarrow> byte list" where
  "ckpt_name junk nm = getl (safestrcpy (\<lambda>i. junk (312 + i)) 0 nm 16) 0 16"

definition build_hdr :: "bytes \<Rightarrow> nat \<Rightarrow> capture \<Rightarrow> 'a kfile_scheme \<Rightarrow> ckpt_header" where
  "build_hdr junk p c s =
     (let pr = procs s p in
      \<lparr>h_magic = CKPT_MAGIC, h_version = CKPT_VERSION, h_pid = word_of_int (p_pid pr), h_sz = p_sz pr,
       h_tf = getl (mem s) (unat (p_trapframe pr)) TF_SIZE, h_name = ckpt_name junk (p_name pr),
       h_num_fds = cap_num c,
       h_cwd_inum = (case p_cwd pr of None \<Rightarrow> 0 | Some i \<Rightarrow> i_inum (itable s i)),
       h_fds = cap_fds c\<rparr>)"

definition put_end :: "nat \<Rightarrow> int \<Rightarrow> 'a kfs_scheme \<Rightarrow> (int \<times> 'a kfs_scheme) res" where
  "put_end ip r s = bnd (iunlockput ip s) (\<lambda>s1. bnd (end_op s1) (\<lambda>s2. Ok (r, s2)))"

definition checkpoint_proc :: "bytes \<Rightarrow> nat \<Rightarrow> byte list \<Rightarrow> 'a kfile_scheme \<Rightarrow> (int \<times> 'a kfile_scheme) res" where
  "checkpoint_proc junk p path s =
     bnd (begin_op s) (\<lambda>s1.
     bnd (create path T_FILE 0 0 s1) (\<lambda>(ipo, s2).
       case ipo of
         None \<Rightarrow> bnd (end_op s2) (\<lambda>s3. Ok (-1, s3))
       | Some ip \<Rightarrow>
           (case capture_all p s2 of
              None \<Rightarrow> put_end ip (-1) s2
            | Some c \<Rightarrow>
                bnd (writei ip (StackSrc (hdr_bytes junk (build_hdr junk p c s2))) 0 (of_nat CKPT_HDR_SIZE) s2) (\<lambda>(r, s3).
                  if r \<noteq> int CKPT_HDR_SIZE then put_end ip (-1) s3
                  else bnd (checkpoint_addr_space (p_pagetable (procs s3 p)) 0 (unat (p_sz (procs s3 p))) ip
                              (of_nat CKPT_HDR_SIZE) s3) (\<lambda>(r, s4).
                         put_end ip (if r < 0 then -1 else 0) s4)))))"

section \<open>Restore\<close>

text \<open>The label \<^verbatim>\<open>bad\<close>.\<close>

definition restore_bad :: "nat \<Rightarrow> nat \<Rightarrow> 'a kfile_scheme \<Rightarrow> (int \<times> 'a kfile_scheme) res" where
  "restore_bad np ip s =
     bnd (close_ofiles [0..<NOFILE] np s) (\<lambda>s1.
     bnd (case p_cwd (procs s1 np) of
            None \<Rightarrow> Ok s1
          | Some cwd \<Rightarrow> bnd (iput cwd s1) (\<lambda>s2. Ok (upd_proc np (p_cwd_update (\<lambda>_. None)) s2))) (\<lambda>s3.
     bnd (acquire_proc np s3) (\<lambda>s4.
     bnd (freeproc np s4) (\<lambda>s5.
     bnd (release_proc np s5) (put_end ip (-1))))))"

definition set_ofile :: "nat \<Rightarrow> nat \<Rightarrow> nat option \<Rightarrow> 'a kproc_scheme \<Rightarrow> 'a kproc_scheme" where
  "set_ofile np i f s = upd_proc np (p_ofile_update (\<lambda>fs. fs(i := f))) s"

definition fdtype_of :: "uint \<Rightarrow> fdtype option" where
  "fdtype_of c = (if c = 0 then Some FD_NONE else if c = 1 then Some FD_PIPE
                  else if c = 2 then Some FD_INODE else if c = 3 then Some FD_DEVICE else None)"

text \<open>The first loop over the descriptors: inodes and devices.  The flag is false where the source
  goes to \<^verbatim>\<open>bad\<close>.\<close>

fun restore_fds :: "nat list \<Rightarrow> (nat \<Rightarrow> ckpt_fd) \<Rightarrow> nat \<Rightarrow> 'a kfile_scheme \<Rightarrow> (bool \<times> 'a kfile_scheme) res" where
  "restore_fds [] fds np s = Ok (True, s)"
| "restore_fds (i # is) fds np s =
     (let d = fds i; s1 = set_ofile np i None s in
      if cf_type d = 0 \<or> cf_type d = 1 then restore_fds is fds np s1
      else case filealloc s1 of
        (None, s2) \<Rightarrow> Ok (False, s2)
      | (Some f, s2) \<Rightarrow>
          let s3 = upd_file f (\<lambda>x. x\<lparr>f_readable := cf_readable d, f_writable := cf_writable d\<rparr>) (set_ofile np i (Some f) s2) in
          if cf_type d \<noteq> 2 \<and> cf_type d \<noteq> 3 then Ok (False, s3)
          else let s4 = upd_file f (f_type_update (\<lambda>_. the (fdtype_of (cf_type d)))) s3 in
               bnd (iget_by_inum (cf_inum d) s4) (\<lambda>(ip, s5).
                 restore_fds is fds np
                   (upd_file f (\<lambda>x. x\<lparr>f_ip := ip, f_off := cf_off d, f_major := cf_major d\<rparr>) s5)))"

definition restore_cwd :: "uint \<Rightarrow> nat \<Rightarrow> 'a kfs_scheme \<Rightarrow> 'a kfs_scheme res" where
  "restore_cwd cwd_inum np s =
     bnd (iget_by_inum (if cwd_inum \<noteq> 0 then cwd_inum else ROOTINO) s) (\<lambda>(ip, s1).
       Ok (upd_proc np (p_cwd_update (\<lambda>_. Some ip)) s1))"

text \<open>Which end of the new pipe a descriptor gets: \<open>True\<close> for the read end.\<close>

definition pipe_side :: "ckpt_fd \<Rightarrow> bool option" where
  "pipe_side d =
     (if cf_readable d \<noteq> 0 \<and> cf_writable d = 0 then Some True
      else if cf_readable d = 0 \<and> cf_writable d \<noteq> 0 then Some False else None)"

fun restore_pipes :: "nat list \<Rightarrow> (nat \<Rightarrow> ckpt_fd) \<Rightarrow> nat \<Rightarrow> 'a kfile_scheme \<Rightarrow> (bool \<times> 'a kfile_scheme) res" where
  "restore_pipes [] fds np s = Ok (True, s)"
| "restore_pipes (i # is) fds np s =
     (if cf_type (fds i) \<noteq> 1 \<or> p_ofile (procs s np) i \<noteq> None then restore_pipes is fds np s
      else case find (\<lambda>j. cf_type (fds j) = 1 \<and> cf_pipe_id (fds j) = cf_pipe_id (fds i) \<and>
                          p_ofile (procs s np) j = None) [i + 1..<NOFILE] of
        None \<Rightarrow> Ok (False, s)
      | Some j \<Rightarrow>
          bnd (pipealloc s) (\<lambda>(fo, s1).
            case fo of
              None \<Rightarrow> Ok (False, s1)
            | Some (pr, pw) \<Rightarrow>
                (case pipe_side (fds i) of
                   None \<Rightarrow> bnd (fileclose pr s1) (\<lambda>s2. bnd (fileclose pw s2) (\<lambda>s3. Ok (False, s3)))
                 | Some rd \<Rightarrow>
                     let s2 = set_ofile np i (Some (if rd then pr else pw)) s1 in
                     case pipe_side (fds j) of
                       None \<Rightarrow> bnd (fileclose pr s2) (\<lambda>s3. bnd (fileclose pw s3) (\<lambda>s4. Ok (False, set_ofile np i None s4)))
                     | Some rd' \<Rightarrow>
                         restore_pipes is fds np (set_ofile np j (Some (if rd' then pr else pw)) s2))))"

definition restore_finish :: "ckpt_header \<Rightarrow> nat \<Rightarrow> nat \<Rightarrow> 'a kfile_scheme \<Rightarrow> (int \<times> 'a kfile_scheme) res" where
  "restore_finish hdr np ip s =
     bnd (acquire_proc np s) (\<lambda>s1.
       let tf = unat (p_trapframe (procs s1 np));
           s2 = s1\<lparr>mem := wr64 (putl (mem s1) tf (h_tf hdr)) (tf + TF_a0) 1\<rparr>;
           s3 = upd_proc np (\<lambda>x. x\<lparr>p_name := safestrcpy (p_name x) 0 (cstr (h_name hdr)) 16\<rparr>) s2
       in bnd (acquire_wait s3) (\<lambda>s4.
          bnd (release_wait (upd_proc np (p_parent_update (\<lambda>_. initproc s4)) s4)) (\<lambda>s5.
            let s6 = upd_proc np (p_state_update (\<lambda>_. RUNNABLE)) s5;
                pid = p_pid (procs s6 np)
            in bnd (release_proc np s6) (put_end ip pid))))"

text \<open>From the new process, allocated and locked, on.\<close>

definition restore_into :: "ckpt_header \<Rightarrow> nat \<Rightarrow> nat \<Rightarrow> 'a kfile_scheme \<Rightarrow> (int \<times> 'a kfile_scheme) res" where
  "restore_into hdr np ip s =
     bnd (uvmalloc (p_pagetable (procs s np)) 0 (h_sz hdr) (PTE_W OR PTE_R OR PTE_X OR PTE_U) s) (\<lambda>(sz, s1).
       if sz = 0 then restore_bad np ip s1
       else
         bnd (release_proc np (upd_proc np (p_sz_update (\<lambda>_. h_sz hdr)) s1)) (\<lambda>s2.
         bnd (restore_addr_space (p_pagetable (procs s2 np)) 0 (unat (p_sz (procs s2 np))) ip (of_nat CKPT_HDR_SIZE) s2) (\<lambda>(r, s3).
           if r < 0 then restore_bad np ip s3
           else bnd (restore_fds [0..<NOFILE] (h_fds hdr) np s3) (\<lambda>(ok, s4).
             if \<not> ok then restore_bad np ip s4
             else bnd (restore_cwd (h_cwd_inum hdr) np s4) (\<lambda>s5.
                  bnd (restore_pipes [0..<NOFILE] (h_fds hdr) np s5) (\<lambda>(ok, s6).
                    if \<not> ok then restore_bad np ip s6 else restore_finish hdr np ip s6))))))"

definition restore_proc :: "byte list \<Rightarrow> 'a kfile_scheme \<Rightarrow> (int \<times> 'a kfile_scheme) res" where
  "restore_proc path s =
     bnd (begin_op s) (\<lambda>s1.
     bnd (namei path s1) (\<lambda>(ipo, s2).
       case ipo of
         None \<Rightarrow> bnd (end_op s2) (\<lambda>s3. Ok (-1, s3))
       | Some ip \<Rightarrow>
           bnd (ilock ip s2) (\<lambda>s3.
           bnd (readi ip StackDst 0 (of_nat CKPT_HDR_SIZE) s3) (\<lambda>((r, bs), s4).
             let hdr = rd_hdr (cstr bs) in
             if r \<noteq> int CKPT_HDR_SIZE \<or> h_magic hdr \<noteq> CKPT_MAGIC \<or> h_version hdr \<noteq> CKPT_VERSION
             then put_end ip (-1) s4
             else bnd (allocproc s4) (\<lambda>(npo, s5).
                    case npo of
                      None \<Rightarrow> put_end ip (-1) s5
                    | Some np \<Rightarrow> restore_into hdr np ip s5)))))"

section \<open>System calls\<close>

definition sys_checkpoint :: "bytes \<Rightarrow> 'a kfile_scheme \<Rightarrow> (int \<times> 'a kfile_scheme) res" where
  "sys_checkpoint junk s =
     bnd (need_proc s) (\<lambda>p.
     bnd (argint 0 s) (\<lambda>a.
       let me = p_pid (procs s p); pid = (if a = 0 then me else a) in
       if pid < 0 \<or> pid \<noteq> me then Ok (-1, s)
       else bnd (argstr 1 MAXPATH s) (\<lambda>path0.
         case path0 of
           None \<Rightarrow> Ok (-1, s)
         | Some path \<Rightarrow> if length path \<le> 1 then Ok (-1, s) else checkpoint_proc junk p path s)))"

definition sys_restore :: "'a kfile_scheme \<Rightarrow> (int \<times> 'a kfile_scheme) res" where
  "sys_restore s =
     bnd (argstr 0 MAXPATH s) (\<lambda>path0.
       case path0 of
         None \<Rightarrow> Ok (-1, s)
       | Some path \<Rightarrow> if length path \<le> 1 then Ok (-1, s) else restore_proc path s)"

section \<open>The layout read back\<close>

lemma cstr_getl: "i < n \<Longrightarrow> cstr (getl f 0 n) i = f i"
  by (simp add: cstr_def)

lemma wr_ckpt_fd_frame: "x < a \<or> a + CKPT_FD_SIZE \<le> x \<Longrightarrow> wr_ckpt_fd b a d x = b x"
  by (auto simp: wr_ckpt_fd_def wr32_def wr16_def CKPT_FD_SIZE_def)

lemma rd_wr_ckpt_fd [simp]: "rd_ckpt_fd (wr_ckpt_fd b a d) a = d"
proof -
  have "rd32 (wr_ckpt_fd b a d) a = cf_type d"
  proof -
    have "rd32 (wr_ckpt_fd b a d) a = rd32 (wr32 b a (cf_type d)) a"
      by (rule rd32_cong) (auto simp: wr_ckpt_fd_def wr16_frame wr32_frame)
    then show ?thesis by simp
  qed
  then show ?thesis by (simp add: rd_ckpt_fd_def wr_ckpt_fd_def byte_simps wr32_frame wr16_frame)
qed

lemma rd_ckpt_fd_cong:
  assumes "\<And>i. i < CKPT_FD_SIZE \<Longrightarrow> f (a + i) = g (a + i)"
  shows "rd_ckpt_fd f a = rd_ckpt_fd g a"
proof -
  note h = assms [unfolded CKPT_FD_SIZE_def]
  have "rd16 f (a + 16) = rd16 g (a + 16)" using h [of 16] h [of 17] by (intro rd16_cong) (simp_all add: add.commute)
  moreover have "rd32 f (a + k) = rd32 g (a + k)" if "k \<le> 20" for k
    using h that by (intro rd32_cong) (simp add: add.assoc)
  from this [of 0] this [of 8] this [of 12] this [of 20] have "rd32 f a = rd32 g a" "rd32 f (a + 8) = rd32 g (a + 8)"
    "rd32 f (a + 12) = rd32 g (a + 12)" "rd32 f (a + 20) = rd32 g (a + 20)" by simp_all
  ultimately show ?thesis using h by (simp add: rd_ckpt_fd_def)
qed

lemma wr_ckpt_fds_before: "x < a \<Longrightarrow> wr_ckpt_fds b a fds k x = b x"
  by (induction k) (auto simp: wr_ckpt_fd_frame)

lemma rd_wr_ckpt_fds: "i < k \<Longrightarrow> rd_ckpt_fd (wr_ckpt_fds b a fds k) (a + CKPT_FD_SIZE * i) = fds i"
proof (induction k)
  case (Suc k)
  show ?case
  proof (cases "i = k")
    case False
    with Suc.prems have "Suc i \<le> k" by simp
    then have "CKPT_FD_SIZE * Suc i \<le> CKPT_FD_SIZE * k" by (rule mult_le_mono2)
    then have "rd_ckpt_fd (wr_ckpt_fds b a fds (Suc k)) (a + CKPT_FD_SIZE * i) =
      rd_ckpt_fd (wr_ckpt_fds b a fds k) (a + CKPT_FD_SIZE * i)"
      by (intro rd_ckpt_fd_cong) (auto simp: wr_ckpt_fd_frame)
    with Suc False show ?thesis by simp
  qed simp
qed simp

section \<open>Properties\<close>


text \<open>Witness for C1: a header with one open file.\<close>

definition ex_hdr :: ckpt_header where
  "ex_hdr = \<lparr>h_magic = CKPT_MAGIC, h_version = CKPT_VERSION, h_pid = 3, h_sz = 4096, h_tf = replicate TF_SIZE 0,
     h_name = replicate 16 0, h_num_fds = 1, h_cwd_inum = 1,
     h_fds = (\<lambda>_. no_ckpt_fd)(3 := no_ckpt_fd\<lparr>cf_type := 2, cf_readable := 1, cf_inum := 7, cf_off := 100\<rparr>)\<rparr>"


end
