(* ===== verification/Virtio.thy ===== *)
theory Virtio
  imports Procdata
begin

unbundle bit_operations_syntax

text \<open>
  The disk driver, \<^verbatim>\<open>kernel/virtio_disk.c\<close>.  \<open>vdisk\<close> is \<^verbatim>\<open>struct disk\<close> with the rings it shares with the
  device; an address in a descriptor is the object it is the address of.  \<open>b_disk i\<close> is the flag
  \<^verbatim>\<open>disk\<close> of buffer \<open>i\<close>.  \<^verbatim>\<open>virtio_disk_rw\<close> is split where it sleeps: \<open>virtio_submit\<close> up to the
  notification, \<open>virtio_finish\<close> after the buffer has come back.  The channels woken are recorded in
  \<open>vd_wakes\<close>.
\<close>

definition NUM :: nat where [param_defs]: "NUM = 8"
definition VRING_DESC_F_NEXT :: ushort where "VRING_DESC_F_NEXT = 1"
definition VRING_DESC_F_WRITE :: ushort where "VRING_DESC_F_WRITE = 2"
definition VIRTIO_BLK_T_IN :: uint where "VIRTIO_BLK_T_IN = 0"
definition VIRTIO_BLK_T_OUT :: uint where "VIRTIO_BLK_T_OUT = 1"

datatype daddr = DNull | DOp nat | DData nat | DStatus nat

record virtq_desc =
  d_addr :: daddr
  d_len :: uint
  d_flags :: ushort
  d_next :: ushort

record virtio_blk_req =
  rq_type :: uint
  rq_reserved :: uint
  rq_sector :: uint64

record vdisk =
  vd_desc :: "nat \<Rightarrow> virtq_desc"
  vd_avail_idx :: ushort
  vd_avail_ring :: "nat \<Rightarrow> ushort"
  vd_used_dev :: ushort
  vd_used_ring :: "nat \<Rightarrow> uint"
  vd_free :: "nat \<Rightarrow> bool"
  vd_used_idx :: ushort
  vd_info_b :: "nat \<Rightarrow> nat option"
  vd_info_status :: "nat \<Rightarrow> byte"
  vd_ops :: "nat \<Rightarrow> virtio_blk_req"
  b_disk :: "nat \<Rightarrow> bool"
  vd_regs :: "(nat \<times> uint) list"
  vd_wakes :: "chan list"

section \<open>Initialisation\<close>

text \<open>\<open>rd w r\<close> is what the device gives for register \<open>r\<close> after the register writes \<open>w\<close>.\<close>

definition vd_write :: "nat \<Rightarrow> uint \<Rightarrow> vdisk \<Rightarrow> vdisk" where
  "vd_write r v d = d\<lparr>vd_regs := vd_regs d @ [(r, v)]\<rparr>"

definition null_desc :: virtq_desc where
  "null_desc = \<lparr>d_addr = DNull, d_len = 0, d_flags = 0, d_next = 0\<rparr>"

definition driver_features :: "uint64 \<Rightarrow> uint64" where
  "driver_features f =
     (((((((f AND NOT (2 ^ 5)) AND NOT (2 ^ 7)) AND NOT (2 ^ 11)) AND NOT (2 ^ 12)) AND NOT (2 ^ 27))
        AND NOT (2 ^ 29)) AND NOT (2 ^ 28))"

definition virtio_probe :: "((nat \<times> uint) list \<Rightarrow> nat \<Rightarrow> uint) \<Rightarrow> vdisk \<Rightarrow> (uint \<times> vdisk) res" where
  "virtio_probe rd d =
     (let r = rd (vd_regs d) in
      if r 0 \<noteq> 0x74726976 \<or> r 4 \<noteq> 2 \<or> r 8 \<noteq> 2 \<or> r 0xc \<noteq> 0x554d4551 then Panic ''could not find virtio disk''
      else
        let d1 = vd_write 0x70 3 (vd_write 0x70 1 (vd_write 0x70 0 d));
            d2 = vd_write 0x20 (ucast (driver_features (ucast (rd (vd_regs d1) 0x10)))) d1;
            d3 = vd_write 0x70 11 d2
        in let status = rd (vd_regs d3) 0x70 in
           if status AND 8 = 0 then Panic ''virtio disk FEATURES_OK unset''
           else
             let d4 = vd_write 0x30 0 d3; mx = rd (vd_regs d4) 0x34 in
             if rd (vd_regs d4) 0x44 \<noteq> 0 then Panic ''virtio disk should not be ready''
             else if mx = 0 then Panic ''virtio disk has no queue 0''
             else if mx < of_nat NUM then Panic ''virtio disk max queue too short''
             else Ok (status, d4))"

definition virtio_disk_init ::
    "((nat \<times> uint) list \<Rightarrow> nat \<Rightarrow> uint) \<Rightarrow> vdisk \<Rightarrow> 'a kmem_scheme \<Rightarrow> (vdisk \<times> 'a kmem_scheme) res" where
  "virtio_disk_init rd d s =
     bnd (virtio_probe rd d) (\<lambda>(status, d1).
       let (desc, s1) = kalloc s;
           (avail, s2) = kalloc s1;
           (used, s3) = kalloc s2
       in if desc = 0 \<or> avail = 0 \<or> used = 0 then Panic ''virtio disk kalloc''
          else
            let s4 = s3\<lparr>mem := fill (fill (fill (mem s3) (unat desc) PGSIZE 0) (unat avail) PGSIZE 0) (unat used) PGSIZE 0\<rparr>;
                d2 = d1\<lparr>vd_desc := (\<lambda>_. null_desc), vd_avail_idx := 0, vd_avail_ring := (\<lambda>_. 0),
                        vd_used_dev := 0, vd_used_ring := (\<lambda>_. 0),
                        vd_free := (\<lambda>i. if i < NUM then True else vd_free d1 i)\<rparr>;
                hi = (\<lambda>x :: uint64. ucast (drop_bit 32 x) :: uint);
                regs = [(0x38, of_nat NUM), (0x80, ucast desc), (0x84, hi desc), (0x90, ucast avail), (0x94, hi avail),
                        (0xa0, ucast used), (0xa4, hi used), (0x44, 1), (0x70, status OR 4)]
            in Ok (foldl (\<lambda>d (r, v). vd_write r v d) d2 regs, s4))"

section \<open>Descriptors\<close>

definition alloc_desc :: "vdisk \<Rightarrow> nat option \<times> vdisk" where
  "alloc_desc d =
     (case find (vd_free d) [0..<NUM] of
        None \<Rightarrow> (None, d)
      | Some i \<Rightarrow> (Some i, d\<lparr>vd_free := (vd_free d)(i := False)\<rparr>))"

definition free_desc :: "nat \<Rightarrow> vdisk \<Rightarrow> vdisk res" where
  "free_desc i d =
     (if i \<ge> NUM then Panic ''free_desc 1''
      else if vd_free d i then Panic ''free_desc 2''
      else Ok (d\<lparr>vd_desc := (vd_desc d)(i := null_desc), vd_free := (vd_free d)(i := True),
                 vd_wakes := vd_wakes d @ [ChanDisk]\<rparr>))"

text \<open>Every round frees a descriptor that was not free, so \<open>NUM\<close> rounds are as many as there can be.\<close>

fun free_chain :: "nat \<Rightarrow> nat \<Rightarrow> vdisk \<Rightarrow> vdisk res" where
  "free_chain 0 i d = Wait ''free_chain''"
| "free_chain (Suc k) i d =
     (let flag = d_flags (vd_desc d i); nxt = unat (d_next (vd_desc d i)) in
      bnd (free_desc i d) (\<lambda>d1.
        if flag AND VRING_DESC_F_NEXT \<noteq> 0 then free_chain k nxt d1 else Ok d1))"

fun free_descs :: "nat list \<Rightarrow> vdisk \<Rightarrow> vdisk res" where
  "free_descs [] d = Ok d"
| "free_descs (i # is) d = bnd (free_desc i d) (free_descs is)"

fun alloc3_loop :: "nat \<Rightarrow> nat list \<Rightarrow> vdisk \<Rightarrow> (nat list option \<times> vdisk) res" where
  "alloc3_loop 0 idx d = Ok (Some idx, d)"
| "alloc3_loop (Suc k) idx d =
     (case alloc_desc d of
        (None, d1) \<Rightarrow> bnd (free_descs idx d1) (\<lambda>d2. Ok (None, d2))
      | (Some i, d1) \<Rightarrow> alloc3_loop k (idx @ [i]) d1)"

definition alloc3_desc :: "vdisk \<Rightarrow> (nat list option \<times> vdisk) res" where
  "alloc3_desc d = alloc3_loop 3 [] d"

section \<open>Requests\<close>

definition format_req :: "nat \<Rightarrow> uint \<Rightarrow> bool \<Rightarrow> nat \<Rightarrow> nat \<Rightarrow> nat \<Rightarrow> vdisk \<Rightarrow> vdisk" where
  "format_req b blockno write i0 i1 i2 d =
     d\<lparr>vd_ops := (vd_ops d)(i0 := \<lparr>rq_type = (if write then VIRTIO_BLK_T_OUT else VIRTIO_BLK_T_IN),
                                   rq_reserved = 0, rq_sector = ucast (blockno * 2)\<rparr>),
       vd_desc := (vd_desc d)
         (i0 := \<lparr>d_addr = DOp i0, d_len = 16, d_flags = VRING_DESC_F_NEXT, d_next = of_nat i1\<rparr>,
          i1 := \<lparr>d_addr = DData b, d_len = 1024,
                 d_flags = (if write then 0 else VRING_DESC_F_WRITE) OR VRING_DESC_F_NEXT, d_next = of_nat i2\<rparr>,
          i2 := \<lparr>d_addr = DStatus i0, d_len = 1, d_flags = VRING_DESC_F_WRITE, d_next = 0\<rparr>),
       vd_info_status := (vd_info_status d)(i0 := 0xff),
       b_disk := (b_disk d)(b := True),
       vd_info_b := (vd_info_b d)(i0 := Some b),
       vd_avail_ring := (vd_avail_ring d)(unat (vd_avail_idx d) mod NUM := of_nat i0),
       vd_avail_idx := vd_avail_idx d + 1\<rparr>"

text \<open>\<open>None\<close> when there are not three free descriptors and the caller sleeps.\<close>

definition virtio_submit :: "nat \<Rightarrow> uint \<Rightarrow> bool \<Rightarrow> vdisk \<Rightarrow> (nat option \<times> vdisk) res" where
  "virtio_submit b blockno write d =
     bnd (alloc3_desc d) (\<lambda>(idx, d1).
       case idx of
         Some [i0, i1, i2] \<Rightarrow> Ok (Some i0, vd_write 0x50 0 (format_req b blockno write i0 i1 i2 d1))
       | _ \<Rightarrow> Ok (None, d1))"

definition virtio_finish :: "nat \<Rightarrow> nat \<Rightarrow> vdisk \<Rightarrow> vdisk res" where
  "virtio_finish b i0 d =
     (if b_disk d b then Wait ''disk''
      else free_chain NUM i0 (d\<lparr>vd_info_b := (vd_info_b d)(i0 := None)\<rparr>))"

text \<open>The loop of the interrupt handler; a used ring never holds more than \<open>n\<close> new entries.\<close>

fun virtio_intr_loop :: "nat \<Rightarrow> vdisk \<Rightarrow> vdisk res" where
  "virtio_intr_loop 0 d = Ok d"
| "virtio_intr_loop (Suc k) d =
     (if vd_used_idx d \<noteq> vd_used_dev d then
        let i = unat (vd_used_ring d (unat (vd_used_idx d) mod NUM)) in
        if vd_info_status d i \<noteq> 0 then Panic ''virtio_disk_intr status''
        else case vd_info_b d i of
               None \<Rightarrow> Panic ''kerneltrap''
             | Some b \<Rightarrow>
                 virtio_intr_loop k
                   (d\<lparr>b_disk := (b_disk d)(b := False), vd_wakes := vd_wakes d @ [ChanBuf b],
                      vd_used_idx := vd_used_idx d + 1\<rparr>)
      else Ok d)"

definition virtio_disk_intr :: "uint \<Rightarrow> vdisk \<Rightarrow> vdisk res" where
  "virtio_disk_intr status d =
     virtio_intr_loop (unat (vd_used_dev d - vd_used_idx d)) (vd_write 0x64 (status AND 3) d)"

end
