(* ===== verification/Bio.thy ===== *)
theory Bio
  imports Procdata Sleeplock
begin

text \<open>
  The buffer cache, \<^verbatim>\<open>kernel/bio.c\<close> and \<^verbatim>\<open>kernel/buf.h\<close>.  A buffer is an index into \<open>bufs\<close>; the
  doubly linked list through \<^verbatim>\<open>bcache.head\<close> is the list \<open>blist\<close> of indices, most recently used
  first.  \<^verbatim>\<open>virtio_disk_rw\<close> is a transfer between a buffer and the block of the disk it names (the
  driver ignores the device number).  \<^verbatim>\<open>bcache.lock\<close> protects each scan, which is one step;
  sleeping on a buffer's own lock is \<open>Wait\<close>.  What the cache promises its clients is the locale
  \<open>block_store\<close> at the end.
\<close>

record buf =
  b_valid :: bool
  b_dev :: uint
  b_blockno :: uint
  b_lock :: sleeplock
  b_refcnt :: uint
  b_data :: bytes

record bcache =
  bufs :: "nat \<Rightarrow> buf"
  blist :: "nat list"
  dsk :: "uint \<Rightarrow> bytes"

definition upd_buf :: "nat \<Rightarrow> (buf \<Rightarrow> buf) \<Rightarrow> bcache \<Rightarrow> bcache" where
  "upd_buf i f s = s\<lparr>bufs := (bufs s)(i := f (bufs s i))\<rparr>"

text \<open>Each turn of the loop of \<^verbatim>\<open>binit\<close> puts the next buffer at the head of the list.\<close>

fun binit_loop :: "nat list \<Rightarrow> bcache \<Rightarrow> bcache" where
  "binit_loop [] s = s"
| "binit_loop (b # bs) s =
     binit_loop bs ((upd_buf b (\<lambda>x. x\<lparr>b_lock := initsleeplock\<rparr>) s)\<lparr>blist := b # blist s\<rparr>)"

definition binit :: "bcache \<Rightarrow> bcache" where
  "binit s = binit_loop [0..<NBUF] (s\<lparr>blist := []\<rparr>)"

definition virtio_rw :: "nat \<Rightarrow> bool \<Rightarrow> bcache \<Rightarrow> bcache" where
  "virtio_rw b write s =
     (if write then s\<lparr>dsk := (dsk s)(b_blockno (bufs s b) := b_data (bufs s b))\<rparr>
      else upd_buf b (\<lambda>x. x\<lparr>b_data := dsk s (b_blockno x)\<rparr>) s)"

text \<open>The part of \<^verbatim>\<open>bget\<close> under \<^verbatim>\<open>bcache.lock\<close>.\<close>

definition bget_ref :: "uint \<Rightarrow> uint \<Rightarrow> bcache \<Rightarrow> (nat \<times> bcache) res" where
  "bget_ref dev blockno s =
     (case find (\<lambda>b. b_dev (bufs s b) = dev \<and> b_blockno (bufs s b) = blockno) (blist s) of
        Some b \<Rightarrow> Ok (b, upd_buf b (\<lambda>x. x\<lparr>b_refcnt := b_refcnt x + 1\<rparr>) s)
      | None \<Rightarrow>
         (case find (\<lambda>b. b_refcnt (bufs s b) = 0) (rev (blist s)) of
            Some b \<Rightarrow> Ok (b, upd_buf b (\<lambda>x. x\<lparr>b_dev := dev, b_blockno := blockno,
                                                b_valid := False, b_refcnt := 1\<rparr>) s)
          | None \<Rightarrow> Panic ''bget: no buffers''))"

definition bget :: "int \<Rightarrow> uint \<Rightarrow> uint \<Rightarrow> bcache \<Rightarrow> (nat \<times> bcache) res" where
  "bget pid dev blockno s =
     bnd (bget_ref dev blockno s) (\<lambda>(b, s1).
       bnd (acquiresleep pid (b_lock (bufs s1 b))) (\<lambda>lk.
         Ok (b, upd_buf b (\<lambda>x. x\<lparr>b_lock := lk\<rparr>) s1)))"

definition bread :: "int \<Rightarrow> uint \<Rightarrow> uint \<Rightarrow> bcache \<Rightarrow> (nat \<times> bcache) res" where
  "bread pid dev blockno s =
     bnd (bget pid dev blockno s) (\<lambda>(b, s1).
       Ok (b, if \<not> b_valid (bufs s1 b)
              then upd_buf b (\<lambda>x. x\<lparr>b_valid := True\<rparr>) (virtio_rw b False s1) else s1))"

definition bwrite :: "int \<Rightarrow> nat \<Rightarrow> bcache \<Rightarrow> bcache res" where
  "bwrite pid b s =
     (if \<not> holdingsleep pid (b_lock (bufs s b)) then Panic ''bwrite'' else Ok (virtio_rw b True s))"

definition brelse :: "int \<Rightarrow> nat \<Rightarrow> bcache \<Rightarrow> bcache res" where
  "brelse pid b s =
     (if \<not> holdingsleep pid (b_lock (bufs s b)) then Panic ''brelse''
      else let s1 = upd_buf b (\<lambda>x. x\<lparr>b_lock := releasesleep (b_lock x)\<rparr>) s;
               s2 = upd_buf b (\<lambda>x. x\<lparr>b_refcnt := b_refcnt x - 1\<rparr>) s1
           in Ok (if b_refcnt (bufs s2 b) = 0 then s2\<lparr>blist := b # remove1 b (blist s2)\<rparr> else s2))"

definition bpin :: "nat \<Rightarrow> bcache \<Rightarrow> bcache" where
  "bpin b s = upd_buf b (\<lambda>x. x\<lparr>b_refcnt := b_refcnt x + 1\<rparr>) s"

definition bunpin :: "nat \<Rightarrow> bcache \<Rightarrow> bcache" where
  "bunpin b s = upd_buf b (\<lambda>x. x\<lparr>b_refcnt := b_refcnt x - 1\<rparr>) s"

text \<open>A client's store into \<^verbatim>\<open>b->data\<close>.\<close>

definition bstore :: "nat \<Rightarrow> bytes \<Rightarrow> bcache \<Rightarrow> bcache" where
  "bstore b d s = upd_buf b (\<lambda>x. x\<lparr>b_data := d\<rparr>) s"

lemma upd_buf_simps [simp]:
  "bufs (upd_buf i f s) = (bufs s)(i := f (bufs s i))" "blist (upd_buf i f s) = blist s"
  "dsk (upd_buf i f s) = dsk s"
  by (simp_all add: upd_buf_def)

section \<open>The invariant\<close>

text \<open>
  Every buffer is on the list once, and no two buffers hold the same block of a real device.
  Buffers fresh from \<^verbatim>\<open>binit\<close> all name block 0 of device 0, which no file system uses.
\<close>

definition binv :: "bcache \<Rightarrow> bool" where
  "binv s \<longleftrightarrow> distinct (blist s) \<and> set (blist s) = {..<NBUF} \<and>
     (\<forall>i<NBUF. \<forall>j<NBUF. b_dev (bufs s i) \<noteq> 0 \<longrightarrow> b_dev (bufs s i) = b_dev (bufs s j) \<longrightarrow>
        b_blockno (bufs s i) = b_blockno (bufs s j) \<longrightarrow> i = j) \<and>
     (\<forall>i<NBUF. b_valid (bufs s i) \<longrightarrow> b_dev (bufs s i) \<noteq> 0)"

lemma binit_loop_blist:
  "blist (binit_loop bs s) = rev bs @ blist s"
  "b_dev (bufs (binit_loop bs s) i) = b_dev (bufs s i)"
  "b_valid (bufs (binit_loop bs s) i) = b_valid (bufs s i)"
  by (induction bs arbitrary: s) auto

lemma binit_binv:
  assumes "\<And>i. b_dev (bufs s i) = 0" "\<And>i. \<not> b_valid (bufs s i)"
  shows "binv (binit s)"
  by (simp add: assms binv_def binit_def binit_loop_blist atLeast0LessThan)

lemma find_list_Some:
  "find P xs = Some b \<Longrightarrow> b \<in> set xs \<and> P b"
  by (auto simp: find_Some_iff)

lemma binvI:
  assumes "distinct (blist s)" "set (blist s) = {..<NBUF}"
    "\<And>i j. i < NBUF \<Longrightarrow> j < NBUF \<Longrightarrow> b_dev (bufs s i) \<noteq> 0 \<Longrightarrow> b_dev (bufs s i) = b_dev (bufs s j) \<Longrightarrow>
      b_blockno (bufs s i) = b_blockno (bufs s j) \<Longrightarrow> i = j"
    "\<And>i. i < NBUF \<Longrightarrow> b_valid (bufs s i) \<Longrightarrow> b_dev (bufs s i) \<noteq> 0"
  shows "binv s"
  unfolding binv_def by (intro conjI allI impI) (fact assms(1), fact assms(2), erule (4) assms(3), erule (1) assms(4))

lemma binv_uniq:
  assumes "binv s" "i < NBUF" "j < NBUF" "b_dev (bufs s i) \<noteq> 0" "b_dev (bufs s i) = b_dev (bufs s j)"
    "b_blockno (bufs s i) = b_blockno (bufs s j)"
  shows "i = j"
  using assms(1) [unfolded binv_def, THEN conjunct2, THEN conjunct2, THEN conjunct1, rule_format, OF assms(2-)] .

lemma binv_blist: "binv s \<Longrightarrow> distinct (blist s) \<and> set (blist s) = {..<NBUF}"
  by (simp add: binv_def)

lemma binv_valid: "binv s \<Longrightarrow> i < NBUF \<Longrightarrow> b_valid (bufs s i) \<Longrightarrow> b_dev (bufs s i) \<noteq> 0"
  by (simp add: binv_def)

lemma binv_cong:
  assumes "binv s" "distinct (blist s')" "set (blist s') = set (blist s)"
    "\<And>i. b_dev (bufs s' i) = b_dev (bufs s i)" "\<And>i. b_blockno (bufs s' i) = b_blockno (bufs s i)"
    "\<And>i. b_valid (bufs s' i) \<Longrightarrow> b_valid (bufs s i) \<or> b_dev (bufs s i) \<noteq> 0"
  shows "binv s'"
proof (rule binvI)
  show "set (blist s') = {..<NBUF}" using assms(1,3) binv_blist by simp
  fix i j assume "i < NBUF" "j < NBUF" "b_dev (bufs s' i) \<noteq> 0" "b_dev (bufs s' i) = b_dev (bufs s' j)"
      "b_blockno (bufs s' i) = b_blockno (bufs s' j)"
  then show "i = j" using binv_uniq [OF assms(1), of i j] assms(4,5) by simp
next
  fix i assume "i < NBUF" "b_valid (bufs s' i)"
  then show "b_dev (bufs s' i) \<noteq> 0" using assms(4) assms(6) [of i] binv_valid [OF assms(1), of i] by auto
qed (rule assms(2))

lemma upd_binv:
  assumes "binv s" "\<And>x. b_dev (f x) = b_dev x" "\<And>x. b_blockno (f x) = b_blockno x"
    "\<And>x. b_valid (f x) \<Longrightarrow> b_valid x \<or> b_dev x \<noteq> 0"
  shows "binv (upd_buf i f s)"
  by (rule binv_cong [OF assms(1)]) (use assms binv_blist [OF assms(1)] in \<open>auto split: if_splits\<close>)

lemma recycle_binv:
  assumes "binv s" "c < NBUF" "dev \<noteq> 0"
    "\<And>i. i < NBUF \<Longrightarrow> \<not> (b_dev (bufs s i) = dev \<and> b_blockno (bufs s i) = blockno)"
  shows "binv (upd_buf c (\<lambda>x. x\<lparr>b_dev := dev, b_blockno := blockno, b_valid := False, b_refcnt := 1\<rparr>) s)"
    (is "binv ?s")
proof (rule binvI)
  show "distinct (blist ?s)" "set (blist ?s) = {..<NBUF}" using binv_blist [OF assms(1)] by simp_all
next
  fix i j assume a: "i < NBUF" "j < NBUF" "b_dev (bufs ?s i) \<noteq> 0" "b_dev (bufs ?s i) = b_dev (bufs ?s j)"
    "b_blockno (bufs ?s i) = b_blockno (bufs ?s j)"
  show "i = j"
    using a assms(4) [OF a(1)] assms(4) [OF a(2)] binv_uniq [OF assms(1) a(1,2)]
    by (cases "i = c"; cases "j = c") auto
next
  fix i assume "i < NBUF" "b_valid (bufs ?s i)"
  then show "b_dev (bufs ?s i) \<noteq> 0" using binv_valid [OF assms(1)] by (cases "i = c") auto
qed

lemma bget_ref_cases:
  assumes "binv s" "bget_ref dev blockno s = Ok (b, s')" "dev \<noteq> 0"
  obtains (hit) "b < NBUF" "b_dev (bufs s b) = dev" "b_blockno (bufs s b) = blockno"
      "s' = upd_buf b (\<lambda>x. x\<lparr>b_refcnt := b_refcnt x + 1\<rparr>) s"
  | (miss) "b < NBUF" "b_refcnt (bufs s b) = 0"
      "\<And>i. i < NBUF \<Longrightarrow> \<not> (b_dev (bufs s i) = dev \<and> b_blockno (bufs s i) = blockno)"
      "s' = upd_buf b (\<lambda>x. x\<lparr>b_dev := dev, b_blockno := blockno, b_valid := False, b_refcnt := 1\<rparr>) s"
proof (cases "find (\<lambda>b. b_dev (bufs s b) = dev \<and> b_blockno (bufs s b) = blockno) (blist s)")
  case (Some c)
  then show ?thesis using assms(2) find_list_Some [OF Some] binv_blist [OF assms(1)]
    by (intro hit) (auto simp: bget_ref_def)
next
  case None
  then have none: "\<And>i. i < NBUF \<Longrightarrow> \<not> (b_dev (bufs s i) = dev \<and> b_blockno (bufs s i) = blockno)"
    using binv_blist [OF assms(1)] by (auto simp: find_None_iff)
  obtain c where c: "find (\<lambda>b. b_refcnt (bufs s b) = 0) (rev (blist s)) = Some c"
    using assms(2) None by (auto simp: bget_ref_def split: option.splits)
  then show ?thesis using assms(2) None none find_list_Some [OF c] binv_blist [OF assms(1)]
    by (intro miss) (auto simp: bget_ref_def)
qed

lemma bget_ref_binv:
  assumes "binv s" "bget_ref dev blockno s = Ok (b, s')" "dev \<noteq> 0"
  shows "binv s' \<and> b < NBUF \<and> b_dev (bufs s' b) = dev \<and> b_blockno (bufs s' b) = blockno \<and> dsk s' = dsk s"
  using assms
proof (cases rule: bget_ref_cases)
  case hit
  then show ?thesis using upd_binv [OF assms(1), of "\<lambda>x. x\<lparr>b_refcnt := b_refcnt x + 1\<rparr>" b] by simp
next
  case miss
  then show ?thesis using recycle_binv [OF assms(1) miss(1) assms(3) miss(3)] by simp
qed

lemma brelse_binv:
  assumes "binv s" "brelse pid b s = Ok s'" "b < NBUF"
  shows "binv s'"
proof -
  have d: "distinct (b # remove1 b (blist s))" "set (b # remove1 b (blist s)) = set (blist s)" "distinct (blist s)"
    using binv_blist [OF assms(1)] assms(3) by (auto simp: set_remove1_eq)
  let ?s = "upd_buf b (\<lambda>x. x\<lparr>b_refcnt := b_refcnt x - 1\<rparr>) (upd_buf b (\<lambda>x. x\<lparr>b_lock := releasesleep (b_lock x)\<rparr>) s)"
  have "binv ?s" by (intro upd_binv assms(1)) simp_all
  moreover have "s' = ?s \<or> s' = ?s\<lparr>blist := b # remove1 b (blist s)\<rparr>"
    using assms(2) by (simp add: brelse_def Let_def split: if_splits)
  ultimately show ?thesis using d binv_cong [of ?s s'] by auto
qed

section \<open>The view of the disk through the cache\<close>

text \<open>
  What a reader of block \<open>n\<close> sees.  The invariant adds to \<open>binv\<close> that only the root device is in use
  and that a buffer nobody refers to holds what is on the disk, so that recycling it loses nothing.
\<close>

definition holds :: "bcache \<Rightarrow> nat \<Rightarrow> uint \<Rightarrow> bool" where
  "holds s i n \<longleftrightarrow> i < NBUF \<and> b_valid (bufs s i) \<and> b_dev (bufs s i) = ROOTDEV \<and> b_blockno (bufs s i) = n"

definition view :: "bcache \<Rightarrow> uint \<Rightarrow> bytes" where
  "view s n = (case find (\<lambda>i. holds s i n) [0..<NBUF] of Some i \<Rightarrow> b_data (bufs s i) | None \<Rightarrow> dsk s n)"

definition cinv :: "bcache \<Rightarrow> bool" where
  "cinv s \<longleftrightarrow> binv s \<and> (\<forall>i<NBUF. b_valid (bufs s i) \<longrightarrow> b_dev (bufs s i) = ROOTDEV) \<and>
     (\<forall>i<NBUF. b_valid (bufs s i) \<and> b_refcnt (bufs s i) = 0 \<longrightarrow> b_data (bufs s i) = dsk s (b_blockno (bufs s i)))"

lemma cinvI:
  assumes "binv s" "\<And>i. i < NBUF \<Longrightarrow> b_valid (bufs s i) \<Longrightarrow> b_dev (bufs s i) = ROOTDEV"
    "\<And>i. i < NBUF \<Longrightarrow> b_valid (bufs s i) \<Longrightarrow> b_refcnt (bufs s i) = 0 \<Longrightarrow> b_data (bufs s i) = dsk s (b_blockno (bufs s i))"
  shows "cinv s"
  using assms unfolding cinv_def by blast

lemma cinvD:
  assumes "cinv s"
  shows "binv s" "i < NBUF \<Longrightarrow> b_valid (bufs s i) \<Longrightarrow> b_dev (bufs s i) = ROOTDEV"
    "i < NBUF \<Longrightarrow> b_valid (bufs s i) \<Longrightarrow> b_refcnt (bufs s i) = 0 \<Longrightarrow> b_data (bufs s i) = dsk s (b_blockno (bufs s i))"
  using assms unfolding cinv_def by blast+

lemma holds_uniq: "binv s \<Longrightarrow> holds s i n \<Longrightarrow> holds s j n \<Longrightarrow> i = j"
  using binv_uniq [of s i j] by (auto simp: holds_def ROOTDEV_def)

lemma view_holds:
  assumes "binv s" "holds s i n"
  shows "view s n = b_data (bufs s i)"
proof -
  have "find (\<lambda>i. holds s i n) [0..<NBUF] \<noteq> None" using assms(2) by (auto simp: find_None_iff holds_def)
  then obtain j where "find (\<lambda>i. holds s i n) [0..<NBUF] = Some j" by blast
  moreover from find_list_Some [OF this] have "j = i" using holds_uniq [OF assms(1) _ assms(2)] by blast
  ultimately show ?thesis by (simp add: view_def)
qed

lemma view_none: "(\<And>i. \<not> holds s i n) \<Longrightarrow> view s n = dsk s n"
proof -
  assume "\<And>i. \<not> holds s i n"
  then have "find (\<lambda>i. holds s i n) [0..<NBUF] = None" by (auto simp: find_None_iff)
  then show ?thesis by (simp add: view_def)
qed

text \<open>Two states with the same cached blocks show the same disk.\<close>

lemma view_cong:
  assumes "binv s" "binv s'" "dsk s' = dsk s"
    "\<And>i n. holds s' i n = holds s i n" "\<And>i n. holds s i n \<Longrightarrow> b_data (bufs s' i) = b_data (bufs s i)"
  shows "view s' = view s"
proof
  fix n
  show "view s' n = view s n"
  proof (cases "\<exists>i. holds s i n")
    case True
    then obtain i where i: "holds s i n" by blast
    then show ?thesis using view_holds [OF assms(1) i] view_holds [OF assms(2), of i n] assms(4,5) by simp
  next
    case False
    then show ?thesis using view_none [of s n] view_none [of s' n] assms(3,4) by simp
  qed
qed

text \<open>An update of a buffer that touches neither its block nor its data.\<close>

lemma upd_view:
  assumes "cinv s" "\<And>x. b_dev (f x) = b_dev x" "\<And>x. b_blockno (f x) = b_blockno x" "\<And>x. b_valid (f x) = b_valid x"
    "\<And>x. b_data (f x) = b_data x"
    "b_refcnt (f (bufs s i)) = 0 \<Longrightarrow> b_valid (bufs s i) \<Longrightarrow> b_data (bufs s i) = dsk s (b_blockno (bufs s i))"
  shows "cinv (upd_buf i f s) \<and> view (upd_buf i f s) = view s"
proof
  have b: "binv (upd_buf i f s)" by (rule upd_binv) (use assms cinvD in auto)
  show "cinv (upd_buf i f s)"
  proof (rule cinvI [OF b])
    fix j assume "j < NBUF" "b_valid (bufs (upd_buf i f s) j)"
    then show "b_dev (bufs (upd_buf i f s) j) = ROOTDEV" using assms(2,4) cinvD(2) [OF assms(1), of j] by (auto split: if_splits)
    assume "b_refcnt (bufs (upd_buf i f s) j) = 0"
    then show "b_data (bufs (upd_buf i f s) j) = dsk (upd_buf i f s) (b_blockno (bufs (upd_buf i f s) j))"
      using assms(3-6) cinvD(3) [OF assms(1), of j] \<open>j < NBUF\<close> \<open>b_valid _\<close> by (cases "j = i") auto
  qed
  show "view (upd_buf i f s) = view s"
    by (rule view_cong) (use assms b cinvD(1) in \<open>auto simp: holds_def\<close>)
qed

lemma recycle_view:
  assumes "cinv s" "c < NBUF" "b_refcnt (bufs s c) = 0"
    "\<And>i. i < NBUF \<Longrightarrow> \<not> (b_dev (bufs s i) = ROOTDEV \<and> b_blockno (bufs s i) = n)"
  defines "s' \<equiv> upd_buf c (\<lambda>x. x\<lparr>b_dev := ROOTDEV, b_blockno := n, b_valid := False, b_refcnt := 1\<rparr>) s"
  shows "cinv s' \<and> view s' = view s"
proof
  have b: "binv s'" unfolding s'_def by (rule recycle_binv) (use assms(1-4) cinvD in \<open>auto simp: ROOTDEV_def\<close>)
  show "cinv s'"
    by (rule cinvI [OF b]) (use cinvD(2,3) [OF assms(1)] in \<open>auto simp: s'_def split: if_splits\<close>)
  show "view s' = view s"
  proof
    fix k
    show "view s' k = view s k"
    proof (cases "\<exists>i. holds s' i k")
      case True
      then obtain i where i: "holds s' i k" by blast
      then have "holds s i k" "bufs s' i = bufs s i" by (auto simp: s'_def holds_def split: if_splits)
      then show ?thesis using view_holds [OF b i] view_holds [OF cinvD(1) [OF assms(1)], of i k] by simp
    next
      case False
      have "view s k = dsk s k"
      proof (cases "holds s c k")
        case True
        then show ?thesis
          using view_holds [OF cinvD(1) [OF assms(1)] True] cinvD(3) [OF assms(1,2) _ assms(3)] by (auto simp: holds_def)
      next
        case nc: False
        have "\<not> holds s i k" for i
        proof (cases "i = c")
          case False
          then have "holds s' i k = holds s i k" by (simp add: s'_def holds_def)
          then show ?thesis using \<open>\<nexists>i. holds s' i k\<close> by blast
        qed (use nc in simp)
        then show ?thesis by (rule view_none)
      qed
      then show ?thesis using False view_none [of s' k] by (simp add: s'_def)
    qed
  qed
qed

lemma load_view:
  assumes "cinv s" "c < NBUF" "\<not> b_valid (bufs s c)" "b_dev (bufs s c) = ROOTDEV"
  defines "s' \<equiv> upd_buf c (\<lambda>x. x\<lparr>b_valid := True\<rparr>) (virtio_rw c False s)"
  shows "cinv s' \<and> view s' = view s \<and> dsk s' = dsk s"
proof (intro conjI)
  have s': "s' = upd_buf c (\<lambda>x. x\<lparr>b_data := dsk s (b_blockno x), b_valid := True\<rparr>) s"
    by (simp add: s'_def virtio_rw_def upd_buf_def)
  have b: "binv s'"
    by (rule binv_cong [OF cinvD(1) [OF assms(1)]])
      (use assms(4) binv_blist [OF cinvD(1) [OF assms(1)]] in \<open>auto simp: s' ROOTDEV_def split: if_splits\<close>)
  show "cinv s'"
    by (rule cinvI [OF b]) (use cinvD(2,3) [OF assms(1)] assms(4) in \<open>auto simp: s' split: if_splits\<close>)
  show "dsk s' = dsk s" by (simp add: s')
  have n0: "\<not> holds s i (b_blockno (bufs s c))" for i
    using binv_uniq [OF cinvD(1) [OF assms(1)], of i c] assms(2-4) by (auto simp: holds_def ROOTDEV_def)
  show "view s' = view s"
  proof
    fix k
    show "view s' k = view s k"
    proof (cases "k = b_blockno (bufs s c)")
      case True
      moreover have "holds s' c k" using True assms(2,4) by (simp add: s' holds_def)
      ultimately show ?thesis using view_holds [OF b, of c k] view_none [of s k] n0 by (simp add: s')
    next
      case False
      then have "holds s' i k = holds s i k" for i using assms(3) by (auto simp: s' holds_def)
      moreover have "holds s i k \<Longrightarrow> b_data (bufs s' i) = b_data (bufs s i)" for i using assms(3) by (auto simp: s' holds_def)
      ultimately show ?thesis
        using view_holds [OF b, of _ k] view_holds [OF cinvD(1) [OF assms(1)], of _ k] view_none [of s k] view_none [of s' k]
        by (cases "\<exists>i. holds s i k") (auto simp: s')
    qed
  qed
qed

text \<open>A buffer a process has the use of.\<close>

definition held :: "int \<Rightarrow> bcache \<Rightarrow> nat \<Rightarrow> bool" where
  "held pid s i \<longleftrightarrow> i < NBUF \<and> b_valid (bufs s i) \<and> b_dev (bufs s i) = ROOTDEV \<and> b_refcnt (bufs s i) \<noteq> 0 \<and>
     holdingsleep pid (b_lock (bufs s i))"

definition clean :: "bcache \<Rightarrow> nat \<Rightarrow> bool" where
  "clean s i \<longleftrightarrow> b_data (bufs s i) = dsk s (b_blockno (bufs s i))"

text \<open>No reference count is about to wrap around.\<close>

definition refs_ok :: "bcache \<Rightarrow> bool" where
  "refs_ok s \<longleftrightarrow> (\<forall>i<NBUF. b_refcnt (bufs s i) + 1 \<noteq> 0)"

lemma held_holds: "held pid s i \<Longrightarrow> holds s i (b_blockno (bufs s i))"
  by (simp add: held_def holds_def)

lemma bget_ref_post:
  assumes "cinv s" "refs_ok s" "bget_ref ROOTDEV n s = Ok (i, s')"
  shows "cinv s' \<and> view s' = view s \<and> dsk s' = dsk s \<and> i < NBUF \<and> b_dev (bufs s' i) = ROOTDEV \<and>
    b_blockno (bufs s' i) = n \<and> b_refcnt (bufs s' i) \<noteq> 0"
proof -
  have "ROOTDEV \<noteq> 0" by (simp add: ROOTDEV_def)
  from cinvD(1) [OF assms(1)] assms(3) this show ?thesis
  proof (cases rule: bget_ref_cases)
    case hit
    have "b_refcnt (bufs s i) + 1 \<noteq> 0" using assms(2) hit(1) by (simp add: refs_ok_def)
    with hit show ?thesis
      using upd_view [OF assms(1), of "\<lambda>x. x\<lparr>b_refcnt := b_refcnt x + 1\<rparr>" i] by simp
  next
    case miss
    then show ?thesis using recycle_view [OF assms(1) miss(1,2,3)] by simp
  qed
qed

lemma bread_post:
  assumes "cinv s" "refs_ok s" "bread pid ROOTDEV n s = Ok (i, s')"
  shows "cinv s' \<and> view s' = view s \<and> dsk s' = dsk s \<and> held pid s' i \<and> b_blockno (bufs s' i) = n \<and>
    b_data (bufs s' i) = view s n"
proof -
  obtain s1 where s1: "bget_ref ROOTDEV n s = Ok (i, s1)"
    using assms(3) by (auto simp: bread_def bget_def elim!: bnd_eq_OkE)
  obtain lk where lk: "acquiresleep pid (b_lock (bufs s1 i)) = Ok lk"
    using assms(3) s1 by (auto simp: bread_def bget_def elim!: bnd_eq_OkE)
  note g = bget_ref_post [OF assms(1,2) s1]
  define s2 where "s2 = upd_buf i (\<lambda>x. x\<lparr>b_lock := lk\<rparr>) s1"
  have c2: "cinv s2 \<and> view s2 = view s1" unfolding s2_def
    by (rule upd_view) (use g in auto)
  have h: "holdingsleep pid lk" using lk by (auto simp: acquiresleep_def holdingsleep_def split: if_splits)
  have s': "s' = (if \<not> b_valid (bufs s2 i) then upd_buf i (\<lambda>x. x\<lparr>b_valid := True\<rparr>) (virtio_rw i False s2) else s2)"
    using assms(3) s1 lk by (auto simp: bread_def bget_def s2_def split: if_splits)
  have f: "i < NBUF" "b_dev (bufs s2 i) = ROOTDEV" "b_blockno (bufs s2 i) = n" "b_refcnt (bufs s2 i) \<noteq> 0"
    "dsk s2 = dsk s" "b_lock (bufs s2 i) = lk"
    using g by (simp_all add: s2_def)
  have k: "cinv s' \<and> view s' = view s \<and> dsk s' = dsk s \<and> held pid s' i \<and> b_blockno (bufs s' i) = n"
  proof (cases "b_valid (bufs s2 i)")
    case True
    then show ?thesis using s' c2 g f h by (simp add: held_def)
  next
    case False
    then show ?thesis using s' load_view [of s2 i] c2 g f h by (simp add: held_def virtio_rw_def)
  qed
  then have "view s' n = b_data (bufs s' i)" using view_holds cinvD(1) held_holds by fastforce
  with k show ?thesis by simp
qed

lemma bstore_post:
  assumes "cinv s" "held pid s i"
  shows "cinv (bstore i d s) \<and> view (bstore i d s) = (view s)(b_blockno (bufs s i) := d) \<and>
    dsk (bstore i d s) = dsk s \<and> held pid (bstore i d s) i \<and> b_blockno (bufs (bstore i d s) i) = b_blockno (bufs s i)"
proof -
  let ?s = "bstore i d s"
  have b: "binv ?s" unfolding bstore_def by (rule upd_binv) (use assms cinvD in auto)
  have h: "holds ?s j n = holds s j n" for j n by (simp add: holds_def bstore_def)
  have c: "cinv ?s"
    by (rule cinvI [OF b]) (use cinvD(2,3) [OF assms(1)] assms(2) in \<open>auto simp: bstore_def held_def split: if_splits\<close>)
  have v: "view ?s n = ((view s)(b_blockno (bufs s i) := d)) n" for n
  proof (cases "\<exists>j. holds s j n")
    case True
    then obtain j where j: "holds s j n" by blast
    have "n = b_blockno (bufs s i) \<longleftrightarrow> j = i"
      using holds_uniq [OF cinvD(1) [OF assms(1)]] j held_holds [OF assms(2)] by (auto simp: holds_def)
    then show ?thesis using view_holds [OF cinvD(1) [OF assms(1)] j] view_holds [OF b, of j n] j h by (auto simp: bstore_def)
  next
    case False
    then have "n \<noteq> b_blockno (bufs s i)" using held_holds [OF assms(2)] by blast
    then show ?thesis using False view_none [of s n] view_none [of ?s n] h by (simp add: bstore_def)
  qed
  show ?thesis using c v assms(2) by (auto simp: fun_eq_iff bstore_def held_def)
qed

lemma bwrite_post:
  assumes "cinv s" "held pid s i"
  shows "\<exists>s'. bwrite pid i s = Ok s' \<and> cinv s' \<and> view s' = view s \<and> held pid s' i \<and> clean s' i \<and>
    b_blockno (bufs s' i) = b_blockno (bufs s i) \<and>
    dsk s' = (dsk s)(b_blockno (bufs s i) := view s (b_blockno (bufs s i)))"
proof -
  let ?n = "b_blockno (bufs s i)"
  let ?s = "s\<lparr>dsk := (dsk s)(?n := b_data (bufs s i))\<rparr>"
  have w: "bwrite pid i s = Ok ?s" using assms(2) by (simp add: bwrite_def held_def virtio_rw_def)
  have b: "binv ?s" by (rule binv_cong [OF cinvD(1) [OF assms(1)]]) (use binv_blist cinvD(1) assms(1) in auto)
  have h: "holds ?s j n = holds s j n" for j n by (simp add: holds_def)
  have vi: "view s ?n = b_data (bufs s i)" using view_holds cinvD(1) assms held_holds by blast
  have c: "cinv ?s"
  proof (rule cinvI [OF b])
    fix j assume j: "j < NBUF" "b_valid (bufs ?s j)"
    show "b_dev (bufs ?s j) = ROOTDEV" using cinvD(2) [OF assms(1) j(1)] j(2) by simp
    assume "b_refcnt (bufs ?s j) = 0"
    moreover have "b_blockno (bufs s j) = ?n \<Longrightarrow> j = i"
      using holds_uniq [OF cinvD(1) [OF assms(1)], of j ?n i] held_holds [OF assms(2)] j cinvD(2) [OF assms(1) j(1)]
      by (simp add: holds_def)
    ultimately show "b_data (bufs ?s j) = dsk ?s (b_blockno (bufs ?s j))"
      using cinvD(3) [OF assms(1) j(1)] j(2) by auto
  qed
  have v: "view ?s n = view s n" for n
  proof (cases "\<exists>j. holds s j n")
    case True
    then obtain j where "holds s j n" by blast
    then show ?thesis using view_holds [OF cinvD(1) [OF assms(1)], of j n] view_holds [OF b, of j n] h by simp
  next
    case False
    then have "n \<noteq> ?n" using held_holds [OF assms(2)] by blast
    then show ?thesis using False view_none [of s n] view_none [of ?s n] h by simp
  qed
  show ?thesis
    by (rule exI [of _ ?s]) (use w c v vi assms(2) in \<open>auto simp: fun_eq_iff held_def clean_def\<close>)
qed

lemma brelse_post:
  assumes "cinv s" "held pid s i" "clean s i \<or> b_refcnt (bufs s i) \<noteq> 1"
  shows "\<exists>s'. brelse pid i s = Ok s' \<and> cinv s' \<and> view s' = view s \<and> dsk s' = dsk s"
proof -
  define s2 where "s2 = upd_buf i (\<lambda>x. x\<lparr>b_lock := releasesleep (b_lock x), b_refcnt := b_refcnt x - 1\<rparr>) s"
  have c2: "cinv s2 \<and> view s2 = view s" unfolding s2_def
    by (rule upd_view) (use assms in \<open>auto simp: clean_def\<close>)
  have r: "brelse pid i s = Ok (if b_refcnt (bufs s2 i) = 0 then s2\<lparr>blist := i # remove1 i (blist s2)\<rparr> else s2)"
    using assms(2) by (simp add: brelse_def held_def s2_def upd_buf_def Let_def)
  then obtain s' where s': "brelse pid i s = Ok s'" "s' = s2 \<or> s' = s2\<lparr>blist := i # remove1 i (blist s2)\<rparr>" by fastforce
  have b: "binv s'" using brelse_binv [OF cinvD(1) [OF assms(1)] s'(1)] assms(2) by (simp add: held_def)
  have e: "bufs s' = bufs s2" "dsk s' = dsk s2" using s'(2) by auto
  have "cinv s'" using c2 b e by (simp add: cinv_def)
  moreover have "view s' = view s2" by (rule ext) (simp add: view_def holds_def e split: option.split)
  ultimately show ?thesis using s'(1) c2 e by (simp add: s2_def)
qed

section \<open>The interface\<close>

text \<open>
  A store of blocks as its clients use it: handles for blocks, what is seen through the store and
  what is on the disk.  \<open>room\<close> is what loading a block needs.
\<close>

locale block_store =
  fixes load :: "uint \<Rightarrow> 's \<Rightarrow> ('h \<times> 's) res" and peek :: "'s \<Rightarrow> 'h \<Rightarrow> bytes" and store :: "'h \<Rightarrow> bytes \<Rightarrow> 's \<Rightarrow> 's"
    and flush :: "'h \<Rightarrow> 's \<Rightarrow> 's res" and free :: "'h \<Rightarrow> 's \<Rightarrow> 's res"
    and inv :: "'s \<Rightarrow> bool" and room :: "'s \<Rightarrow> bool" and has :: "'s \<Rightarrow> 'h \<Rightarrow> uint \<Rightarrow> bool"
    and seen :: "'s \<Rightarrow> uint \<Rightarrow> bytes" and on_disk :: "'s \<Rightarrow> uint \<Rightarrow> bytes"
  assumes load: "inv s \<Longrightarrow> room s \<Longrightarrow> load n s = Ok (h, s') \<Longrightarrow>
      inv s' \<and> has s' h n \<and> seen s' = seen s \<and> on_disk s' = on_disk s"
    and peek: "inv s \<Longrightarrow> has s h n \<Longrightarrow> peek s h = seen s n"
    and store: "inv s \<Longrightarrow> has s h n \<Longrightarrow>
      inv (store h d s) \<and> has (store h d s) h n \<and> seen (store h d s) = (seen s)(n := d) \<and> on_disk (store h d s) = on_disk s"
    and flush: "inv s \<Longrightarrow> has s h n \<Longrightarrow> \<exists>s'. flush h s = Ok s' \<and> inv s' \<and> has s' h n \<and> seen s' = seen s \<and>
      on_disk s' = (on_disk s)(n := seen s n)"
    and free: "inv s \<Longrightarrow> has s h n \<Longrightarrow> on_disk s n = seen s n \<Longrightarrow>
      \<exists>s'. free h s = Ok s' \<and> inv s' \<and> seen s' = seen s \<and> on_disk s' = on_disk s"
begin

lemma write_through:
  assumes "inv s" "room s" "load n s = Ok (h, s1)"
  shows "peek s1 h = seen s n \<and> (\<exists>s2 s3. flush h (store h d s1) = Ok s2 \<and> free h s2 = Ok s3 \<and> inv s3 \<and>
    seen s3 = (seen s)(n := d) \<and> on_disk s3 = (on_disk s)(n := d))"
proof -
  note l = load [OF assms]
  then have p: "peek s1 h = seen s n" using peek by metis
  note st = store [of s1 h n d]
  obtain s2 where f: "flush h (store h d s1) = Ok s2" "inv s2" "has s2 h n" "seen s2 = (seen s)(n := d)"
    "on_disk s2 = (on_disk s)(n := d)"
    using flush [of "store h d s1" h n] st l by auto
  then obtain s3 where "free h s2 = Ok s3" "inv s3" "seen s3 = seen s2" "on_disk s3 = on_disk s2"
    using free [of s2 h n] by auto
  with p f show ?thesis by auto
qed

end

interpretation bc: block_store "bread pid ROOTDEV" "\<lambda>s i. b_data (bufs s i)" bstore "bwrite pid" "brelse pid" cinv refs_ok
  "\<lambda>s i n. held pid s i \<and> b_blockno (bufs s i) = n" view dsk for pid
proof
  fix s s' :: bcache and n h d
  show "cinv s \<Longrightarrow> refs_ok s \<Longrightarrow> bread pid ROOTDEV n s = Ok (h, s') \<Longrightarrow>
    cinv s' \<and> (held pid s' h \<and> b_blockno (bufs s' h) = n) \<and> view s' = view s \<and> dsk s' = dsk s"
    using bread_post by blast
  show "cinv s \<Longrightarrow> held pid s h \<and> b_blockno (bufs s h) = n \<Longrightarrow> b_data (bufs s h) = view s n"
    using view_holds cinvD(1) held_holds by metis
  show "cinv s \<Longrightarrow> held pid s h \<and> b_blockno (bufs s h) = n \<Longrightarrow>
    cinv (bstore h d s) \<and> (held pid (bstore h d s) h \<and> b_blockno (bufs (bstore h d s) h) = n) \<and>
    view (bstore h d s) = (view s)(n := d) \<and> dsk (bstore h d s) = dsk s"
    using bstore_post by blast
  show "cinv s \<Longrightarrow> held pid s h \<and> b_blockno (bufs s h) = n \<Longrightarrow>
    \<exists>s'. bwrite pid h s = Ok s' \<and> cinv s' \<and> (held pid s' h \<and> b_blockno (bufs s' h) = n) \<and> view s' = view s \<and>
      dsk s' = (dsk s)(n := view s n)"
    using bwrite_post by metis
  assume a: "cinv s" "held pid s h \<and> b_blockno (bufs s h) = n" "dsk s n = view s n"
  then have "clean s h" using view_holds cinvD(1) held_holds by (metis clean_def)
  then show "\<exists>s'. brelse pid h s = Ok s' \<and> cinv s' \<and> view s' = view s \<and> dsk s' = dsk s"
    using a brelse_post by blast
qed

section \<open>Properties\<close>

text \<open>The cache as \<open>binit\<close> leaves it, over an empty disk.\<close>

definition ex_bcache :: bcache where
  "ex_bcache = binit \<lparr>bufs = (\<lambda>_. \<lparr>b_valid = False, b_dev = 0, b_blockno = 0, b_lock = initsleeplock, b_refcnt = 0,
     b_data = (\<lambda>_. 0)\<rparr>), blist = [], dsk = (\<lambda>_ _. 0)\<rparr>"

lemma binit_loop_bufs: "bufs (binit_loop bs s) i = (if i \<in> set bs then (bufs s i)\<lparr>b_lock := initsleeplock\<rparr> else bufs s i)"
  by (induction bs arbitrary: s) auto

lemma ex_bufs: "bufs ex_bcache i = \<lparr>b_valid = False, b_dev = 0, b_blockno = 0, b_lock = initsleeplock, b_refcnt = 0, b_data = (\<lambda>_. 0)\<rparr>"
  by (simp add: ex_bcache_def binit_def binit_loop_bufs)

lemma ex_bcache_ok: "cinv ex_bcache" "refs_ok ex_bcache"
proof -
  have "binv ex_bcache" unfolding ex_bcache_def by (rule binit_binv) simp_all
  then show "cinv ex_bcache" by (rule cinvI) (simp_all add: ex_bufs)
  show "refs_ok ex_bcache" by (simp add: refs_ok_def ex_bufs)
qed

lemma ex_bread: "\<exists>i s1. bread 1 ROOTDEV 5 ex_bcache = Ok (i, s1)"
proof -
  have "rev (blist ex_bcache) = 0 # [1..<30]"
    by (simp add: ex_bcache_def binit_def binit_loop_blist param_defs upt_rec [of 0])
  moreover have "find (\<lambda>b. b_dev (bufs ex_bcache b) = ROOTDEV \<and> b_blockno (bufs ex_bcache b) = 5) (blist ex_bcache) = None"
    by (simp add: find_None_iff ex_bufs ROOTDEV_def)
  ultimately have "bget_ref ROOTDEV 5 ex_bcache = Ok (0, upd_buf 0 (\<lambda>x. x\<lparr>b_dev := ROOTDEV, b_blockno := 5,
      b_valid := False, b_refcnt := 1\<rparr>) ex_bcache)"
    by (simp add: bget_ref_def ex_bufs)
  then show ?thesis by (simp add: bread_def bget_def acquiresleep_def initsleeplock_def ex_bufs)
qed

text \<open>
  C11. The buffer cache is a faithful view of the disk.  Reading a block gives what its last writer stored,
  whichever buffer it is in and whatever was recycled to make room; storing into the buffer, writing
  it and releasing it changes that block, in the view and on the disk, and no other; none of these
  calls panics, and no block is ever in two buffers.
\<close>

theorem buffer_cache_refines_disk:
  assumes "cinv s" "refs_ok s" "bread pid ROOTDEV n s = Ok (i, s1)"
  shows "b_data (bufs s1 i) = view s n \<and>
    (\<exists>s2 s3. bwrite pid i (bstore i d s1) = Ok s2 \<and> brelse pid i s2 = Ok s3 \<and> cinv s3 \<and>
      view s3 = (view s)(n := d) \<and> dsk s3 = (dsk s)(n := d) \<and>
      (\<forall>j k m. holds s3 j m \<and> holds s3 k m \<longrightarrow> j = k))"
  using bc.write_through [OF assms, of d] holds_uniq cinvD(1) by metis

text \<open>Witness for C11: block 5 through the freshly initialised cache.\<close>

theorem buffer_cache_refines_disk_witness:
  "\<exists>i s1 s2 s3. bread 1 ROOTDEV 5 ex_bcache = Ok (i, s1) \<and> bwrite 1 i (bstore i (\<lambda>_. 7) s1) = Ok s2 \<and>
     brelse 1 i s2 = Ok s3 \<and> view s3 5 = (\<lambda>_. 7)"
proof -
  obtain i s1 where r: "bread 1 ROOTDEV 5 ex_bcache = Ok (i, s1)" using ex_bread by blast
  show ?thesis using buffer_cache_refines_disk [OF ex_bcache_ok r, of "\<lambda>_. 7"] r by auto
qed

end
