(* ===== verification/Trap.thy ===== *)
theory Trap
  imports Checkpoint Virtio Bio
begin

unbundle bit_operations_syntax

text \<open>
  Traps, \<^verbatim>\<open>kernel/trap.c\<close>, the system call dispatcher of \<^verbatim>\<open>kernel/syscall.c\<close>, \<^verbatim>\<open>forkret\<close> of
  \<^verbatim>\<open>kernel/proc.c\<close>, the interrupt controller, \<^verbatim>\<open>kernel/plic.c\<close>, and booting, \<^verbatim>\<open>kernel/main.c\<close> and
  \<^verbatim>\<open>kernel/start.c\<close>.  The whole kernel state is \<open>ktrap\<close>: it adds the supervisor's control registers,
  the interrupt the controller offers, the driver's state and the buffer cache.  \<open>kjunk\<close> is what the
  kernel stack holds where the code has not written it.
\<close>

definition UART0_IRQ :: uint where "UART0_IRQ = 10"
definition VIRTIO0_IRQ :: uint where "VIRTIO0_IRQ = 1"
definition SSTATUS_SPP :: uint64 where "SSTATUS_SPP = 0x100"
definition SSTATUS_SPIE :: uint64 where "SSTATUS_SPIE = 0x20"
definition SATP_SV39 :: uint64 where "SATP_SV39 = 0x8000000000000000"

record ktrap = kfile +
  r_scause :: uint64
  r_sepc :: uint64
  r_stval :: uint64
  r_sstatus :: uint64
  r_stvec :: uint64
  r_satp :: uint64
  r_stimecmp :: uint64
  r_time :: uint64
  kernelvec :: uint64
  plic_pending :: uint
  plic_writes :: "(uint64 \<times> uint) list"
  virtio_status :: uint
  vdisk_state :: vdisk
  bcache_state :: bcache
  first :: bool
  kjunk :: bytes

definition MAKE_SATP :: "uint64 \<Rightarrow> uint64" where
  "MAKE_SATP pagetable = SATP_SV39 OR drop_bit 12 pagetable"

definition intr_on :: "'a kproc_scheme \<Rightarrow> 'a kproc_scheme" where
  "intr_on s = s\<lparr>thiscpu := (thiscpu s)\<lparr>sie := True\<rparr>\<rparr>"

definition intr_off :: "'a kproc_scheme \<Rightarrow> 'a kproc_scheme" where
  "intr_off s = s\<lparr>thiscpu := (thiscpu s)\<lparr>sie := False\<rparr>\<rparr>"

section \<open>The interrupt controller\<close>

definition plic_write :: "uint64 \<Rightarrow> uint \<Rightarrow> 'a ktrap_scheme \<Rightarrow> 'a ktrap_scheme" where
  "plic_write a v s = s\<lparr>plic_writes := plic_writes s @ [(a, v)]\<rparr>"

definition plicinit :: "'a ktrap_scheme \<Rightarrow> 'a ktrap_scheme" where
  "plicinit s = plic_write (PLIC + ucast VIRTIO0_IRQ * 4) 1 (plic_write (PLIC + ucast UART0_IRQ * 4) 1 s)"

definition plicinithart :: "'a ktrap_scheme \<Rightarrow> 'a ktrap_scheme" where
  "plicinithart s =
     plic_write (PLIC + 0x201000 + of_nat (hart s) * 0x2000) 0
       (plic_write (PLIC + 0x2080 + of_nat (hart s) * 0x100) (2 ^ unat UART0_IRQ OR 2 ^ unat VIRTIO0_IRQ) s)"

definition plic_claim :: "'a ktrap_scheme \<Rightarrow> uint \<times> 'a ktrap_scheme" where
  "plic_claim s = (plic_pending s, s\<lparr>plic_pending := 0\<rparr>)"

definition plic_complete :: "uint \<Rightarrow> 'a ktrap_scheme \<Rightarrow> 'a ktrap_scheme" where
  "plic_complete irq s = plic_write (PLIC + 0x201004 + of_nat (hart s) * 0x2000) irq s"

section \<open>Device interrupts\<close>

fun wakeups :: "chan list \<Rightarrow> 'a kproc_scheme \<Rightarrow> 'a kproc_scheme res" where
  "wakeups [] s = Ok s"
| "wakeups (c # cs) s = bnd (wakeup c s) (wakeups cs)"

definition disk_intr :: "'a ktrap_scheme \<Rightarrow> 'a ktrap_scheme res" where
  "disk_intr s =
     bnd (virtio_disk_intr (virtio_status s) (vdisk_state s)) (\<lambda>d.
       wakeups (drop (length (vd_wakes (vdisk_state s))) (vd_wakes d)) (s\<lparr>vdisk_state := d\<rparr>))"

definition clockintr :: "'a ktrap_scheme \<Rightarrow> 'a ktrap_scheme res" where
  "clockintr s =
     bnd (if hart s = 0 then wakeup ChanTicks (s\<lparr>ticks := ticks s + 1\<rparr>) else Ok s) (\<lambda>s1.
       Ok (s1\<lparr>r_stimecmp := r_time s1 + 1000000\<rparr>))"

definition devintr :: "'a ktrap_scheme \<Rightarrow> (nat \<times> 'a ktrap_scheme) res" where
  "devintr s =
     (if r_scause s = 0x8000000000000009 then
        (case plic_claim s of
           (irq, s1) \<Rightarrow>
             bnd (if irq = UART0_IRQ then uartintr s1
                  else if irq = VIRTIO0_IRQ then disk_intr s1
                  else if irq \<noteq> 0 then kprintf (ascii ''unexpected interrupt irq=%d'' @ [10]) [PInt (ucast irq)] s1
                  else Ok s1) (\<lambda>s2.
               Ok (1, if irq \<noteq> 0 then plic_complete irq s2 else s2)))
      else if r_scause s = 0x8000000000000005 then bnd (clockintr s) (\<lambda>s1. Ok (2, s1))
      else Ok (0, s))"

section \<open>System calls\<close>

text \<open>The table: \<open>None\<close> for a number it does not have.  A call that does not return, \<^verbatim>\<open>exit\<close>, has the
  value \<open>None\<close>.\<close>

definition returning :: "(int \<times> 'b) res \<Rightarrow> (int option \<times> 'b) res" where
  "returning r = bnd r (\<lambda>(v, s). Ok (Some v, s))"

definition syscalls :: "int \<Rightarrow> ('a ktrap_scheme \<Rightarrow> (int option \<times> 'a ktrap_scheme) res) option" where
  "syscalls num =
     (if num = 1 then Some (\<lambda>s. returning (sys_fork s))
      else if num = 2 then Some (\<lambda>s. bnd (sys_exit s) (\<lambda>s1. Ok (None, s1)))
      else if num = 3 then Some (\<lambda>s. returning (sys_wait s))
      else if num = 4 then Some (\<lambda>s. returning (sys_pipe s))
      else if num = 5 then Some (\<lambda>s. returning (sys_read s))
      else if num = 6 then Some (\<lambda>s. returning (sys_kill s))
      else if num = 7 then Some (\<lambda>s. returning (sys_exec s))
      else if num = 8 then Some (\<lambda>s. returning (sys_fstat (getl (kjunk s) 0 4) s))
      else if num = 9 then Some (\<lambda>s. returning (sys_chdir s))
      else if num = 10 then Some (\<lambda>s. returning (sys_dup s))
      else if num = 11 then Some (\<lambda>s. returning (sys_getpid s))
      else if num = 12 then Some (\<lambda>s. returning (sys_sbrk s))
      else if num = 13 then Some (\<lambda>s. returning (sys_pause s))
      else if num = 14 then Some (\<lambda>s. returning (sys_uptime s))
      else if num = 15 then Some (\<lambda>s. returning (sys_open s))
      else if num = 16 then Some (\<lambda>s. returning (sys_write s))
      else if num = 17 then Some (\<lambda>s. returning (sys_mknod s))
      else if num = 18 then Some (\<lambda>s. returning (sys_unlink s))
      else if num = 19 then Some (\<lambda>s. returning (sys_link s))
      else if num = 20 then Some (\<lambda>s. returning (sys_mkdir s))
      else if num = 21 then Some (\<lambda>s. returning (sys_close s))
      else if num = 22 then Some (\<lambda>s. returning (sys_checkpoint (kjunk s) s))
      else if num = 23 then Some (\<lambda>s. returning (sys_restore s))
      else None)"

definition set_tf :: "nat \<Rightarrow> nat \<Rightarrow> uint64 \<Rightarrow> 'a kproc_scheme \<Rightarrow> 'a kproc_scheme" where
  "set_tf p off v s = s\<lparr>mem := wr64 (mem s) (unat (p_trapframe (procs s p)) + off) v\<rparr>"

definition get_tf :: "nat \<Rightarrow> nat \<Rightarrow> 'a kproc_scheme \<Rightarrow> uint64" where
  "get_tf p off s = rd64 (mem s) (unat (p_trapframe (procs s p)) + off)"

text \<open>The flag tells whether the call returned.\<close>

definition syscall :: "'a ktrap_scheme \<Rightarrow> (bool \<times> 'a ktrap_scheme) res" where
  "syscall s =
     bnd (need_proc s) (\<lambda>p.
       let num = sint (ucast (get_tf p TF_a7 s) :: uint) in
       case syscalls num of
         Some f \<Rightarrow>
           bnd (f s) (\<lambda>(r, s1).
             case r of
               None \<Rightarrow> Ok (False, s1)
             | Some v \<Rightarrow> Ok (True, set_tf p TF_a0 (word_of_int v) s1))
       | None \<Rightarrow>
           bnd (kprintf (ascii ''%d %s: unknown sys call %d'' @ [10])
                  [PInt (word_of_int (p_pid (procs s p))), PStr (Some (name_chars (p_name (procs s p)))), PInt (word_of_int num)] s)
             (\<lambda>s1. Ok (True, set_tf p TF_a0 (-1) s1)))"

section \<open>Traps\<close>

definition prepare_return :: "'a ktrap_scheme \<Rightarrow> 'a ktrap_scheme res" where
  "prepare_return s =
     bnd (need_proc s) (\<lambda>p.
       let s1 = intr_off s;
           s2 = s1\<lparr>r_stvec := TRAMPOLINE + (sym_uservec (ksym s1) - sym_trampoline (ksym s1))\<rparr>;
           s3 = set_tf p TF_kernel_satp (r_satp s2) s2;
           s4 = set_tf p TF_kernel_sp (p_kstack (procs s3 p) + of_nat PGSIZE) s3;
           s5 = set_tf p TF_kernel_trap (sym_usertrap (ksym s4)) s4;
           s6 = set_tf p TF_kernel_hartid (of_nat (hart s5)) s5;
           s7 = s6\<lparr>r_sstatus := (r_sstatus s6 AND NOT SSTATUS_SPP) OR SSTATUS_SPIE\<rparr>
       in Ok (s7\<lparr>r_sepc := get_tf p TF_epc s7\<rparr>))"

text \<open>
  How a trap from user space ends: back to user space with a page table, in the scheduler for good,
  or in the scheduler with the rest of \<^verbatim>\<open>usertrap\<close>, \<open>usertrap_resume\<close>, still to do.
\<close>

datatype trapend = ToUser uint64 | Exited | Yielded bool

definition usertrap_return :: "'a ktrap_scheme \<Rightarrow> (trapend \<times> 'a ktrap_scheme) res" where
  "usertrap_return s =
     bnd (need_proc s) (\<lambda>p. bnd (prepare_return s) (\<lambda>s1.
       Ok (ToUser (MAKE_SATP (p_pagetable (procs s1 p))), s1)))"

definition usertrap_resume :: "bool \<Rightarrow> 'a ktrap_scheme \<Rightarrow> (trapend \<times> 'a ktrap_scheme) res" where
  "usertrap_resume ie s = bnd (yield_end ie s) usertrap_return"

text \<open>After the trap has been dealt with.\<close>

definition usertrap_end :: "nat \<Rightarrow> 'a ktrap_scheme \<Rightarrow> (trapend \<times> 'a ktrap_scheme) res" where
  "usertrap_end which_dev s =
     bnd (need_proc s) (\<lambda>p.
       if killed p s then bnd (kexit (-1) s) (\<lambda>s1. Ok (Exited, s1))
       else if which_dev = 2 then bnd (yield_begin s) (\<lambda>(ie, s1). Ok (Yielded ie, s1))
       else usertrap_return s)"

definition unexpected_trap :: "nat \<Rightarrow> 'a ktrap_scheme \<Rightarrow> 'a ktrap_scheme res" where
  "unexpected_trap p s =
     bnd (kprintf (ascii ''usertrap(): unexpected scause 0x%lx pid=%d'' @ [10])
            [PInt (r_scause s), PInt (word_of_int (p_pid (procs s p)))] s) (\<lambda>s1.
     bnd (kprintf (ascii ''            sepc=0x%lx stval=0x%lx'' @ [10]) [PInt (r_sepc s1), PInt (r_stval s1)] s1)
       (setkilled p))"

definition usertrap :: "'a ktrap_scheme \<Rightarrow> (trapend \<times> 'a ktrap_scheme) res" where
  "usertrap s =
     (if r_sstatus s AND SSTATUS_SPP \<noteq> 0 then Panic ''usertrap: not from user mode''
      else
        bnd (need_proc s) (\<lambda>p.
          let s1 = set_tf p TF_epc (r_sepc s) (s\<lparr>r_stvec := kernelvec s\<rparr>) in
          if r_scause s1 = 8 then
            if killed p s1 then bnd (kexit (-1) s1) (\<lambda>s2. Ok (Exited, s2))
            else bnd (syscall (intr_on (set_tf p TF_epc (get_tf p TF_epc s1 + 4) s1))) (\<lambda>(returned, s2).
                   if returned then usertrap_end 0 s2 else Ok (Exited, s2))
          else bnd (devintr s1) (\<lambda>(which_dev, s2).
            if which_dev \<noteq> 0 then usertrap_end which_dev s2
            else bnd (if r_scause s2 = 15 \<or> r_scause s2 = 13
                      then vmfault (p_pagetable (procs s2 p)) (r_stval s2) s2 else Ok (0, s2)) (\<lambda>(pa, s3).
                   if pa \<noteq> 0 then usertrap_end 0 s3
                   else bnd (unexpected_trap p s3) (usertrap_end 0)))))"

definition kerneltrap_return :: "uint64 \<Rightarrow> uint64 \<Rightarrow> 'a ktrap_scheme \<Rightarrow> 'a ktrap_scheme" where
  "kerneltrap_return sepc sstatus s = s\<lparr>r_sepc := sepc, r_sstatus := sstatus\<rparr>"

text \<open>\<open>Some ie\<close> when the trap gave up the processor and \<open>yield_end ie\<close> and \<open>kerneltrap_return\<close> remain.\<close>

definition kerneltrap :: "'a ktrap_scheme \<Rightarrow> (bool option \<times> 'a ktrap_scheme) res" where
  "kerneltrap s =
     (if r_sstatus s AND SSTATUS_SPP = 0 then Panic ''kerneltrap: not from supervisor mode''
      else if sie (thiscpu s) then Panic ''kerneltrap: interrupts enabled''
      else bnd (devintr s) (\<lambda>(which_dev, s1).
        if which_dev = 0 then
          bnd (kprintf (ascii ''scause=0x%lx sepc=0x%lx stval=0x%lx'' @ [10])
                 [PInt (r_scause s), PInt (r_sepc s1), PInt (r_stval s1)] s1) (\<lambda>_. Panic ''kerneltrap'')
        else if which_dev = 2 \<and> myproc s1 \<noteq> None then
          bnd (yield_begin s1) (\<lambda>(ie, s2). Ok (Some ie, s2))
        else Ok (None, kerneltrap_return (r_sepc s) (r_sstatus s) s1)))"

definition forkret :: "'a ktrap_scheme \<Rightarrow> (trapend \<times> 'a ktrap_scheme) res" where
  "forkret s =
     bnd (need_proc s) (\<lambda>p.
     bnd (release_proc p s) (\<lambda>s1.
     bnd (if first s1 then
            bnd (fsinit ROOTDEV s1) (\<lambda>s2.
            bnd (kexec (ascii ''/init'') [ascii ''/init''] (s2\<lparr>first := False\<rparr>)) (\<lambda>(r, s3).
              let s4 = set_tf p TF_a0 (word_of_int r) s3 in
              if get_tf p TF_a0 s4 = -1 then Panic ''exec'' else Ok s4))
          else Ok s1) usertrap_return))"

section \<open>Booting\<close>

definition trapinithart :: "'a ktrap_scheme \<Rightarrow> 'a ktrap_scheme" where
  "trapinithart s = s\<lparr>r_stvec := kernelvec s\<rparr>"

definition kvminithart :: "'a ktrap_scheme \<Rightarrow> 'a ktrap_scheme" where
  "kvminithart s = s\<lparr>r_satp := MAKE_SATP (kernel_pagetable s)\<rparr>"

text \<open>\<^verbatim>\<open>main\<close> on the first hart, up to \<^verbatim>\<open>scheduler\<close>; \<open>rd\<close> gives the registers of the disk.\<close>

definition boot_main :: "((nat \<times> uint) list \<Rightarrow> nat \<Rightarrow> uint) \<Rightarrow> 'a ktrap_scheme \<Rightarrow> 'a ktrap_scheme res" where
  "boot_main rd s =
     bnd (kprintf [10] [] (consoleinit s)) (\<lambda>s1.
     bnd (kprintf (ascii ''xv6 kernel is booting'' @ [10]) [] s1) (\<lambda>s2.
     bnd (kprintf [10] [] s2) (\<lambda>s3.
     bnd (kinit s3) (\<lambda>s4.
     bnd (kvminit s4) (\<lambda>s5.
       let s6 = plicinithart (plicinit (trapinithart (procinit (kvminithart s5))));
           s7 = iinit (s6\<lparr>bcache_state := binit (bcache_state s6)\<rparr>)
       in bnd (virtio_disk_init rd (vdisk_state s7) s7) (\<lambda>(d, s8).
            userinit (s8\<lparr>vdisk_state := d\<rparr>)))))))"

text \<open>Another hart, once \<^verbatim>\<open>started\<close> is set.\<close>

definition boot_hart :: "'a ktrap_scheme \<Rightarrow> 'a ktrap_scheme res" where
  "boot_hart s =
     bnd (kprintf (ascii ''hart %d starting'' @ [10]) [PInt (of_nat (hart s))] s) (\<lambda>s1.
       Ok (plicinithart (trapinithart (kvminithart s1))))"

text \<open>\<^verbatim>\<open>start.c\<close>: the machine-mode registers.\<close>

record mregs =
  mstatus :: uint64
  mepc :: uint64
  m_satp :: uint64
  medeleg :: uint64
  mideleg :: uint64
  m_sie :: uint64
  pmpaddr0 :: uint64
  pmpcfg0 :: uint64
  mie :: uint64
  menvcfg :: uint64
  mcounteren :: uint64
  m_stimecmp :: uint64
  m_time :: uint64
  mhartid :: uint64
  tp :: uint64

definition timerinit :: "mregs \<Rightarrow> mregs" where
  "timerinit m =
     m\<lparr>mie := mie m OR 0x20, menvcfg := menvcfg m OR 0x8000000000000000, mcounteren := mcounteren m OR 2,
       m_stimecmp := m_time m + 1000000\<rparr>"

definition start :: "uint64 \<Rightarrow> mregs \<Rightarrow> mregs" where
  "start kmain m =
     (let m1 = m\<lparr>mstatus := (mstatus m AND NOT 0x1800) OR 0x800, mepc := kmain, m_satp := 0,
                 medeleg := 0xffff, mideleg := 0xffff, m_sie := m_sie m OR 0x200 OR 0x20,
                 pmpaddr0 := 0x3fffffffffffff, pmpcfg0 := 0xf\<rparr>;
          m2 = timerinit m1
      in m2\<lparr>tp := mhartid m2\<rparr>)"

end
