(* ===== verification/Filemap.thy ===== *)
theory Filemap
  imports Fs
begin

unbundle bit_operations_syntax

text \<open>
  The block map of a file: which blocks \<^verbatim>\<open>balloc\<close> hands out, how \<^verbatim>\<open>bmap\<close> of \<^verbatim>\<open>kernel/fs.c\<close> adds them to an
  inode, and how many blocks of the log that takes.
\<close>

section \<open>The bitmap of used blocks\<close>

definition fssize :: "'a kfs_scheme \<Rightarrow> nat" where
  "fssize s = unat (sb_size (sb s))"

definition used :: "'a kfs_scheme \<Rightarrow> uint \<Rightarrow> bool" where
  "used s b \<longleftrightarrow> bview s (BBLOCK b s) (unat b mod BPB div 8) AND push_bit (unat b mod BPB mod 8) 1 \<noteq> 0"

definition bitmap :: "'a kfs_scheme \<Rightarrow> uint set" where
  "bitmap s = {BBLOCK b s | b. unat b < fssize s}"

definition free_blocks :: "'a kfs_scheme \<Rightarrow> uint set" where
  "free_blocks s = {b. unat b < fssize s \<and> \<not> used s b}"

text \<open>Block 0 and the bitmap itself are marked as used, as \<^verbatim>\<open>mkfs\<close> leaves them.\<close>

definition geom :: "'a kfs_scheme \<Rightarrow> bool" where
  "geom s \<longleftrightarrow> 0 < fssize s \<and> used s 0 \<and> (\<forall>b\<in>bitmap s. unat b < fssize s \<longrightarrow> used s b) \<and> unat (sb_bmapstart (sb s)) + fssize s div BPB < 2 ^ 32"

section \<open>Attempts within a transaction\<close>

definition in_op :: "'a klog_scheme \<Rightarrow> bool" where
  "in_op s \<longleftrightarrow> log_outstanding s \<ge> 1 \<and> distinct (log_lh s) \<and> length (log_lh s) \<le> LOGBLOCKS"

definition logadd :: "uint \<Rightarrow> uint list \<Rightarrow> uint list" where
  "logadd b l = (if b \<in> set l then l else l @ [b])"

text \<open>
  \<open>tries B P m\<close>: \<open>m\<close> panics because the transaction is too big, and only if \<open>B\<close> blocks are too many, or
  it returns a result that satisfies \<open>P\<close>.
\<close>

definition tries :: "nat \<Rightarrow> ('a \<Rightarrow> bool) \<Rightarrow> 'a res \<Rightarrow> bool" where
  "tries B P m \<longleftrightarrow> (m = Panic ''too big a transaction'' \<and> LOGBLOCKS \<le> B) \<or> (\<exists>x. m = Ok x \<and> P x)"

lemma tries_Ok [simp]: "tries B P (Ok x) \<longleftrightarrow> P x"
  by (simp add: tries_def)

lemma tries_Panic [simp]: "tries B P (Panic ''too big a transaction'') \<longleftrightarrow> LOGBLOCKS \<le> B"
  by (simp add: tries_def)

lemma tries_bnd:
  assumes "tries B Q m" "\<And>x. Q x \<Longrightarrow> tries B' P (f x)" "B \<le> B'"
  shows "tries B' P (bnd m f)"
proof (cases "\<exists>x. m = Ok x \<and> Q x")
  case True
  then show ?thesis using assms(2) by auto
next
  case False
  then show ?thesis using assms(1,3) by (auto simp: tries_def)
qed

lemma tries_mono: "tries B P m \<Longrightarrow> (\<And>x. P x \<Longrightarrow> Q x) \<Longrightarrow> B \<le> B' \<Longrightarrow> tries B' Q m"
  by (auto simp: tries_def)

lemma set_logadd [simp]: "set (logadd b l) = insert b (set l)"
  by (auto simp: logadd_def)

lemma distinct_logadd [simp]: "distinct l \<Longrightarrow> distinct (logadd b l)"
  by (simp add: logadd_def)

lemma blk_log_try:
  assumes "in_op s"
  shows "blk_log b d s = (if LOGBLOCKS \<le> length (log_lh s) then Panic ''too big a transaction''
    else Ok (s\<lparr>bview := (bview s)(b := d), log_lh := logadd b (log_lh s)\<rparr>))"
  using assms by (auto simp: blk_log_def log_write_def blk_put_def in_op_def logadd_def)

section \<open>Allocation of a block\<close>

lemma balloc_bits_Some:
  assumes "balloc_bits d b bi lim = Some k"
  shows "k < BPB" "b + k < lim" "d (k div 8) AND push_bit (k mod 8) 1 = 0"
  using assms by (induction d b bi lim rule: balloc_bits.induct) (subst (asm) (3) balloc_bits.simps, auto split: if_splits)+

lemma balloc_bits_None:
  assumes "balloc_bits d b bi lim = None" "bi \<le> k" "k < BPB" "b + k < lim"
  shows "d (k div 8) AND push_bit (k mod 8) 1 \<noteq> 0"
  using assms
proof (induction d b bi lim rule: balloc_bits.induct)
  case (1 d b bi lim)
  have l: "bi < BPB \<and> b + bi < lim" using 1 by simp
  then have nz: "d (bi div 8) AND push_bit (bi mod 8) 1 \<noteq> 0" and n: "balloc_bits d b (bi + 1) lim = None"
    using "1.prems"(1) by (subst (asm) balloc_bits.simps, simp split: if_splits)+
  show ?case
  proof (cases "k = bi")
    case False
    then show ?thesis using 1 l nz n by simp
  qed (use nz in simp)
qed

lemma unat_BPB: "unat (of_nat BPB :: uint) = BPB"
  by (simp add: param_defs)

lemma BBLOCK_group:
  assumes "k < BPB" "BPB * q + k < 2 ^ 32"
  shows "BBLOCK (of_nat (BPB * q + k)) s = BBLOCK (of_nat (BPB * q)) s" "unat (of_nat (BPB * q + k) :: uint) mod BPB = k"
proof -
  have "unat (of_nat (BPB * q + k) :: uint) = BPB * q + k" "unat (of_nat (BPB * q) :: uint) = BPB * q"
    using assms(2) by (simp_all add: unat_of_nat del: of_nat_add of_nat_mult)
  moreover have "(BPB * q + k) div BPB = q" using assms(1) by simp
  moreover have "BPB * q div BPB = q" by (simp add: param_defs)
  ultimately have "of_nat (BPB * q + k) div of_nat BPB = (of_nat (BPB * q) div of_nat BPB :: uint)"
    by (simp only: word_arith_nat_div unat_BPB)
  then show "BBLOCK (of_nat (BPB * q + k)) s = BBLOCK (of_nat (BPB * q)) s" by (simp only: BBLOCK_def)
  show "unat (of_nat (BPB * q + k) :: uint) mod BPB = k" using assms by (simp add: unat_of_nat del: of_nat_add of_nat_mult)
qed

definition setbit :: "uint \<Rightarrow> bytes \<Rightarrow> bytes" where
  "setbit a d = (let k = unat a mod BPB in d(k div 8 := d (k div 8) OR push_bit (k mod 8) 1))"

definition alloc_at :: "uint \<Rightarrow> 'a kfs_scheme \<Rightarrow> (uint \<times> 'a kfs_scheme) res" where
  "alloc_at a s = bnd (blk_log (BBLOCK a s) (setbit a (bview s (BBLOCK a s))) s) (\<lambda>s1. bnd (bzero a s1) (\<lambda>s2. Ok (a, s2)))"

lemma balloc_loop_cases:
  assumes "\<forall>k<BPB * q. k < fssize s \<longrightarrow> used s (of_nat k)"
  shows "(balloc_loop (BPB * q) s = Ok (0, s) \<and> free_blocks s = {}) \<or>
    (\<exists>a\<in>free_blocks s. balloc_loop (BPB * q) s = alloc_at a s)"
  using assms
proof (induction "fssize s - BPB * q" arbitrary: q rule: less_induct)
  case less
  let ?b = "BPB * q"
  have lim: "fssize s < 2 ^ 32" using unsigned_less [of "sb_size (sb s)", where ?'a = nat] by (simp add: fssize_def)
  have grp: "used s (of_nat (?b + k)) \<longleftrightarrow> bview s (BBLOCK (of_nat ?b) s) (k div 8) AND push_bit (k mod 8) 1 \<noteq> 0"
    if "k < BPB" "?b + k < fssize s" for k
  proof -
    have "?b + k < 2 ^ 32" using that(2) lim by simp
    from BBLOCK_group(1) [OF that(1) this, of s] BBLOCK_group(2) [OF that(1) this] show ?thesis by (simp only: used_def)
  qed
  show ?case
  proof (cases "?b < fssize s")
    case False
    have "used s b" if "unat b < fssize s" for b
    proof -
      have "unat b < ?b" using that False by simp
      from less.prems [rule_format, OF this that] show ?thesis by simp
    qed
    then show ?thesis using False by (subst (1) balloc_loop.simps) (auto simp: fssize_def free_blocks_def)
  next
    case True
    show ?thesis
    proof (cases "balloc_bits (bview s (BBLOCK (of_nat ?b) s)) ?b 0 (fssize s)")
      case None
      have "used s (of_nat k)" if "k < BPB * Suc q" "k < fssize s" for k
      proof (cases "k < ?b")
        case False
        then have "?b + (k - ?b) = k" "k - ?b < BPB" using that(1) by simp_all
        then show ?thesis using grp [of "k - ?b"] balloc_bits_None [OF None, of "k - ?b"] that(2) by simp
      qed (use less.prems that in blast)
      moreover have "balloc_loop ?b s = balloc_loop (BPB * Suc q) s"
        using True None by (subst balloc_loop.simps) (simp add: fssize_def add.commute)
      moreover have "fssize s - BPB * Suc q < fssize s - ?b" using True by (simp add: param_defs)
      ultimately show ?thesis using less.hyps [of "Suc q"] by simp
    next
      case (Some k)
      note k = balloc_bits_Some [OF Some]
      have r: "?b + k < 2 ^ 32" using k(2) lim by simp
      have "of_nat (?b + k) \<in> free_blocks s"
        using grp [OF k(1,2)] k r by (simp add: free_blocks_def unat_of_nat del: of_nat_add of_nat_mult)
      moreover have "balloc_loop ?b s = alloc_at (of_nat (?b + k)) s"
        using True Some BBLOCK_group(1) [OF k(1) r, of s] BBLOCK_group(2) [OF k(1) r]
        by (subst balloc_loop.simps) (simp add: fssize_def alloc_at_def setbit_def Let_def del: of_nat_add of_nat_mult)
      ultimately show ?thesis by blast
    qed
  qed
qed

lemma balloc_cases:
  obtains (full) "balloc s = Ok (0, s)" "free_blocks s = {}"
    | (alloc) a where "a \<in> free_blocks s" "balloc s = alloc_at a s"
  using balloc_loop_cases [of 0 s] unfolding balloc_def by auto

text \<open>The state after \<open>a\<close> has been allocated.\<close>

definition with_block :: "uint \<Rightarrow> 'a kfs_scheme \<Rightarrow> 'a kfs_scheme" where
  "with_block a s = s\<lparr>bview := (bview s)(BBLOCK a s := setbit a (bview s (BBLOCK a s)), a := memset (bview s a) 0 0 BSIZE),
     log_lh := logadd a (logadd (BBLOCK a s) (log_lh s))\<rparr>"

lemma alloc_at_try:
  assumes "in_op s" "a \<noteq> BBLOCK a s"
  shows "alloc_at a s = (if LOGBLOCKS \<le> length (logadd (BBLOCK a s) (log_lh s)) then Panic ''too big a transaction''
    else Ok (a, with_block a s))"
proof -
  have "length (log_lh s) \<le> length (logadd (BBLOCK a s) (log_lh s))" by (simp add: logadd_def)
  then show ?thesis using assms
    by (auto simp: alloc_at_def blk_log_try bzero_def with_block_def in_op_def blk_log_def log_write_def blk_put_def logadd_def)
qed

lemma with_block_simps [simp]:
  "sb (with_block a s) = sb s" "itable (with_block a s) = itable s" "log_outstanding (with_block a s) = log_outstanding s"
  "log_lh (with_block a s) = logadd a (logadd (BBLOCK a s) (log_lh s))"
  by (simp_all add: with_block_def)

lemma sb_cong:
  assumes "sb s' = sb s"
  shows "BBLOCK b s' = BBLOCK b s" "bitmap s' = bitmap s" "fssize s' = fssize s" "IBLOCK b s' = IBLOCK b s"
  using assms by (simp_all add: BBLOCK_def bitmap_def fssize_def IBLOCK_def)

lemma bitmap_BBLOCK: "unat b < fssize s \<Longrightarrow> BBLOCK b s \<in> bitmap s"
  by (auto simp: bitmap_def)

lemma free_not_bitmap:
  assumes "geom s" "a \<in> free_blocks s"
  shows "a \<notin> bitmap s" "a \<noteq> BBLOCK a s" "a \<noteq> 0" "unat a < fssize s" "\<not> used s a"
  using assms bitmap_BBLOCK [of a s] by (auto simp: geom_def free_blocks_def)

lemma BBLOCK_inj:
  assumes "geom s" "unat a < fssize s" "unat b < fssize s" "BBLOCK a s = BBLOCK b s" "unat a mod BPB = unat b mod BPB"
  shows "a = b"
proof -
  have d: "unat (x div of_nat BPB + sb_bmapstart (sb s)) = unat x div BPB + unat (sb_bmapstart (sb s))" if "unat x < fssize s" for x :: uint
  proof -
    have "unat x div BPB \<le> fssize s div BPB" using that by (intro div_le_mono) simp
    then have "unat x div BPB + unat (sb_bmapstart (sb s)) < 2 ^ 32" using assms(1) by (simp add: geom_def)
    then show ?thesis by (simp add: unat_word_ariths unat_div unat_BPB)
  qed
  have "unat a div BPB = unat b div BPB" using d [OF assms(2)] d [OF assms(3)] assms(4) by (simp add: BBLOCK_def)
  then have "unat a = unat b" using assms(5) by (metis div_mult_mod_eq)
  then show ?thesis by (rule word_unat_eq_iff [THEN iffD2])
qed

lemma bit_or_and:
  fixes x :: byte
  assumes "j < 8" "k < 8"
  shows "(x OR push_bit j 1) AND push_bit k 1 \<noteq> 0 \<longleftrightarrow> x AND push_bit k 1 \<noteq> 0 \<or> j = k"
  using assms by (simp add: push_bit_eq_mult and_exp_eq_0_iff_not_bit bit_or_iff bit_exp_iff) auto

lemma used_with_block:
  assumes "geom s" "a \<in> free_blocks s" "unat b < fssize s"
  shows "used (with_block a s) b \<longleftrightarrow> used s b \<or> b = a"
proof -
  note f = free_not_bitmap [OF assms(1,2)]
  have c: "BBLOCK b (with_block a s) = BBLOCK b s" by (rule sb_cong) simp
  have nb: "BBLOCK b s \<noteq> a" using bitmap_BBLOCK [OF assms(3)] f(1) by blast
  show ?thesis
  proof (cases "BBLOCK b s = BBLOCK a s \<and> unat b mod BPB div 8 = unat a mod BPB div 8")
    case True
    then have v: "bview (with_block a s) (BBLOCK b s) (unat b mod BPB div 8) =
        bview s (BBLOCK b s) (unat b mod BPB div 8) OR push_bit (unat a mod BPB mod 8) 1"
      using nb by (simp add: with_block_def setbit_def Let_def)
    have "unat a mod BPB mod 8 = unat b mod BPB mod 8 \<longleftrightarrow> a = b"
      using True BBLOCK_inj [OF assms(1) f(4) assms(3)] by (metis div_mult_mod_eq)
    then show ?thesis unfolding used_def c v by (subst bit_or_and) auto
  next
    case False
    then have "bview (with_block a s) (BBLOCK b s) (unat b mod BPB div 8) = bview s (BBLOCK b s) (unat b mod BPB div 8)"
      using nb by (auto simp: with_block_def setbit_def Let_def)
    then show ?thesis using False unfolding used_def c by auto
  qed
qed

lemma geom_with_block: "geom s \<Longrightarrow> a \<in> free_blocks s \<Longrightarrow> geom (with_block a s)"
  using used_with_block [of s a] sb_cong [of "with_block a s" s] free_not_bitmap [of s a]
  unfolding geom_def by simp

section \<open>The block map of an inode\<close>

definition ind :: "'a kfs_scheme \<Rightarrow> nat \<Rightarrow> uint" where
  "ind s i = i_addrs (itable s i) NDIRECT"

definition fblk :: "'a kfs_scheme \<Rightarrow> nat \<Rightarrow> nat \<Rightarrow> uint" where
  "fblk s i bn =
     (if bn < NDIRECT then i_addrs (itable s i) bn
      else if bn < MAXFILE \<and> ind s i \<noteq> 0 then rd32 (bview s (ind s i)) (4 * (bn - NDIRECT))
      else 0)"

definition iblk :: "'a kfs_scheme \<Rightarrow> nat \<Rightarrow> uint" where
  "iblk s i = IBLOCK (i_inum (itable s i)) s"

definition taken :: "'a kfs_scheme \<Rightarrow> nat \<Rightarrow> uint set" where
  "taken s i = insert (ind s i) (range (fblk s i)) - {0}"

text \<open>
  The blocks of the file are allocated, distinct, and neither part of the bitmap nor the block that holds
  the inode.
\<close>

definition fmap_ok :: "'a kfs_scheme \<Rightarrow> nat \<Rightarrow> bool" where
  "fmap_ok s i \<longleftrightarrow>
     (\<forall>a\<in>taken s i. unat a < fssize s \<and> used s a \<and> a \<notin> bitmap s \<and> a \<noteq> iblk s i) \<and>
     (\<forall>m n. fblk s i m = fblk s i n \<and> fblk s i m \<noteq> 0 \<longrightarrow> m = n) \<and>
     (\<forall>n. fblk s i n \<noteq> 0 \<longrightarrow> fblk s i n \<noteq> ind s i) \<and>
     iblk s i \<notin> bitmap s \<and> (unat (iblk s i) < fssize s \<longrightarrow> used s (iblk s i))"

definition missing :: "'a kfs_scheme \<Rightarrow> nat \<Rightarrow> nat set \<Rightarrow> nat" where
  "missing s i R = card {n\<in>R. fblk s i n = 0} + (if ind s i = 0 then 1 else 0)"

text \<open>
  The blocks that are in the log, or that writing to the blocks \<open>R\<close> of the file can add to it, and their
  number with the blocks that still have to be allocated.
\<close>

definition footprint :: "'a kfs_scheme \<Rightarrow> nat \<Rightarrow> nat set \<Rightarrow> uint set" where
  "footprint s i R = set (log_lh s) \<union> bitmap s \<union> {iblk s i} \<union> (insert (ind s i) (fblk s i ` R) - {0})"

definition fbudget :: "'a kfs_scheme \<Rightarrow> nat \<Rightarrow> nat set \<Rightarrow> nat" where
  "fbudget s i R = card (footprint s i R) + missing s i R"

text \<open>A change of the file that keeps everything else.\<close>

definition fsonly :: "nat \<Rightarrow> 'a kfs_scheme \<Rightarrow> 'a kfs_scheme \<Rightarrow> bool" where
  "fsonly i s s' \<longleftrightarrow> (\<exists>v l A z. s' = s\<lparr>bview := v, log_lh := l, itable := (itable s)(i := (itable s i)\<lparr>i_size := z, i_addrs := A\<rparr>)\<rparr>)"

definition file_step :: "nat \<Rightarrow> nat set \<Rightarrow> 'a kfs_scheme \<Rightarrow> 'a kfs_scheme \<Rightarrow> bool" where
  "file_step i R s s' \<longleftrightarrow> fsonly i s s' \<and> geom s' \<and> in_op s' \<and> fmap_ok s' i \<and>
     (\<forall>b. unat b < fssize s \<and> used s b \<longrightarrow> used s' b) \<and>
     (\<forall>b. unat b < fssize s \<and> used s b \<and> b \<notin> bitmap s \<and> b \<notin> taken s i \<and> b \<noteq> iblk s i \<longrightarrow> bview s' b = bview s b) \<and>
     (\<forall>n. fblk s i n \<noteq> 0 \<longrightarrow> fblk s' i n = fblk s i n) \<and> taken s' i \<subseteq> taken s i \<union> free_blocks s \<and>
     fbudget s' i R \<le> fbudget s i R \<and> card (free_blocks s) + missing s' i R \<le> card (free_blocks s') + missing s i R \<and>
     set (log_lh s) \<subseteq> set (log_lh s')"

lemma fsonly_refl: "fsonly i s s"
  unfolding fsonly_def
  by (rule exI [of _ "bview s"], rule exI [of _ "log_lh s"], rule exI [of _ "i_addrs (itable s i)"], rule exI [of _ "i_size (itable s i)"]) simp

lemma fsonly_trans:
  assumes "fsonly i s s'" "fsonly i s' s''"
  shows "fsonly i s s''"
proof -
  obtain v l A z where 1: "s' = s\<lparr>bview := v, log_lh := l, itable := (itable s)(i := (itable s i)\<lparr>i_size := z, i_addrs := A\<rparr>)\<rparr>"
    using assms(1) unfolding fsonly_def by blast
  obtain v' l' A' z' where "s'' = s'\<lparr>bview := v', log_lh := l', itable := (itable s')(i := (itable s' i)\<lparr>i_size := z', i_addrs := A'\<rparr>)\<rparr>"
    using assms(2) unfolding fsonly_def by blast
  then have "s'' = s\<lparr>bview := v', log_lh := l', itable := (itable s)(i := (itable s i)\<lparr>i_size := z', i_addrs := A'\<rparr>)\<rparr>"
    unfolding 1 by simp
  then show ?thesis unfolding fsonly_def by blast
qed

lemma fsonly_simps:
  assumes "fsonly i s s'"
  shows "sb s' = sb s" "mem s' = mem s" "iblk s' i = iblk s i" "bitmap s' = bitmap s" "fssize s' = fssize s"
    "BBLOCK b s' = BBLOCK b s" "log_outstanding s' = log_outstanding s"
proof -
  show s: "sb s' = sb s" "mem s' = mem s" "log_outstanding s' = log_outstanding s" using assms by (auto simp: fsonly_def)
  show "bitmap s' = bitmap s" "fssize s' = fssize s" "BBLOCK b s' = BBLOCK b s" by (rule sb_cong [OF s(1)])+
  show "iblk s' i = iblk s i" using assms sb_cong(4) [OF s(1)] by (auto simp: iblk_def fsonly_def)
qed

lemma fblk_bound: "MAXFILE \<le> n \<Longrightarrow> fblk s i n = 0"
  by (simp add: fblk_def param_defs)

lemma takenI: "fblk s i n \<noteq> 0 \<Longrightarrow> fblk s i n \<in> taken s i" "ind s i \<noteq> 0 \<Longrightarrow> ind s i \<in> taken s i"
  by (auto simp: taken_def)

lemma fmap_okD:
  assumes "fmap_ok s i"
  shows "a \<in> taken s i \<Longrightarrow> unat a < fssize s" "a \<in> taken s i \<Longrightarrow> used s a" "a \<in> taken s i \<Longrightarrow> a \<notin> bitmap s"
    "a \<in> taken s i \<Longrightarrow> a \<noteq> iblk s i" "fblk s i m = fblk s i n \<Longrightarrow> fblk s i m \<noteq> 0 \<Longrightarrow> m = n"
    "fblk s i n \<noteq> 0 \<Longrightarrow> fblk s i n \<noteq> ind s i" "iblk s i \<notin> bitmap s" "unat (iblk s i) < fssize s \<Longrightarrow> used s (iblk s i)"
  using assms unfolding fmap_ok_def by blast+

lemma file_step_refl: "geom s \<Longrightarrow> in_op s \<Longrightarrow> fmap_ok s i \<Longrightarrow> file_step i R s s"
  unfolding file_step_def using fsonly_refl by auto

lemma file_stepD:
  assumes "file_step i R s s'"
  shows "fsonly i s s'" "geom s'" "in_op s'" "fmap_ok s' i" "unat b < fssize s \<Longrightarrow> used s b \<Longrightarrow> used s' b"
    "unat b < fssize s \<Longrightarrow> used s b \<Longrightarrow> b \<notin> bitmap s \<Longrightarrow> b \<notin> taken s i \<Longrightarrow> b \<noteq> iblk s i \<Longrightarrow> bview s' b = bview s b"
    "fblk s i n \<noteq> 0 \<Longrightarrow> fblk s' i n = fblk s i n" "taken s' i \<subseteq> taken s i \<union> free_blocks s"
    "fbudget s' i R \<le> fbudget s i R" "card (free_blocks s) + missing s' i R \<le> card (free_blocks s') + missing s i R"
    "free_blocks s' \<subseteq> free_blocks s" "set (log_lh s) \<subseteq> set (log_lh s')"
proof -
  show 1: "fsonly i s s'" "geom s'" "in_op s'" "fmap_ok s' i" "set (log_lh s) \<subseteq> set (log_lh s')" "fbudget s' i R \<le> fbudget s i R" "taken s' i \<subseteq> taken s i \<union> free_blocks s"
    "card (free_blocks s) + missing s' i R \<le> card (free_blocks s') + missing s i R"
    using assms by (simp_all add: file_step_def)
  show 2: "used s' b" if "unat b < fssize s" "used s b" for b using assms that unfolding file_step_def by blast
  show "bview s' b = bview s b" if "unat b < fssize s" "used s b" "b \<notin> bitmap s" "b \<notin> taken s i" "b \<noteq> iblk s i"
    using assms that unfolding file_step_def by blast
  show "fblk s' i n = fblk s i n" if "fblk s i n \<noteq> 0" using assms that unfolding file_step_def by blast
  show "free_blocks s' \<subseteq> free_blocks s" using 2 fsonly_simps(5) [OF 1(1)] unfolding free_blocks_def by auto
qed

lemma file_step_trans:
  assumes 1: "file_step i R s s'" and 2: "file_step i R s' s''"
  shows "file_step i R s s''"
  unfolding file_step_def
proof (intro conjI allI impI)
  note fs = fsonly_simps [OF file_stepD(1) [OF 1]]
  show "fsonly i s s''" by (rule fsonly_trans [OF file_stepD(1) [OF 1] file_stepD(1) [OF 2]])
  show "geom s''" "in_op s''" "fmap_ok s'' i" using file_stepD(2-4) [OF 2] by simp_all
  show "taken s'' i \<subseteq> taken s i \<union> free_blocks s" using file_stepD(8,11) [OF 1] file_stepD(8) [OF 2] by blast
  show "fbudget s'' i R \<le> fbudget s i R" using file_stepD(9) [OF 1] file_stepD(9) [OF 2] by linarith
  show "card (free_blocks s) + missing s'' i R \<le> card (free_blocks s'') + missing s i R"
    using file_stepD(10) [OF 1] file_stepD(10) [OF 2] by linarith
  show "set (log_lh s) \<subseteq> set (log_lh s'')" using file_stepD(12) [OF 1] file_stepD(12) [OF 2] by blast
  fix b assume b: "unat b < fssize s \<and> used s b"
  then show "used s'' b" using file_stepD(5) [OF 1] file_stepD(5) [OF 2] fs(5) by simp
next
  note fs = fsonly_simps [OF file_stepD(1) [OF 1]]
  fix b assume b: "unat b < fssize s \<and> used s b \<and> b \<notin> bitmap s \<and> b \<notin> taken s i \<and> b \<noteq> iblk s i"
  then have "b \<notin> taken s' i" using file_stepD(8) [OF 1] by (auto simp: free_blocks_def)
  then have "bview s'' b = bview s' b" using b file_stepD(5) [OF 1] fs by (intro file_stepD(6) [OF 2]) auto
  then show "bview s'' b = bview s b" using b file_stepD(6) [OF 1] by simp
next
  fix n assume n: "fblk s i n \<noteq> 0"
  then have "fblk s' i n = fblk s i n" by (rule file_stepD(7) [OF 1])
  then show "fblk s'' i n = fblk s i n" using n file_stepD(7) [OF 2, of n] by simp
qed

text \<open>The log never holds more than the budget.\<close>

lemma log_bound:
  assumes "distinct l" "set l \<subseteq> footprint s i R"
  shows "length l \<le> fbudget s i R"
proof -
  have "length l = card (set l)" using assms(1) by (simp add: distinct_card)
  also have "\<dots> \<le> card (footprint s i R)" by (rule card_mono [OF _ assms(2)]) simp
  finally show ?thesis by (simp add: fbudget_def)
qed

lemma log_bound1:
  assumes "distinct l" "set l \<subseteq> insert a (footprint s i R)" "0 < missing s i R"
  shows "length l \<le> fbudget s i R"
proof -
  have "length l = card (set l)" using assms(1) by (simp add: distinct_card)
  also have "\<dots> \<le> card (insert a (footprint s i R))" by (rule card_mono [OF _ assms(2)]) simp
  also have "\<dots> \<le> Suc (card (footprint s i R))" by (simp add: card_insert_le_m1)
  finally show ?thesis using assms(3) by (simp add: fbudget_def)
qed

text \<open>One allocated block \<open>a\<close> becomes part of the file, as block \<open>n\<close> of it or as its indirect block.\<close>

definition links :: "nat \<Rightarrow> nat set \<Rightarrow> uint \<Rightarrow> 'a kfs_scheme \<Rightarrow> 'a kfs_scheme \<Rightarrow> bool" where
  "links i R a s s' \<longleftrightarrow>
     (\<exists>n\<in>R. n < MAXFILE \<and> fblk s i n = 0 \<and> fblk s' i = (fblk s i)(n := a) \<and> ind s' i = ind s i) \<or>
     (ind s i = 0 \<and> ind s' i = a \<and> fblk s' i = fblk s i)"

lemma links_missing:
  assumes "links i R a s s'" "finite R" "a \<noteq> 0"
  shows "missing s i R = Suc (missing s' i R)" "footprint s' i R \<subseteq> set (log_lh s') \<union> bitmap s' \<union> {iblk s' i} \<union> (insert (ind s i) (fblk s i ` R) - {0}) \<union> {a}"
    "taken s' i \<subseteq> insert a (taken s i)"
proof -
  consider (data) n where "n \<in> R" "fblk s i n = 0" "fblk s' i = (fblk s i)(n := a)" "ind s' i = ind s i"
    | (indirect) "ind s i = 0" "ind s' i = a" "fblk s' i = fblk s i"
    using assms(1) unfolding links_def by blast
  then have "missing s i R = Suc (missing s' i R) \<and>
     footprint s' i R \<subseteq> set (log_lh s') \<union> bitmap s' \<union> {iblk s' i} \<union> (insert (ind s i) (fblk s i ` R) - {0}) \<union> {a} \<and> taken s' i \<subseteq> insert a (taken s i)"
  proof cases
    case data
    have "{m\<in>R. fblk s i m = 0} = insert n {m\<in>R. fblk s' i m = 0}" using data assms(3) by auto
    moreover have "n \<notin> {m\<in>R. fblk s' i m = 0}" using data assms(3) by simp
    ultimately have "missing s i R = Suc (missing s' i R)" using assms(2) data(4) by (simp add: missing_def)
    then show ?thesis using data by (auto simp: footprint_def taken_def)
  next
    case indirect
    then show ?thesis using assms(3) by (auto simp: missing_def footprint_def taken_def)
  qed
  then show "missing s i R = Suc (missing s' i R)" "footprint s' i R \<subseteq> set (log_lh s') \<union> bitmap s' \<union> {iblk s' i} \<union> (insert (ind s i) (fblk s i ` R) - {0}) \<union> {a}"
    "taken s' i \<subseteq> insert a (taken s i)" by blast+
qed

lemma links_fmap:
  assumes "fmap_ok s i" "geom s" "a \<in> free_blocks s" "links i R a s s'" "fsonly i s s'"
    and u: "\<And>b. unat b < fssize s \<Longrightarrow> used s' b \<longleftrightarrow> used s b \<or> b = a"
  shows "fmap_ok s' i"
proof -
  note f = free_not_bitmap [OF assms(2,3)] and e = fsonly_simps [OF assms(5)] and k = fmap_okD [OF assms(1)]
  have ai: "a \<noteq> iblk s i" using k(8) f(4,5) by blast
  have nt: "a \<notin> taken s i" using k(2) f(5) by blast
  have nf: "fblk s i n \<noteq> a" "ind s i \<noteq> a" for n using nt takenI [of s i] f(3) by metis+
  have "unat b < fssize s' \<and> used s' b \<and> b \<notin> bitmap s' \<and> b \<noteq> iblk s' i" if "b \<in> insert a (taken s i)" for b
    using that f ai k(1-4) u unfolding e by blast
  moreover have "taken s' i \<subseteq> insert a (taken s i)"
    using assms(4) by (auto simp: links_def taken_def)
  ultimately have 1: "\<forall>b\<in>taken s' i. unat b < fssize s' \<and> used s' b \<and> b \<notin> bitmap s' \<and> b \<noteq> iblk s' i" by blast
  have 2: "\<forall>m n. fblk s' i m = fblk s' i n \<and> fblk s' i m \<noteq> 0 \<longrightarrow> m = n"
    using assms(4) k(5) nf(1) unfolding links_def by (auto split: if_splits) metis+
  have 3: "\<forall>n. fblk s' i n \<noteq> 0 \<longrightarrow> fblk s' i n \<noteq> ind s' i"
  proof (intro allI impI)
    fix n assume "fblk s' i n \<noteq> 0"
    then show "fblk s' i n \<noteq> ind s' i" using assms(4) k(6) [of n] nf(1) [of n] nf(2) unfolding links_def by (auto split: if_splits)
  qed
  have 4: "iblk s' i \<notin> bitmap s'" "unat (iblk s' i) < fssize s' \<longrightarrow> used s' (iblk s' i)"
    using k(7,8) u unfolding e by blast+
  show ?thesis unfolding fmap_ok_def using 1 2 3 4 by blast
qed

lemma link_step:
  assumes "geom s" "in_op s" "fmap_ok s i" "a \<in> free_blocks s" "finite R" "links i R a s s'" "fsonly i s s'"
    and u: "\<And>b. unat b < fssize s \<Longrightarrow> used s' b \<longleftrightarrow> used s b \<or> b = a"
    and v: "\<And>b. b \<notin> bitmap s \<Longrightarrow> b \<noteq> a \<Longrightarrow> b = 0 \<or> b \<noteq> ind s i \<Longrightarrow> bview s' b = bview s b"
    and l: "distinct (log_lh s') \<and> length (log_lh s') \<le> LOGBLOCKS" "set (log_lh s') \<subseteq> set (log_lh s) \<union> bitmap s \<union> {a} \<union> ({ind s i} - {0})" "set (log_lh s) \<subseteq> set (log_lh s')"
  shows "file_step i R s s'"
  unfolding file_step_def
proof (intro conjI allI impI)
  note f = free_not_bitmap [OF assms(1,4)] and e = fsonly_simps [OF assms(7)] and n = links_missing [OF assms(6,5)]
  show "fsonly i s s'" "set (log_lh s) \<subseteq> set (log_lh s')" by (rule assms(7) l(3))+
  have "unat (0::uint) < fssize s" using f(4) by simp
  from u [OF this] assms(1) show "geom s'" by (simp add: geom_def e u)
  show "in_op s'" using assms(2) l(1) e(7) by (simp add: in_op_def)
  show "fmap_ok s' i" by (rule links_fmap [OF assms(3,1,4,6,7) u])
  show "taken s' i \<subseteq> taken s i \<union> free_blocks s" using n(3) [OF f(3)] assms(4) by blast
  have "set (log_lh s') \<union> bitmap s \<union> {iblk s i} \<union> (insert (ind s i) (fblk s i ` R) - {0}) \<union> {a} \<subseteq> footprint s i R \<union> {a}"
    using l(2) unfolding footprint_def by blast
  with n(2) [OF f(3)] have "footprint s' i R \<subseteq> footprint s i R \<union> {a}" unfolding e(3,4) by (rule subset_trans)
  then have "card (footprint s' i R) \<le> card (footprint s i R \<union> {a})" by (rule card_mono [OF finite]) 
  also have "\<dots> \<le> Suc (card (footprint s i R))" by (simp add: card_insert_le_m1)
  finally show "fbudget s' i R \<le> fbudget s i R" using n(1) [OF f(3)] by (simp add: fbudget_def)
  have "free_blocks s = insert a (free_blocks s')" using u f(4,5) unfolding free_blocks_def e by auto
  moreover have "a \<notin> free_blocks s'" using u f(4) unfolding free_blocks_def by blast
  ultimately have "card (free_blocks s) = Suc (card (free_blocks s'))" by simp
  then show "card (free_blocks s) + missing s' i R \<le> card (free_blocks s') + missing s i R" using n(1) [OF f(3)] by simp
  show "used s' b" if "unat b < fssize s \<and> used s b" for b using u that by blast
  show "bview s' b = bview s b" if "unat b < fssize s \<and> used s b \<and> b \<notin> bitmap s \<and> b \<notin> taken s i \<and> b \<noteq> iblk s i" for b
  proof (rule v)
    show "b = 0 \<or> b \<noteq> ind s i" using that takenI(2) [of s i] by metis
  qed (use that f(5) in auto)
  show "fblk s' i m = fblk s i m" if "fblk s i m \<noteq> 0" for m using that assms(6) by (auto simp: links_def)
qed

section \<open>\<^verbatim>\<open>bmap\<close>\<close>

lemma with_block_view:
  "b \<noteq> BBLOCK a s \<Longrightarrow> b \<noteq> a \<Longrightarrow> bview (with_block a s) b = bview s b"
  "bview (with_block a s) a = memset (bview s a) 0 0 BSIZE"
  by (simp_all add: with_block_def)

lemma fblk_cong:
  assumes "i_addrs (itable s' i) = i_addrs (itable s i)" "ind s i \<noteq> 0 \<Longrightarrow> bview s' (ind s i) = bview s (ind s i)"
  shows "fblk s' i = fblk s i" "ind s' i = ind s i"
proof -
  show "ind s' i = ind s i" by (simp add: ind_def assms(1))
  then show "fblk s' i = fblk s i" using assms by (intro ext) (simp add: fblk_def)
qed

text \<open>\<^verbatim>\<open>balloc\<close> followed by a step that links the new block.\<close>

definition allocated :: "nat \<Rightarrow> nat set \<Rightarrow> 'a kfs_scheme \<Rightarrow> uint \<times> 'a kfs_scheme \<Rightarrow> bool" where
  "allocated i R s = (\<lambda>(a, s1). (a = 0 \<and> s1 = s \<and> free_blocks s = {}) \<or>
     (a \<in> free_blocks s \<and> a \<noteq> 0 \<and> s1 = with_block a s \<and> fblk s1 i = fblk s i \<and> ind s1 i = ind s i \<and>
      length (log_lh s1) \<le> LOGBLOCKS))"

lemma balloc_try:
  assumes "geom s" "in_op s" "fmap_ok s i"
  shows "tries (fbudget s i R) (allocated i R s) (balloc s)"
proof (cases s rule: balloc_cases)
  case full
  then show ?thesis by (simp add: allocated_def)
next
  case (alloc a)
  note f = free_not_bitmap [OF assms(1) alloc(1)] and k = fmap_okD [OF assms(3)]
  have "fblk (with_block a s) i = fblk s i" "ind (with_block a s) i = ind s i"
  proof -
    have "ind s i \<noteq> BBLOCK a s" "ind s i \<noteq> a" if "ind s i \<noteq> 0"
      using takenI(2) [OF that] k(2) k(3) [of "ind s i"] f(5) bitmap_BBLOCK [OF f(4)] by auto
    then have "bview (with_block a s) (ind s i) = bview s (ind s i)" if "ind s i \<noteq> 0" using that by (simp add: with_block_view)
    then show "fblk (with_block a s) i = fblk s i" "ind (with_block a s) i = ind s i" by (intro fblk_cong; simp)+
  qed
  moreover have "length (logadd (BBLOCK a s) (log_lh s)) \<le> fbudget s i R"
    using assms(2) bitmap_BBLOCK [OF f(4)] by (intro log_bound) (auto simp: in_op_def footprint_def)
  moreover have "length (logadd a l) \<le> LOGBLOCKS" if "\<not> LOGBLOCKS \<le> length l" for l using that by (simp add: logadd_def)
  ultimately show ?thesis using alloc(1) f(3) by (simp add: alloc(2) alloc_at_try [OF assms(2) f(2)] allocated_def)
qed

lemma with_block_fsonly: "fsonly i s (upd_inode i (\<lambda>x. x\<lparr>i_addrs := A x\<rparr>) (with_block a s))"
  unfolding fsonly_def with_block_def upd_inode_def
  by (rule exI, rule exI, rule exI [of _ "A (itable s i)"], rule exI [of _ "i_size (itable s i)"]) (rule kfs.equality; simp)

lemma upd_addrs_simps [simp]:
  "bview (upd_inode i f s) = bview s" "log_lh (upd_inode i f s) = log_lh s" "itable (upd_inode i f s) i = f (itable s i)"
  "sb (upd_inode i f s) = sb s"
  by (simp_all add: upd_inode_def)

lemma used_cong: "sb s' = sb s \<Longrightarrow> bview s' (BBLOCK b s) = bview s (BBLOCK b s) \<Longrightarrow> used s' b = used s b"
  using sb_cong(1) [of s' s b] by (simp add: used_def)

text \<open>A new block is linked in the inode.\<close>

lemma link_inode:
  assumes "geom s" "in_op s" "fmap_ok s i" "a \<in> free_blocks s" "finite R"
    and s': "s' = upd_inode i (\<lambda>x. x\<lparr>i_addrs := (i_addrs x)(n := a)\<rparr>) (with_block a s)"
    and l: "links i R a s s'" "length (log_lh (with_block a s)) \<le> LOGBLOCKS"
  shows "file_step i R s s'"
proof (rule link_step [OF assms(1-5) l(1)])
  note f = free_not_bitmap [OF assms(1,4)]
  show "fsonly i s s'" unfolding s' by (rule with_block_fsonly)
  show "used s' b \<longleftrightarrow> used s b \<or> b = a" if "unat b < fssize s" for b
    using used_with_block [OF assms(1,4) that] used_cong [of s' "with_block a s" b] by (simp add: s')
  show "bview s' b = bview s b" if "b \<notin> bitmap s" "b \<noteq> a" for b
    using that with_block_view(1) [of b a s] bitmap_BBLOCK [OF f(4)] by (auto simp: s')
  show "distinct (log_lh s') \<and> length (log_lh s') \<le> LOGBLOCKS" using assms(2) l(2) by (simp add: s' in_op_def)
  show "set (log_lh s') \<subseteq> set (log_lh s) \<union> bitmap s \<union> {a} \<union> ({ind s i} - {0})"
    using bitmap_BBLOCK [OF f(4)] by (auto simp: s')
  show "set (log_lh s) \<subseteq> set (log_lh s')" by (auto simp: s')
qed

text \<open>A new block is linked in the indirect block.\<close>

definition with_entry :: "nat \<Rightarrow> nat \<Rightarrow> uint \<Rightarrow> 'a kfs_scheme \<Rightarrow> 'a kfs_scheme" where
  "with_entry i n a s = s\<lparr>bview := (bview s)(ind s i := wr32 (bview s (ind s i)) (4 * (n - NDIRECT)) a),
     log_lh := logadd (ind s i) (log_lh s)\<rparr>"

lemma with_entry_simps [simp]:
  "sb (with_entry i n a s) = sb s" "itable (with_entry i n a s) = itable s" "log_lh (with_entry i n a s) = logadd (ind s i) (log_lh s)"
  "ind (with_entry i n a s) i = ind s i"
  "b \<noteq> ind s i \<Longrightarrow> bview (with_entry i n a s) b = bview s b"
  by (simp_all add: with_entry_def ind_def)

lemma fblk_with_entry:
  assumes "NDIRECT \<le> n" "n < MAXFILE" "ind s i \<noteq> 0"
  shows "fblk (with_entry i n a s) i = (fblk s i)(n := a)"
proof
  fix m
  have v: "bview (with_entry i n a s) (ind s i) = wr32 (bview s (ind s i)) (4 * (n - NDIRECT)) a" by (simp add: with_entry_def)
  show "fblk (with_entry i n a s) i m = ((fblk s i)(n := a)) m"
  proof (cases "m < NDIRECT \<or> MAXFILE \<le> m")
    case True
    then show ?thesis using assms by (auto simp: fblk_def)
  next
    case False
    have "rd32 (wr32 (bview s (ind s i)) (4 * (n - NDIRECT)) a) (4 * (m - NDIRECT)) = (if m = n then a else rd32 (bview s (ind s i)) (4 * (m - NDIRECT)))"
    proof (cases "m = n")
      case ne: False
      then have "4 * (m - NDIRECT) + 4 \<le> 4 * (n - NDIRECT) \<or> 4 * (n - NDIRECT) + 4 \<le> 4 * (m - NDIRECT)" using False assms(1) by arith
      then show ?thesis using ne by (subst rd32_wr32_other) auto
    qed simp
    then show ?thesis using False assms v by (simp add: fblk_def)
  qed
qed

lemma link_entry:
  assumes "geom s" "in_op s" "fmap_ok s i" "a \<in> free_blocks s" "finite R"
    and n: "n \<in> R" "NDIRECT \<le> n" "n < MAXFILE" "fblk s i n = 0" "ind s i \<noteq> 0"
    and s1: "fblk (with_block a s) i = fblk s i" "ind (with_block a s) i = ind s i"
    and len: "length (log_lh (with_block a s)) < LOGBLOCKS"
  shows "file_step i R s (with_entry i n a (with_block a s))"
proof (rule link_step [OF assms(1-5)])
  let ?t = "with_block a s" let ?s = "with_entry i n a ?t"
  note f = free_not_bitmap [OF assms(1,4)] and k = fmap_okD [OF assms(3)]
  have i: "ind s i \<notin> bitmap s" "ind s i \<noteq> a" using takenI(2) [OF n(5)] k(2) k(3) [of "ind s i"] f(5) by auto
  have "fblk ?s i = (fblk s i)(n := a)" using fblk_with_entry [OF n(2,3), of ?t i a] n(5) s1 by simp
  then show "links i R a s ?s" unfolding links_def using n s1(2) by auto
  show "fsonly i s ?s"
    unfolding fsonly_def with_block_def with_entry_def
    by (rule exI, rule exI, rule exI [of _ "i_addrs (itable s i)"], rule exI [of _ "i_size (itable s i)"]) (rule kfs.equality; simp)
  show "used ?s b \<longleftrightarrow> used s b \<or> b = a" if "unat b < fssize s" for b
  proof -
    have "BBLOCK b ?t \<noteq> ind ?t i" using i(1) bitmap_BBLOCK [OF that] sb_cong(1) [of ?t s b] s1(2) by auto
    then show ?thesis using used_with_block [OF assms(1,4) that] used_cong [of ?s ?t b] by simp
  qed
  show "bview ?s b = bview s b" if "b \<notin> bitmap s" "b \<noteq> a" "b = 0 \<or> b \<noteq> ind s i" for b
  proof -
    have "b \<noteq> BBLOCK a s" "b \<noteq> ind ?t i" using that n(5) bitmap_BBLOCK [OF f(4)] s1(2) by auto
    then show ?thesis using with_block_view(1) [of b a s] that(2) by simp
  qed
  show "distinct (log_lh ?s) \<and> length (log_lh ?s) \<le> LOGBLOCKS" using assms(2) len by (simp add: in_op_def logadd_def)
  show "set (log_lh ?s) \<subseteq> set (log_lh s) \<union> bitmap s \<union> {a} \<union> ({ind s i} - {0})"
    using bitmap_BBLOCK [OF f(4)] s1(2) n(5) by auto
  show "set (log_lh s) \<subseteq> set (log_lh ?s)" by auto
qed

text \<open>What \<^verbatim>\<open>bmap\<close> does to a file: the address of block \<open>n\<close>, which is 0 only when the disk is full.\<close>

definition mapped_to :: "nat \<Rightarrow> nat set \<Rightarrow> nat \<Rightarrow> 'a kfs_scheme \<Rightarrow> uint \<times> 'a kfs_scheme \<Rightarrow> bool" where
  "mapped_to i R n s = (\<lambda>(a, s'). file_step i R s s' \<and> (a = 0 \<longrightarrow> free_blocks s' = {}) \<and> fblk s' i n = a \<and>
     (\<forall>m. m \<noteq> n \<longrightarrow> fblk s' i m = fblk s i m) \<and> i_size (itable s' i) = i_size (itable s i) \<and>
     (\<forall>m. fblk s i m \<noteq> 0 \<longrightarrow> bview s' (fblk s i m) = bview s (fblk s i m)))"

lemma with_block_data:
  assumes "geom s" "fmap_ok s i" "a \<in> free_blocks s" "fblk s i m \<noteq> 0"
  shows "bview (with_block a s) (fblk s i m) = bview s (fblk s i m)"
proof (rule with_block_view)
  note f = free_not_bitmap [OF assms(1,3)] and k = fmap_okD [OF assms(2)]
  show "fblk s i m \<noteq> BBLOCK a s" using k(3) [OF takenI(1) [OF assms(4)]] bitmap_BBLOCK [OF f(4)] by auto
  show "fblk s i m \<noteq> a" using k(2) [OF takenI(1) [OF assms(4)]] f(5) by auto
qed

lemma fblk_upd_direct:
  "n < NDIRECT \<Longrightarrow> fblk (upd_inode i (\<lambda>x. x\<lparr>i_addrs := (i_addrs x)(n := a)\<rparr>) s) i = (fblk s i)(n := a)"
  "n < NDIRECT \<Longrightarrow> ind (upd_inode i (\<lambda>x. x\<lparr>i_addrs := (i_addrs x)(n := a)\<rparr>) s) i = ind s i"
  by (auto simp: fblk_def ind_def fun_eq_iff)

lemma bmap_direct_try:
  assumes "geom s" "in_op s" "fmap_ok s i" "finite R" "n \<in> R" "n < NDIRECT"
  shows "tries (fbudget s i R) (mapped_to i R n s) (bmap i n s)"
proof (cases "fblk s i n = 0")
  case False
  then show ?thesis using assms file_step_refl [OF assms(1-3)] by (auto simp: bmap_def mapped_to_def fblk_def)
next
  case True
  have b: "bmap i n s = bnd (balloc s) (\<lambda>(addr, s1). if addr = 0 then Ok (0, s1)
       else Ok (addr, upd_inode i (\<lambda>x. x\<lparr>i_addrs := (i_addrs x)(n := addr)\<rparr>) s1))"
    using True assms(6) by (simp add: bmap_def fblk_def)
  show ?thesis unfolding b
  proof (rule tries_bnd [OF balloc_try [OF assms(1-3)]])
    fix x assume x: "allocated i R s x"
    obtain a s1 where p: "x = (a, s1)" by (cases x)
    show "tries (fbudget s i R) (mapped_to i R n s)
        (case x of (addr, s1) \<Rightarrow> if addr = 0 then Ok (0, s1) else Ok (addr, upd_inode i (\<lambda>x. x\<lparr>i_addrs := (i_addrs x)(n := addr)\<rparr>) s1))"
    proof (cases "a = 0")
      case z: True
      then show ?thesis using x True file_step_refl [OF assms(1-3)] by (simp add: p allocated_def mapped_to_def free_blocks_def geom_def)
    next
      case False
      let ?s = "upd_inode i (\<lambda>x. x\<lparr>i_addrs := (i_addrs x)(n := a)\<rparr>) (with_block a s)"
      have a: "a \<in> free_blocks s" "s1 = with_block a s" "fblk s1 i = fblk s i" "ind s1 i = ind s i" "length (log_lh (with_block a s)) \<le> LOGBLOCKS" using x False by (auto simp: p allocated_def)
      have fb: "fblk ?s i = (fblk s i)(n := a)" "ind ?s i = ind s i" using a(2-4) by (simp_all add: fblk_upd_direct [OF assms(6)])
      have "n < MAXFILE" using assms(6) by (simp add: param_defs)
      then have "links i R a s ?s" unfolding links_def using fb True assms(5) by blast
      from link_inode [OF assms(1-3) a(1) assms(4) refl this a(5)]
      show ?thesis using False fb with_block_data [OF assms(1,3) a(1)] by (simp add: p a(2) mapped_to_def)
    qed
  qed simp
qed

text \<open>The indirect block is there, or is allocated.\<close>

definition ind_ready :: "nat \<Rightarrow> nat set \<Rightarrow> 'a kfs_scheme \<Rightarrow> uint \<times> 'a kfs_scheme \<Rightarrow> bool" where
  "ind_ready i R s = (\<lambda>(a, s'). file_step i R s s' \<and> (a = 0 \<longrightarrow> free_blocks s' = {}) \<and> ind s' i = a \<and> fblk s' i = fblk s i \<and>
     i_size (itable s' i) = i_size (itable s i) \<and> (\<forall>m. fblk s i m \<noteq> 0 \<longrightarrow> bview s' (fblk s i m) = bview s (fblk s i m)))"

definition bmap_ind :: "nat \<Rightarrow> 'a kfs_scheme \<Rightarrow> (uint \<times> 'a kfs_scheme) res" where
  "bmap_ind i s =
     (if i_addrs (itable s i) NDIRECT = 0 then
        bnd (balloc s) (\<lambda>(addr, s1).
          if addr = 0 then Ok (0, s1)
          else Ok (addr, upd_inode i (\<lambda>x. x\<lparr>i_addrs := (i_addrs x)(NDIRECT := addr)\<rparr>) s1))
      else Ok (i_addrs (itable s i) NDIRECT, s))"

lemma zero_entries: "k < NINDIRECT \<Longrightarrow> rd32 (memset d 0 0 BSIZE) (4 * k) = 0"
  by (simp add: memset_eq rd32_def fill_def param_defs)

lemma bmap_ind_try:
  assumes "geom s" "in_op s" "fmap_ok s i" "finite R"
  shows "tries (fbudget s i R) (ind_ready i R s) (bmap_ind i s)"
proof (cases "ind s i = 0")
  case False
  then show ?thesis using file_step_refl [OF assms(1-3)] by (simp add: bmap_ind_def ind_ready_def ind_def)
next
  case True
  then have b: "bmap_ind i s = bnd (balloc s) (\<lambda>(addr, s1). if addr = 0 then Ok (0, s1)
       else Ok (addr, upd_inode i (\<lambda>x. x\<lparr>i_addrs := (i_addrs x)(NDIRECT := addr)\<rparr>) s1))"
    by (simp add: bmap_ind_def ind_def)
  show ?thesis unfolding b
  proof (rule tries_bnd [OF balloc_try [OF assms(1-3)]])
    fix x assume x: "allocated i R s x"
    obtain a s1 where p: "x = (a, s1)" by (cases x)
    show "tries (fbudget s i R) (ind_ready i R s)
        (case x of (addr, s1) \<Rightarrow> if addr = 0 then Ok (0, s1) else Ok (addr, upd_inode i (\<lambda>x. x\<lparr>i_addrs := (i_addrs x)(NDIRECT := addr)\<rparr>) s1))"
    proof (cases "a = 0")
      case z: True
      then show ?thesis using x True file_step_refl [OF assms(1-3)] by (simp add: p allocated_def ind_ready_def)
    next
      case False
      let ?s = "upd_inode i (\<lambda>x. x\<lparr>i_addrs := (i_addrs x)(NDIRECT := a)\<rparr>) (with_block a s)"
      have a: "a \<in> free_blocks s" "s1 = with_block a s" "length (log_lh (with_block a s)) \<le> LOGBLOCKS" using x False by (auto simp: p allocated_def)
      have i: "ind ?s i = a" by (simp add: ind_def)
      have "fblk ?s i m = fblk s i m" for m
      proof (cases "m < NDIRECT \<or> MAXFILE \<le> m")
        case True
        then show ?thesis by (auto simp: fblk_def MAXFILE_def)
      next
        case m: False
        then have "m - NDIRECT < NINDIRECT" unfolding MAXFILE_def by arith
        then have "fblk ?s i m = 0" using m i by (simp add: fblk_def with_block_view zero_entries)
        moreover have "fblk s i m = 0" using m True by (simp add: fblk_def)
        ultimately show ?thesis by simp
      qed
      then have fb: "fblk ?s i = fblk s i" by blast
      then have "links i R a s ?s" unfolding links_def using i True by blast
      from link_inode [OF assms(1-3) a(1) assms(4) refl this a(3)]
      show ?thesis using False fb i with_block_data [OF assms(1,3) a(1)] by (simp add: p a(2) ind_ready_def)
    qed
  qed simp
qed

text \<open>The entry of the indirect block is there, or a block is allocated for it.\<close>

definition bmap_entry :: "uint \<Rightarrow> nat \<Rightarrow> 'a kfs_scheme \<Rightarrow> (uint \<times> 'a kfs_scheme) res" where
  "bmap_entry d n s =
     (let addr = rd32 (bview s d) (4 * n) in
      if addr = 0 then
        bnd (balloc s) (\<lambda>(a, s3).
          if a \<noteq> 0 then bnd (blk_log d (wr32 (bview s3 d) (4 * n) a) s3) (\<lambda>s4. Ok (a, s4))
          else Ok (a, s3))
      else Ok (addr, s))"

lemma bmap_entry_try:
  assumes "geom s" "in_op s" "fmap_ok s i" "finite R" "n \<in> R" "NDIRECT \<le> n" "n < MAXFILE" "ind s i \<noteq> 0"
  shows "tries (fbudget s i R) (mapped_to i R n s) (bmap_entry (ind s i) (n - NDIRECT) s)"
proof (cases "fblk s i n = 0")
  case False
  then show ?thesis using assms file_step_refl [OF assms(1-3)] by (simp add: bmap_entry_def mapped_to_def fblk_def)
next
  case True
  then have b: "bmap_entry (ind s i) (n - NDIRECT) s = bnd (balloc s) (\<lambda>(a, s3).
       if a \<noteq> 0 then bnd (blk_log (ind s i) (wr32 (bview s3 (ind s i)) (4 * (n - NDIRECT)) a) s3) (\<lambda>s4. Ok (a, s4)) else Ok (a, s3))"
    using assms(6-8) by (simp add: bmap_entry_def fblk_def)
  show ?thesis unfolding b
  proof (rule tries_bnd [OF balloc_try [OF assms(1-3)]])
    fix x assume x: "allocated i R s x"
    obtain a s3 where p: "x = (a, s3)" by (cases x)
    show "tries (fbudget s i R) (mapped_to i R n s)
        (case x of (a, s3) \<Rightarrow> if a \<noteq> 0 then bnd (blk_log (ind s i) (wr32 (bview s3 (ind s i)) (4 * (n - NDIRECT)) a) s3) (\<lambda>s4. Ok (a, s4)) else Ok (a, s3))"
    proof (cases "a = 0")
      case z: True
      then show ?thesis using x True file_step_refl [OF assms(1-3)] by (simp add: p allocated_def mapped_to_def)
    next
      case False
      let ?t = "with_block a s" let ?s = "with_entry i n a ?t"
      have a: "a \<in> free_blocks s" "s3 = ?t" "fblk ?t i = fblk s i" "ind ?t i = ind s i" using x False by (auto simp: p allocated_def)
      note f = free_not_bitmap [OF assms(1) a(1)]
      have fb: "fblk ?s i = (fblk s i)(n := a)" using a(3,4) assms(6-8) by (simp add: fblk_with_entry)
      have lo: "in_op ?t" using assms(2) x False by (auto simp: in_op_def p allocated_def)
      have "n \<in> {j\<in>R. fblk s i j = 0}" using assms(5) True by simp
      then have "0 < missing s i R" using assms(4) by (auto simp: missing_def card_gt_0_iff)
      then have len: "length (log_lh ?t) \<le> fbudget s i R"
        using lo bitmap_BBLOCK [OF f(4)] by (intro log_bound1 [of _ a]) (auto simp: in_op_def footprint_def)
      have "bview ?s (fblk s i m) = bview s (fblk s i m)" if "fblk s i m \<noteq> 0" for m
        using with_block_data [OF assms(1,3) a(1) that] fmap_okD(6) [OF assms(3) that] a(4) by simp
      then have "mapped_to i R n s (a, ?s)" if "length (log_lh ?t) < LOGBLOCKS"
        using False fb link_entry [OF assms(1-3) a(1) assms(4-7) True assms(8) a(3,4) that] by (simp add: mapped_to_def)
      moreover have "blk_log (ind s i) (wr32 (bview s3 (ind s i)) (4 * (n - NDIRECT)) a) s3 =
          (if LOGBLOCKS \<le> length (log_lh ?t) then Panic ''too big a transaction'' else Ok ?s)"
        unfolding a(2) blk_log_try [OF lo] with_entry_def a(4) by simp
      ultimately show ?thesis using False len by (simp add: p)
    qed
  qed simp
qed

lemma mapped_to_trans:
  assumes "file_step i R s t" "fblk t i = fblk s i" "i_size (itable t i) = i_size (itable s i)"
    "\<forall>m. fblk s i m \<noteq> 0 \<longrightarrow> bview t (fblk s i m) = bview s (fblk s i m)" "mapped_to i R n t x"
  shows "mapped_to i R n s x"
  using assms file_step_trans [OF assms(1), of "snd x"] by (cases x) (simp add: mapped_to_def)

lemma bmap_try:
  assumes "geom s" "in_op s" "fmap_ok s i" "finite R" "n \<in> R" "n < MAXFILE"
  shows "tries (fbudget s i R) (mapped_to i R n s) (bmap i n s)"
proof (cases "n < NDIRECT")
  case True
  then show ?thesis by (rule bmap_direct_try [OF assms(1-5)])
next
  case False
  have "n - NDIRECT < NINDIRECT" using assms(6) False unfolding MAXFILE_def by arith
  then have b: "bmap i n s = bnd (bmap_ind i s) (\<lambda>(d, s2). if d = 0 then Ok (0, s2) else bmap_entry d (n - NDIRECT) s2)"
    using False unfolding bmap_def bmap_ind_def bmap_entry_def Let_def by simp
  show ?thesis unfolding b
  proof (rule tries_bnd [OF bmap_ind_try [OF assms(1-4)]])
    fix x assume x: "ind_ready i R s x"
    obtain d t where p: "x = (d, t)" by (cases x)
    have r: "file_step i R s t" "d = 0 \<longrightarrow> free_blocks t = {}" "ind t i = d" "fblk t i = fblk s i" "i_size (itable t i) = i_size (itable s i)"
      "\<forall>m. fblk s i m \<noteq> 0 \<longrightarrow> bview t (fblk s i m) = bview s (fblk s i m)"
      using x by (simp_all add: p ind_ready_def)
    note st = file_stepD [OF r(1)]
    show "tries (fbudget s i R) (mapped_to i R n s) (case x of (d, s2) \<Rightarrow> if d = 0 then Ok (0, s2) else bmap_entry d (n - NDIRECT) s2)"
    proof (cases "d = 0")
      case True
      then have "fblk s i n = 0" using r(3,4) False by (metis fblk_def)
      then show ?thesis using True r by (simp add: p mapped_to_def)
    next
      case d: False
      have "tries (fbudget t i R) (mapped_to i R n t) (bmap_entry (ind t i) (n - NDIRECT) t)"
        using False d r(3) by (intro bmap_entry_try [OF st(2-4) assms(4,5) _ assms(6)]) auto
      from tries_mono [OF this mapped_to_trans [OF r(1,4-6)] st(9)] show ?thesis using d r(3) by (simp add: p)
    qed
  qed simp
qed

end
