(* ===== verification/Filedata.thy ===== *)
theory Filedata
  imports Filemap Addrspace
begin

unbundle bit_operations_syntax

text \<open>
  Files as byte arrays: what \<^verbatim>\<open>writei\<close> and \<^verbatim>\<open>readi\<close> of \<^verbatim>\<open>kernel/fs.c\<close> do to the content of a file, for
  the sources and destinations in the kernel that checkpoints and directories use.
\<close>

section \<open>The content of a file\<close>

definition fbyte :: "'a kfs_scheme \<Rightarrow> nat \<Rightarrow> nat \<Rightarrow> byte" where
  "fbyte s i k = bview s (fblk s i (k div BSIZE)) (k mod BSIZE)"

definition fsz :: "'a kfs_scheme \<Rightarrow> nat \<Rightarrow> nat" where
  "fsz s i = unat (i_size (itable s i))"

definition content :: "'a kfs_scheme \<Rightarrow> nat \<Rightarrow> byte list" where
  "content s i = map (fbyte s i) [0..<fsz s i]"

text \<open>A file in good order has a block for every byte.\<close>

definition file_ok :: "'a kfs_scheme \<Rightarrow> nat \<Rightarrow> bool" where
  "file_ok s i \<longleftrightarrow> geom s \<and> fmap_ok s i \<and> fsz s i \<le> MAXFILE * BSIZE \<and> (\<forall>k<fsz s i. fblk s i (k div BSIZE) \<noteq> 0)"

section \<open>Sources in the kernel\<close>

fun src_ok :: "src \<Rightarrow> nat \<Rightarrow> bool" where
  "src_ok (UserSrc a) n = False"
| "src_ok (MemSrc a) n = (unat a + n < 2 ^ 64)"
| "src_ok (StackSrc xs) n = (n \<le> length xs)"

fun src_list :: "src \<Rightarrow> nat \<Rightarrow> bytes \<Rightarrow> byte list" where
  "src_list (UserSrc a) n m = []"
| "src_list (MemSrc a) n m = getl m (unat a) n"
| "src_list (StackSrc xs) n m = take n xs"

lemma src_split:
  assumes "src_ok src (m + n)"
  shows "either_copyin src m s = Ok ((src_list src m (mem s), True), s)" "src_ok (src_add src m) n"
    "src_list src (m + n) b = src_list src m b @ src_list (src_add src m) n b" "length (src_list src m b) = m"
proof -
  have u: "unat (a + of_nat m) = unat a + m" if "unat a + (m + n) < 2 ^ 64" for a :: uint64
    using that by (simp add: unat_word_ariths unat_of_nat)
  show "either_copyin src m s = Ok ((src_list src m (mem s), True), s)" using assms by (cases src) simp_all
  show "src_ok (src_add src m) n" using assms u by (cases src) (auto simp: add.assoc)
  show "src_list src (m + n) b = src_list src m b @ src_list (src_add src m) n b"
    using assms u by (cases src) (auto simp: getl_add take_add)
  show "length (src_list src m b) = m" using assms by (cases src) simp_all
qed

section \<open>Writing one block\<close>

definition written :: "nat \<Rightarrow> nat \<Rightarrow> byte list \<Rightarrow> 'a kfs_scheme \<Rightarrow> 'a kfs_scheme \<Rightarrow> bool" where
  "written i off xs s s' \<longleftrightarrow>
     (\<forall>k. off \<le> k \<and> k < off + length xs \<longrightarrow> fblk s' i (k div BSIZE) \<noteq> 0 \<and> fblk s' i (k div BSIZE) \<in> set (log_lh s') \<and>
        fbyte s' i k = xs ! (k - off)) \<and>
     (\<forall>k. fblk s i (k div BSIZE) \<noteq> 0 \<and> \<not> (off \<le> k \<and> k < off + length xs) \<longrightarrow> fbyte s' i k = fbyte s i k) \<and>
     i_size (itable s' i) = i_size (itable s i)"

lemma writtenD:
  assumes "written i off xs s s'"
  shows "off \<le> k \<Longrightarrow> k < off + length xs \<Longrightarrow> fblk s' i (k div BSIZE) \<noteq> 0"
    "off \<le> k \<Longrightarrow> k < off + length xs \<Longrightarrow> fblk s' i (k div BSIZE) \<in> set (log_lh s')"
    "off \<le> k \<Longrightarrow> k < off + length xs \<Longrightarrow> fbyte s' i k = xs ! (k - off)"
    "fblk s i (k div BSIZE) \<noteq> 0 \<Longrightarrow> \<not> (off \<le> k \<and> k < off + length xs) \<Longrightarrow> fbyte s' i k = fbyte s i k"
    "i_size (itable s' i) = i_size (itable s i)"
  using assms unfolding written_def by blast+

lemma written_Nil: "written i off [] s s"
  by (auto simp: written_def)

lemma written_append:
  assumes 1: "written i off xs s t" "file_step i R s t" and 2: "written i (off + length xs) ys t u" "file_step i R t u"
  shows "written i off (xs @ ys) s u"
  unfolding written_def
proof (intro conjI allI impI)
  show "i_size (itable u i) = i_size (itable s i)" using writtenD(5) [OF 1(1)] writtenD(5) [OF 2(1)] by simp
  fix k assume k: "fblk s i (k div BSIZE) \<noteq> 0 \<and> \<not> (off \<le> k \<and> k < off + length (xs @ ys))"
  have "fblk t i (k div BSIZE) = fblk s i (k div BSIZE)" using k by (intro file_stepD(7) [OF 1(2)]) simp
  then have "fbyte u i k = fbyte t i k" using k by (intro writtenD(4) [OF 2(1)]) auto
  then show "fbyte u i k = fbyte s i k" using writtenD(4) [OF 1(1), of k] k by auto
next
  fix k assume k: "off \<le> k \<and> k < off + length (xs @ ys)"
  have "fblk u i (k div BSIZE) \<noteq> 0 \<and> fblk u i (k div BSIZE) \<in> set (log_lh u) \<and> fbyte u i k = (xs @ ys) ! (k - off)"
  proof (cases "k < off + length xs")
    case True
    note w = writtenD(1-3) [OF 1(1) conjunct1 [OF k] True]
    moreover have "fblk u i (k div BSIZE) = fblk t i (k div BSIZE)" by (rule file_stepD(7) [OF 2(2) w(1)])
    moreover have "fbyte u i k = fbyte t i k" using True by (intro writtenD(4) [OF 2(1) w(1)]) simp
    moreover have "set (log_lh t) \<subseteq> set (log_lh u)" by (rule file_stepD(12) [OF 2(2)])
    ultimately show ?thesis using True k by (auto simp: nth_append)
  next
    case False
    then show ?thesis using writtenD(1-3) [OF 2(1), of k] k by (auto simp: nth_append)
  qed
  then show "fblk u i (k div BSIZE) \<noteq> 0" "fblk u i (k div BSIZE) \<in> set (log_lh u)" "fbyte u i k = (xs @ ys) ! (k - off)" by blast+
qed

text \<open>A change of the data or of the inode, without allocation.\<close>

lemma quiet_step:
  assumes "geom s" "in_op s" "fmap_ok s i" "fsonly i s s'" "fblk s' i = fblk s i" "ind s' i = ind s i"
    and v: "\<And>b. b \<notin> taken s i \<Longrightarrow> b \<noteq> iblk s i \<Longrightarrow> bview s' b = bview s b"
    and l: "distinct (log_lh s') \<and> length (log_lh s') \<le> LOGBLOCKS" "set (log_lh s) \<subseteq> set (log_lh s')" "set (log_lh s') \<subseteq> footprint s i R"
  shows "file_step i R s s'"
proof -
  note e = fsonly_simps [OF assms(4)] and k = fmap_okD [OF assms(3)]
  have u: "used s' b = used s b" if "unat b < fssize s" for b
  proof (rule used_cong [OF e(1)])
    have "BBLOCK b s \<notin> taken s i" "BBLOCK b s \<noteq> iblk s i" using k(3) k(7) bitmap_BBLOCK [OF that] by auto
    then show "bview s' (BBLOCK b s) = bview s (BBLOCK b s)" by (rule v)
  qed
  have t: "taken s' i = taken s i" by (simp add: taken_def assms(5,6))
  have "footprint s' i R \<subseteq> footprint s i R" using l(3) unfolding footprint_def assms(5,6) e(3,4) by blast
  then have "card (footprint s' i R) \<le> card (footprint s i R)" by (rule card_mono [OF finite])
  then have b: "fbudget s' i R \<le> fbudget s i R" by (simp add: fbudget_def missing_def assms(5,6))
  have f: "free_blocks s' = free_blocks s" unfolding free_blocks_def e(5) using u by auto
  have n: "missing s' i R = missing s i R" by (simp add: missing_def assms(5,6))
  have "unat (0::uint) < fssize s" using assms(1) by (simp add: geom_def)
  from u [OF this] have g: "geom s'" using assms(1) u by (simp add: geom_def e)
  have m: "fmap_ok s' i" unfolding fmap_ok_def t assms(5,6) e using k u by blast
  have o: "in_op s'" using assms(2) l(1) e(7) by (simp add: in_op_def)
  show ?thesis unfolding file_step_def f n
    using assms(4,5) g m o u v t b l(2) by auto
qed

definition with_data :: "uint \<Rightarrow> bytes \<Rightarrow> 'a kfs_scheme \<Rightarrow> 'a kfs_scheme" where
  "with_data a d s = s\<lparr>bview := (bview s)(a := d), log_lh := logadd a (log_lh s)\<rparr>"

lemma with_data_simps [simp]:
  "bview (with_data a d s) = (bview s)(a := d)" "log_lh (with_data a d s) = logadd a (log_lh s)"
  "itable (with_data a d s) = itable s" "mem (with_data a d s) = mem s"
  by (simp_all add: with_data_def)

lemma with_data_fblk:
  assumes "fmap_ok s i" "a = fblk s i n" "a \<noteq> 0"
  shows "fblk (with_data a d s) i = fblk s i" "ind (with_data a d s) i = ind s i"
proof -
  have "a \<noteq> ind s i" using fmap_okD(6) [OF assms(1)] assms(2,3) by simp
  then show "fblk (with_data a d s) i = fblk s i" "ind (with_data a d s) i = ind s i" by (intro fblk_cong; simp)+
qed

lemma with_data_step:
  assumes "geom s" "in_op s" "fmap_ok s i" "n \<in> R" "a = fblk s i n" "a \<noteq> 0" and len: "length (log_lh s) < LOGBLOCKS"
  shows "file_step i R s (with_data a d s)"
proof (rule quiet_step [OF assms(1-3)])
  note w = with_data_fblk [OF assms(3,5,6)]
  show "fblk (with_data a d s) i = fblk s i" "ind (with_data a d s) i = ind s i" by (rule w)+
  show "fsonly i s (with_data a d s)" unfolding fsonly_def with_data_def
    by (rule exI, rule exI, rule exI [of _ "i_addrs (itable s i)"], rule exI [of _ "i_size (itable s i)"]) (rule kfs.equality; simp)
  show "bview (with_data a d s) b = bview s b" if "b \<notin> taken s i" for b
    using that takenI(1) [of s i n] assms(5,6) by auto
  show "distinct (log_lh (with_data a d s)) \<and> length (log_lh (with_data a d s)) \<le> LOGBLOCKS" using assms(2) len by (simp add: in_op_def logadd_def)
  show "set (log_lh (with_data a d s)) \<subseteq> footprint s i R" using assms(4-6) by (auto simp: footprint_def)
qed auto

lemma write_chunk:
  assumes "geom s" "in_op s" "fmap_ok s i" "n \<in> R" and m: "mapped_to i R n s (a, t)" "a \<noteq> 0"
    and x: "n = off div BSIZE" "off mod BSIZE + length xs \<le> BSIZE" and len: "length (log_lh t) < LOGBLOCKS"
  defines "u \<equiv> with_data a (putl (bview t a) (off mod BSIZE) xs) t"
  shows "file_step i R s u" "written i off xs s u"
proof -
  have st: "file_step i R s t" and fa: "fblk t i n = a" and fo: "\<And>j. j \<noteq> n \<Longrightarrow> fblk t i j = fblk s i j"
    and sz: "i_size (itable t i) = i_size (itable s i)"
    and da: "\<And>j. fblk s i j \<noteq> 0 \<Longrightarrow> bview t (fblk s i j) = bview s (fblk s i j)"
    using m(1) by (simp_all add: mapped_to_def)
  note d = file_stepD [OF st]
  have "file_step i R t u" unfolding u_def using fa by (intro with_data_step [OF d(2-4) assms(4) _ m(2) len]) simp
  then show "file_step i R s u" by (rule file_step_trans [OF st])
  have fu: "fblk u i = fblk t i" unfolding u_def using fa by (intro with_data_fblk(1) [OF d(4) _ m(2), of n]) simp
  have B: "0 < BSIZE" by (simp add: param_defs)
  have in_block: "k div BSIZE = n \<and> k mod BSIZE = off mod BSIZE + (k - off)" if "off \<le> k" "k < off + length xs" for k
  proof -
    have "k = BSIZE * n + (off mod BSIZE + (k - off))" using that(1) x(1) mult_div_mod_eq [of BSIZE off] by simp
    moreover have "off mod BSIZE + (k - off) < BSIZE" using that x(2) by linarith
    ultimately show ?thesis by (metis div_mult_self4 mod_mult_self4 div_less mod_less add_0_right B less_not_refl)
  qed
  show "written i off xs s u" unfolding written_def
  proof (intro conjI allI impI)
    show "i_size (itable u i) = i_size (itable s i)" by (simp add: u_def sz)
    fix k assume k: "fblk s i (k div BSIZE) \<noteq> 0 \<and> \<not> (off \<le> k \<and> k < off + length xs)"
    show "fbyte u i k = fbyte s i k"
    proof (cases "k div BSIZE = n")
      case True
      then have fs: "fblk s i n = a" using d(7) [of n] k fa by simp
      have "k mod BSIZE < off mod BSIZE \<or> off mod BSIZE + length xs \<le> k mod BSIZE"
      proof -
        have "k = BSIZE * n + k mod BSIZE" "off = BSIZE * n + off mod BSIZE" using True x(1) by (metis mult_div_mod_eq)+
        then show ?thesis using k by linarith
      qed
      then have "fbyte u i k = bview t a (k mod BSIZE)" using True fa by (simp add: fbyte_def fu, simp add: u_def putl_outside)
      then show ?thesis using True fs da [of n] m(2) by (simp add: fbyte_def)
    next
      case False
      have "fblk s i (k div BSIZE) \<noteq> a"
        using fmap_okD(5) [OF d(4), of "k div BSIZE" n] fo [OF False] fa m(2) False by auto
      then show ?thesis using fo [OF False] da k by (simp add: fbyte_def fu) (simp add: u_def)
    qed
  next
    fix k assume k: "off \<le> k \<and> k < off + length xs"
    note b = in_block [OF conjunct1 [OF k] conjunct2 [OF k]]
    show "fblk u i (k div BSIZE) \<noteq> 0" using b fa m(2) by (simp add: fu)
    show "fblk u i (k div BSIZE) \<in> set (log_lh u)" using b fa by (simp add: fu) (simp add: u_def)
    obtain j where j: "k = off + j" "j < length xs" using k le_Suc_ex by fastforce
    then show "fbyte u i k = xs ! (k - off)" using b fa by (simp add: fbyte_def fu) (simp add: u_def putl_inside)
  qed
qed

section \<open>The loop of \<^verbatim>\<open>writei\<close>\<close>

text \<open>The disk is full, and one of the blocks \<open>R\<close> of the file is missing.\<close>

definition disk_full :: "nat \<Rightarrow> nat set \<Rightarrow> 'a kfs_scheme \<Rightarrow> bool" where
  "disk_full i R s \<longleftrightarrow> free_blocks s = {} \<and> 0 < missing s i R"

definition writes :: "nat \<Rightarrow> nat set \<Rightarrow> src \<Rightarrow> nat \<Rightarrow> nat \<Rightarrow> nat \<Rightarrow> 'a kfs_scheme \<Rightarrow> (nat \<times> nat) \<times> 'a kfs_scheme \<Rightarrow> bool" where
  "writes i R src off n tot s = (\<lambda>((tot', off'), s').
     \<exists>r. tot' = tot + r \<and> off' = off + r \<and> tot' \<le> n \<and> (tot' < n \<longrightarrow> disk_full i R s') \<and>
       file_step i R s s' \<and> written i off (take r (src_list src (n - tot) (mem s))) s s')"

lemma range_blocks:
  assumes "\<forall>k. off \<le> k \<and> k < off + n \<longrightarrow> k div BSIZE \<in> R" "0 < n"
  shows "off div BSIZE \<in> R"
  using assms by auto

lemma writes_more:
  assumes "tot + m \<le> n" "src_ok src (m + (n - (tot + m)))" "file_step i R s u" "written i off (src_list src m (mem s)) s u" "mem u = mem s"
    and y: "writes i R (src_add src m) (off + m) n (tot + m) u y"
  shows "writes i R src off n tot s y"
proof -
  let ?xs = "src_list src m (mem s)" and ?ys = "src_list (src_add src m) (n - (tot + m)) (mem s)"
  note sp = src_split [OF assms(2)]
  obtain tot' off' s' where q: "y = ((tot', off'), s')" by (cases y) auto
  obtain r where r: "tot' = tot + m + r" "off' = off + m + r" "tot' \<le> n" "tot' < n \<longrightarrow> disk_full i R s'" "file_step i R u s'"
    "written i (off + m) (take r ?ys) u s'"
    using y assms(5) by (auto simp: q writes_def)
  have "take (m + r) (src_list src (n - tot) (mem s)) = ?xs @ take r ?ys"
    using sp(3) [of "mem s"] sp(4) [of "mem s"] assms(1) by simp
  moreover have "written i off (?xs @ take r ?ys) s s'"
    using r(6) sp(4) by (intro written_append [OF assms(4,3) _ r(5)]) simp
  ultimately show ?thesis using r(1-4) file_step_trans [OF assms(3) r(5)]
    by (auto simp: q writes_def intro!: exI [of _ "m + r"])
qed

lemma writei_loop_try:
  assumes "geom s" "in_op s" "fmap_ok s i" "finite R" "R \<subseteq> {..<MAXFILE}" "tot \<le> n" "src_ok src (n - tot)"
    "\<forall>k. off \<le> k \<and> k < off + (n - tot) \<longrightarrow> k div BSIZE \<in> R"
  shows "tries (fbudget s i R) (writes i R src off n tot s) (writei_loop i src off n tot s)"
  using assms
proof (induction "n - tot" arbitrary: src off tot s rule: less_induct)
  case less
  note g = less.prems(1-3)
  show ?case
  proof (cases "tot < n")
    case False
    then show ?thesis using less.prems(6) file_step_refl [OF g] written_Nil
      by (subst writei_loop.simps) (simp add: writes_def)
  next
    case True
    define m where "m = min (n - tot) (BSIZE - off mod BSIZE)"
    have B: "off mod BSIZE < BSIZE" by (simp add: param_defs)
    have m: "0 < m" "tot + m \<le> n" "off mod BSIZE + m \<le> BSIZE" using True B by (auto simp: m_def min_def)
    have "n - tot = m + (n - (tot + m))" using m(2) by simp
    with less.prems(7) have so: "src_ok src (m + (n - (tot + m)))" by simp
    note sp = src_split [OF so]
    let ?n = "off div BSIZE"
    have R: "?n \<in> R" using True by (intro range_blocks [OF less.prems(8)]) simp
    then have "?n < MAXFILE" using less.prems(5) by blast
    note bm = bmap_try [OF g less.prems(4) R this]
    show ?thesis
      unfolding writei_loop.simps [of i src off n tot s] if_P [OF True]
    proof (rule tries_bnd [OF bm])
      fix x assume x: "mapped_to i R ?n s x"
      obtain a t where p: "x = (a, t)" by (cases x)
      have st: "file_step i R s t" "a = 0 \<longrightarrow> free_blocks t = {}" using x by (simp_all add: p mapped_to_def)
      note d = file_stepD [OF st(1)]
      show "tries (fbudget s i R) (writes i R src off n tot s) (case x of (addr, s1) \<Rightarrow> if addr = 0 then Ok ((tot, off), s1)
          else let m = min (n - tot) (BSIZE - off mod BSIZE) in
               bnd (either_copyin src m s1) (\<lambda>((xs, ok), s2).
                 let d = putl (bview s2 addr) (off mod BSIZE) xs in
                 if \<not> ok then Ok ((tot, off), blk_put addr d s2)
                 else bnd (blk_log addr d s2) (\<lambda>s3. writei_loop i (src_add src m) (off + m) n (tot + m) s3)))"
      proof (cases "a = 0")
        case z: True
        have "fbyte t i k = fbyte s i k" if "fblk s i (k div BSIZE) \<noteq> 0" for k
          using d(7) [OF that] x that by (simp add: p mapped_to_def fbyte_def)
        then have "written i off [] s t" using x by (auto simp: p written_def mapped_to_def)
        moreover have "?n \<in> {j\<in>R. fblk t i j = 0}" using x z R by (simp add: p mapped_to_def)
        then have "0 < card {j\<in>R. fblk t i j = 0}" using less.prems(4) by (auto simp: card_gt_0_iff)
        ultimately show ?thesis using z st True by (simp add: p writes_def disk_full_def missing_def)
      next
        case False
        let ?xs = "src_list src m (mem t)"
        let ?u = "with_data a (putl (bview t a) (off mod BSIZE) ?xs) t"
        have fa: "fblk t i ?n = a" using x by (simp add: p mapped_to_def)
        have ln: "length (log_lh t) \<le> fbudget s i R"
        proof (rule order_trans [OF log_bound d(9)])
          show "set (log_lh t) \<subseteq> footprint t i R" by (auto simp: footprint_def)
        qed (use d(3) in \<open>simp add: in_op_def\<close>)
        have "blk_log a (putl (bview t a) (off mod BSIZE) ?xs) t = (if LOGBLOCKS \<le> length (log_lh t) then Panic ''too big a transaction'' else Ok ?u)"
          by (simp add: blk_log_try [OF d(3)] with_data_def)
        then have eq: "?thesis \<longleftrightarrow> tries (fbudget s i R) (writes i R src off n tot s)
            (if LOGBLOCKS \<le> length (log_lh t) then Panic ''too big a transaction'' else writei_loop i (src_add src m) (off + m) n (tot + m) ?u)"
          using False by (simp add: p m_def [symmetric] sp(1) Let_def)
        show ?thesis
        proof (cases "LOGBLOCKS \<le> length (log_lh t)")
          case False
          then have len: "length (log_lh t) < LOGBLOCKS" by simp
          have wc: "file_step i R s ?u" "written i off ?xs s ?u"
            using m(3) sp(4) by (intro write_chunk [OF g R x [unfolded p] \<open>a \<noteq> 0\<close> refl _ len]; simp)+
          have IH: "tries (fbudget ?u i R) (writes i R (src_add src m) (off + m) n (tot + m) ?u) (writei_loop i (src_add src m) (off + m) n (tot + m) ?u)"
          proof (rule less.hyps)
            show "n - (tot + m) < n - tot" using m True by simp
            show "geom ?u" "in_op ?u" "fmap_ok ?u i" by (rule file_stepD [OF wc(1)])+
            show "\<forall>k. off + m \<le> k \<and> k < off + m + (n - (tot + m)) \<longrightarrow> k div BSIZE \<in> R" using less.prems(8) m(2) by auto
          qed (use less.prems m sp in auto)
          have me: "mem ?u = mem s" using fsonly_simps(2) [OF d(1)] by simp
          have "writes i R src off n tot s y" if y: "writes i R (src_add src m) (off + m) n (tot + m) ?u y" for y
            by (rule writes_more [OF m(2) so wc(1) _ me y]) (use wc(2) me in simp)
          from tries_mono [OF IH this file_stepD(9) [OF wc(1)]] show ?thesis unfolding eq using len by simp
        qed (use eq ln in simp)
      qed
    qed simp
  qed
qed

section \<open>\<^verbatim>\<open>writei\<close>\<close>

definition overwrite :: "byte list \<Rightarrow> nat \<Rightarrow> byte list \<Rightarrow> byte list" where
  "overwrite xs off ys = take off xs @ ys @ drop (off + length ys) xs"

lemma length_overwrite: "off \<le> length xs \<Longrightarrow> length (overwrite xs off ys) = max (length xs) (off + length ys)"
  by (simp add: overwrite_def max_def)

lemma nth_overwrite:
  assumes "off \<le> length xs" "k < max (length xs) (off + length ys)"
  shows "overwrite xs off ys ! k = (if off \<le> k \<and> k < off + length ys then ys ! (k - off) else xs ! k)"
  using assms by (auto simp: overwrite_def nth_append min_def max_def split: if_splits)

lemma length_content [simp]: "length (content s i) = fsz s i"
  by (simp add: content_def)

lemma nth_content: "k < fsz s i \<Longrightarrow> content s i ! k = fbyte s i k"
  by (simp add: content_def)

text \<open>The end of \<^verbatim>\<open>writei\<close>: the new size and the inode on the disk.\<close>

definition with_size :: "nat \<Rightarrow> uint \<Rightarrow> 'a kfs_scheme \<Rightarrow> 'a kfs_scheme" where
  "with_size i z s = upd_inode i (\<lambda>x. x\<lparr>i_size := z\<rparr>) s"

lemma with_size_same: "with_size i (i_size (itable s i)) s = s"
  by (simp add: with_size_def upd_inode_def)

lemma with_size_fblk [simp]: "fblk (with_size i z s) i = fblk s i" "ind (with_size i z s) i = ind s i" "bview (with_size i z s) = bview s"
  "log_lh (with_size i z s) = log_lh s" "i_size (itable (with_size i z s) i) = z" "log_outstanding (with_size i z s) = log_outstanding s"
  by (simp_all add: with_size_def fblk_def ind_def fun_eq_iff upd_inode_def)

lemma iupdate_try:
  assumes "geom s" "in_op s" "fmap_ok s i"
  shows "tries (fbudget s i R) (\<lambda>u. file_step i R s u \<and> fblk u i = fblk s i \<and> ind u i = ind s i \<and> i_size (itable u i) = z \<and>
    (\<forall>b. b \<noteq> iblk s i \<longrightarrow> bview u b = bview s b)) (iupdate i (with_size i z s))"
proof -
  let ?t = "with_size i z s" and ?d = "\<lambda>t. dinode_write (itable t i) (bview t (iblk s i))"
  let ?u = "?t\<lparr>bview := (bview s)(iblk s i := ?d ?t), log_lh := logadd (iblk s i) (log_lh s)\<rparr>"
  have b: "IBLOCK (i_inum (itable ?t i)) ?t = iblk s i" by (simp add: iblk_def with_size_def IBLOCK_def)
  have lo: "in_op ?t" using assms(2) by (simp add: in_op_def)
  have r: "iupdate i ?t = (if LOGBLOCKS \<le> length (log_lh s) then Panic ''too big a transaction'' else Ok ?u)"
    unfolding iupdate_def b Let_def blk_log_try [OF lo] by simp
  have "length (log_lh s) \<le> fbudget s i R" using assms(2) by (intro log_bound) (auto simp: footprint_def in_op_def)
  moreover have ni: "iblk s i \<noteq> ind s i" if "ind s i \<noteq> 0" using fmap_okD(4) [OF assms(3) takenI(2) [OF that]] by simp
  have f: "fblk ?u i = fblk s i" "ind ?u i = ind s i"
  proof -
    have "fblk ?u i = fblk ?t i" "ind ?u i = ind ?t i" using ni by (intro fblk_cong; auto)+
    then show "fblk ?u i = fblk s i" "ind ?u i = ind s i" by simp_all
  qed
  moreover have "file_step i R s ?u" if len: "\<not> LOGBLOCKS \<le> length (log_lh s)"
  proof (rule quiet_step [OF assms _ f])
    show "fsonly i s ?u" unfolding fsonly_def with_size_def upd_inode_def
      by (rule exI, rule exI, rule exI [of _ "i_addrs (itable s i)"], rule exI [of _ z]) (rule kfs.equality; simp)
    show "set (log_lh ?u) \<subseteq> footprint s i R" by (auto simp: footprint_def)
  qed (use assms(2) len in \<open>auto simp: in_op_def logadd_def\<close>)
  ultimately show ?thesis by (simp add: r)
qed

text \<open>
  The result of \<^verbatim>\<open>writei\<close>: the number of bytes written, which is smaller than asked for only when the disk
  is full, and the content of the file, overwritten with them.
\<close>

definition wrote :: "nat \<Rightarrow> nat set \<Rightarrow> nat \<Rightarrow> byte list \<Rightarrow> 'a kfs_scheme \<Rightarrow> int \<times> 'a kfs_scheme \<Rightarrow> bool" where
  "wrote i R off xs s = (\<lambda>(r, s'). \<exists>k\<le>length xs. r = int k \<and> (k < length xs \<longrightarrow> disk_full i R s') \<and> file_step i R s s' \<and> file_ok s' i \<and>
     content s' i = overwrite (content s i) off (take k xs) \<and>
     (\<forall>j. off \<le> j \<and> j < off + k \<longrightarrow> fblk s' i (j div BSIZE) \<in> set (log_lh s')))"

lemma written_content:
  assumes "file_ok s i" "off \<le> fsz s i" "off + length xs \<le> MAXFILE * BSIZE" "file_step i R s t" "written i off xs s t"
    and u: "file_step i R t u" "fblk u i = fblk t i" "\<And>b. b \<noteq> iblk t i \<Longrightarrow> bview u b = bview t b"
    and z: "fsz u i = max (fsz s i) (off + length xs)"
  shows "file_ok u i" "content u i = overwrite (content s i) off xs"
    "\<forall>j. off \<le> j \<and> j < off + length xs \<longrightarrow> fblk u i (j div BSIZE) \<in> set (log_lh u)"
proof -
  note d = file_stepD [OF assms(4)] and e = file_stepD [OF u(1)] and w = writtenD [OF assms(5)]
  have f: "fsz s i \<le> MAXFILE * BSIZE" "\<And>k. k < fsz s i \<Longrightarrow> fblk s i (k div BSIZE) \<noteq> 0" using assms(1) by (auto simp: file_ok_def)
  have nz: "fblk t i (k div BSIZE) \<noteq> 0" if "k < fsz u i" for k
  proof (cases "k < fsz s i")
    case True
    then show ?thesis using d(7) f(2) by metis
  next
    case False
    then show ?thesis using that assms(2) z by (intro w(1)) auto
  qed
  have fb: "fbyte u i k = fbyte t i k" if "fblk t i (k div BSIZE) \<noteq> 0" for k
    using u(3) fmap_okD(4) [OF d(4) takenI(1) [OF that]] by (simp add: fbyte_def u(2))
  show "file_ok u i" using e(2,4) f(1) assms(3) z nz by (simp add: file_ok_def u(2))
  show "content u i = overwrite (content s i) off xs"
  proof (rule nth_equalityI)
    show "length (content u i) = length (overwrite (content s i) off xs)" using assms(2) z by (simp add: length_overwrite)
    fix k assume "k < length (content u i)"
    then have k: "k < fsz u i" by simp
    then have "content u i ! k = fbyte t i k" using fb [OF nz [OF k]] by (simp add: nth_content)
    also have "\<dots> = (if off \<le> k \<and> k < off + length xs then xs ! (k - off) else content s i ! k)"
      using w(3,4) [of k] f(2) [of k] k z assms(2) by (auto simp: nth_content)
    finally show "content u i ! k = overwrite (content s i) off xs ! k" using assms(2) z k by (simp add: nth_overwrite)
  qed
  show "\<forall>j. off \<le> j \<and> j < off + length xs \<longrightarrow> fblk u i (j div BSIZE) \<in> set (log_lh u)" using w(2) e(12) by (auto simp: u(2))
qed

lemma MAXFILE_bytes: "MAXFILE * BSIZE < 2 ^ 31"
  by (simp add: param_defs)

lemma writei_try:
  assumes "file_ok s i" "in_op s" "finite R" "R \<subseteq> {..<MAXFILE}" "src_ok src (unat n)" "unat off \<le> fsz s i"
    "unat off + unat n \<le> MAXFILE * BSIZE" "\<forall>k. unat off \<le> k \<and> k < unat off + unat n \<longrightarrow> k div BSIZE \<in> R"
  shows "tries (fbudget s i R) (wrote i R (unat off) (src_list src (unat n) (mem s)) s) (writei i src off n s)"
proof -
  let ?xs = "src_list src (unat n) (mem s)"
  have g: "geom s" "fmap_ok s i" using assms(1) by (simp_all add: file_ok_def)
  have un: "unat (off + n) = unat off + unat n" using assms(7) MAXFILE_bytes by (simp add: unat_word_ariths)
  have lx: "length ?xs = unat n" using assms(5) src_split(4) [of src "unat n" 0] by simp
  have c: "\<not> (off > i_size (itable s i) \<or> off + n < off)" "\<not> unat (off + n) > MAXFILE * BSIZE"
    using assms(6,7) un by (auto simp: fsz_def word_less_nat_alt word_le_nat_alt)
  have wl: "tries (fbudget s i R) (writes i R src (unat off) (unat n) 0 s) (writei_loop i src (unat off) (unat n) 0 s)"
    using assms(5,8) by (intro writei_loop_try [OF g(1) assms(2) g(2) assms(3,4)]) simp_all
  show ?thesis
    unfolding writei_def if_not_P [OF c(1)] if_not_P [OF c(2)]
  proof (rule tries_bnd [OF wl])
    fix x assume x: "writes i R src (unat off) (unat n) 0 s x"
    obtain tot o' t where p: "x = ((tot, o'), t)" by (cases x) auto
    from x have r: "o' = unat off + tot" "tot \<le> unat n" "tot < unat n \<longrightarrow> disk_full i R t" "file_step i R s t"
      "written i (unat off) (take tot ?xs) s t" by (auto simp: p writes_def)
    note d = file_stepD [OF r(4)]
    have lt: "length (take tot ?xs) = tot" using r(2) lx by simp
    have sz: "i_size (itable t i) = i_size (itable s i)" by (rule writtenD(5) [OF r(5)])
    define z where "z = (if o' > unat (i_size (itable t i)) then of_nat o' else i_size (itable t i))"
    have ob: "o' < 2 ^ 31" using r(1,2) assms(7) MAXFILE_bytes by linarith
    have "unat (of_nat o' :: uint) = o'" using ob by (simp add: unat_of_nat)
    then have uz: "unat z = max (fsz s i) (unat off + tot)" unfolding z_def sz fsz_def by (simp add: r(1) [symmetric])
    have s2: "(if o' > unat (i_size (itable t i)) then upd_inode i (\<lambda>x. x\<lparr>i_size := of_nat o'\<rparr>) t else t) = with_size i z t"
      using with_size_same [of i t] by (simp add: z_def with_size_def)
    have iu: "tries (fbudget s i R) (\<lambda>u. file_step i R t u \<and> fblk u i = fblk t i \<and> ind u i = ind t i \<and> i_size (itable u i) = z \<and>
        (\<forall>b. b \<noteq> iblk t i \<longrightarrow> bview u b = bview t b)) (iupdate i (with_size i z t))"
      by (rule tries_mono [OF iupdate_try [OF d(2-4)] _ d(9)])
    have "tries (fbudget s i R) (wrote i R (unat off) ?xs s) (bnd (iupdate i (with_size i z t)) (\<lambda>s3. Ok (int tot, s3)))"
    proof (rule tries_bnd [OF iu])
      fix u assume u: "file_step i R t u \<and> fblk u i = fblk t i \<and> ind u i = ind t i \<and> i_size (itable u i) = z \<and> (\<forall>b. b \<noteq> iblk t i \<longrightarrow> bview u b = bview t b)"
      have fz: "fsz u i = max (fsz s i) (unat off + length (take tot ?xs))" using u uz lt by (simp add: fsz_def)
      have "unat off + length (take tot ?xs) \<le> MAXFILE * BSIZE" using lt r(2) assms(7) by simp
      from written_content [OF assms(1,6) this r(4,5) _ _ _ fz] u
      have "file_ok u i" "content u i = overwrite (content s i) (unat off) (take tot ?xs)"
        "\<forall>j. unat off \<le> j \<and> j < unat off + tot \<longrightarrow> fblk u i (j div BSIZE) \<in> set (log_lh u)" using lt by auto
      moreover have "disk_full i R u" if "disk_full i R t" using that u file_stepD(11) [of i R t u] by (auto simp: disk_full_def missing_def)
      ultimately show "tries (fbudget s i R) (wrote i R (unat off) ?xs s) (Ok (int tot, u))"
        using r(2,3) lx file_step_trans [OF r(4)] u by (auto simp: wrote_def intro!: exI [of _ tot])
    qed simp
    then show "tries (fbudget s i R) (wrote i R (unat off) ?xs s) (case x of (x, xa) \<Rightarrow> (case x of (tot, off') \<Rightarrow> \<lambda>s1.
        let s2 = if off' > unat (i_size (itable s1 i)) then upd_inode i (\<lambda>x. x\<lparr>i_size := of_nat off'\<rparr>) s1 else s1
        in bnd (iupdate i s2) (\<lambda>s3. Ok (int tot, s3))) xa)"
      by (simp only: p prod.case Let_def s2)
  qed simp
qed

section \<open>\<^verbatim>\<open>readi\<close>\<close>

lemma bmap_present:
  assumes "fblk s i n \<noteq> 0"
  shows "bmap i n s = Ok (fblk s i n, s)"
proof (cases "n < NDIRECT")
  case True
  then show ?thesis using assms by (simp add: bmap_def fblk_def)
next
  case False
  then have m: "n < MAXFILE" "ind s i \<noteq> 0" using assms by (auto simp: fblk_def split: if_splits)
  then have "n - NDIRECT < NINDIRECT" using False unfolding MAXFILE_def by arith
  then show ?thesis using False m assms unfolding bmap_def Let_def by (simp add: fblk_def ind_def)
qed

text \<open>Destinations in the kernel, and the memory after the bytes have been delivered there.\<close>

fun dst_ok :: "dst \<Rightarrow> nat \<Rightarrow> bool" where
  "dst_ok (UserDst a) n = False"
| "dst_ok (MemDst a) n = (unat a + n < 2 ^ 64)"
| "dst_ok StackDst n = True"

fun delivered :: "dst \<Rightarrow> byte list \<Rightarrow> bytes \<Rightarrow> bytes" where
  "delivered (UserDst a) xs m = m"
| "delivered (MemDst a) xs m = putl m (unat a) xs"
| "delivered StackDst xs m = m"

lemma dst_split:
  assumes "dst_ok dst (length xs + n)"
  shows "either_copyout dst xs s = Ok (0, s\<lparr>mem := delivered dst xs (mem s)\<rparr>)" "dst_ok (dst_add dst (length xs)) n"
    "delivered (dst_add dst (length xs)) ys (delivered dst xs b) = delivered dst (xs @ ys) b"
proof -
  have u: "unat (a + of_nat (length xs)) = unat a + length xs" if "unat a + (length xs + n) < 2 ^ 64" for a :: uint64
    using that by (simp add: unat_word_ariths unat_of_nat)
  show "either_copyout dst xs s = Ok (0, s\<lparr>mem := delivered dst xs (mem s)\<rparr>)" using assms by (cases dst) simp_all
  show "dst_ok (dst_add dst (length xs)) n" using assms u by (cases dst) (auto simp: add.assoc)
  show "delivered (dst_add dst (length xs)) ys (delivered dst xs b) = delivered dst (xs @ ys) b"
    using assms u by (cases dst) (auto simp: putl_append)
qed

definition fbytes :: "'a kfs_scheme \<Rightarrow> nat \<Rightarrow> nat \<Rightarrow> nat \<Rightarrow> byte list" where
  "fbytes s i off n = map (\<lambda>k. fbyte s i (off + k)) [0..<n]"

lemma length_fbytes [simp]: "length (fbytes s i off n) = n"
  by (simp add: fbytes_def)

lemma fbytes_add: "fbytes s i off (m + n) = fbytes s i off m @ fbytes s i (off + m) n"
  by (rule nth_equalityI) (auto simp: fbytes_def nth_append)

lemma fbytes_mem [simp]: "fbytes (s\<lparr>mem := m\<rparr>) i off n = fbytes s i off n" "fblk (s\<lparr>mem := m\<rparr>) i = fblk s i"
  by (simp_all add: fbytes_def fbyte_def fblk_def ind_def fun_eq_iff)

lemma fbytes_chunk:
  assumes "off mod BSIZE + m \<le> BSIZE"
  shows "getl (bview s (fblk s i (off div BSIZE))) (off mod BSIZE) m = fbytes s i off m"
proof (rule nth_equalityI)
  fix j assume "j < length (getl (bview s (fblk s i (off div BSIZE))) (off mod BSIZE) m)"
  then have j: "j < m" by simp
  have "off + j = BSIZE * (off div BSIZE) + (off mod BSIZE + j)" by simp
  moreover have "off mod BSIZE + j < BSIZE" using j assms by simp
  ultimately have "(off + j) div BSIZE = off div BSIZE" "(off + j) mod BSIZE = off mod BSIZE + j"
    by (metis div_mult_self4 div_less add_0_right less_nat_zero_code, metis mod_mult_self4 mod_less)
  then show "getl (bview s (fblk s i (off div BSIZE))) (off mod BSIZE) m ! j = fbytes s i off m ! j" using j by (simp add: fbytes_def fbyte_def)
qed (simp add: fbytes_def)

lemma readi_loop_ok:
  assumes "\<forall>k. off \<le> k \<and> k < off + (n - tot) \<longrightarrow> fblk s i (k div BSIZE) \<noteq> 0" "tot \<le> n" "dst_ok dst (n - tot)"
  shows "readi_loop i dst off n tot acc s =
    Ok ((int n, acc @ fbytes s i off (n - tot)), s\<lparr>mem := delivered dst (fbytes s i off (n - tot)) (mem s)\<rparr>)"
  using assms
proof (induction "n - tot" arbitrary: dst off tot acc s rule: less_induct)
  case less
  show ?case
  proof (cases "tot < n")
    case False
    have "delivered dst [] (mem s) = mem s" by (cases dst) simp_all
    then show ?thesis using False less.prems(2) by (subst readi_loop.simps) (simp add: fbytes_def)
  next
    case True
    define m where "m = min (n - tot) (BSIZE - off mod BSIZE)"
    have B: "off mod BSIZE < BSIZE" by (simp add: param_defs)
    have m: "0 < m" "tot + m \<le> n" "off mod BSIZE + m \<le> BSIZE" using True B by (auto simp: m_def min_def)
    let ?xs = "fbytes s i off m" let ?t = "s\<lparr>mem := delivered dst ?xs (mem s)\<rparr>"
    have nt: "n - tot = m + (n - (tot + m))" using m(2) by simp
    have "dst_ok dst (length ?xs + (n - (tot + m)))" using less.prems(3) nt by (simp add: fbytes_def)
    note ds = dst_split [OF this]
    have nz: "fblk s i (off div BSIZE) \<noteq> 0" using less.prems(1) True by auto
    have "readi_loop i dst off n tot acc s = readi_loop i (dst_add dst m) (off + m) n (tot + m) (acc @ ?xs) ?t"
      using True nz ds(1) [of s] fbytes_chunk [OF m(3), of s i]
      by (subst readi_loop.simps) (simp add: bmap_present m_def [symmetric] Let_def)
    also have "\<dots> = Ok ((int n, (acc @ ?xs) @ fbytes ?t i (off + m) (n - (tot + m))),
        ?t\<lparr>mem := delivered (dst_add dst m) (fbytes ?t i (off + m) (n - (tot + m))) (mem ?t)\<rparr>)"
    proof (rule less.hyps)
      show "n - (tot + m) < n - tot" using m True by simp
      show "\<forall>k. off + m \<le> k \<and> k < off + m + (n - (tot + m)) \<longrightarrow> fblk ?t i (k div BSIZE) \<noteq> 0" using less.prems(1) m(2) by auto
      show "dst_ok (dst_add dst m) (n - (tot + m))" using ds(2) by (simp add: fbytes_def)
    qed (rule m(2))
    finally show ?thesis using ds(3) [of "fbytes s i (off + m) (n - (tot + m))" "mem s"] nt fbytes_add [of s i off m "n - (tot + m)"]
      by simp
  qed
qed

lemma readi_ok:
  assumes "file_ok s i" "unat off + unat n \<le> fsz s i" "dst_ok dst (unat n)"
  shows "readi i dst off n s = Ok ((int (unat n), take (unat n) (drop (unat off) (content s i))),
    s\<lparr>mem := delivered dst (take (unat n) (drop (unat off) (content s i))) (mem s)\<rparr>)"
proof -
  have nz: "\<forall>k<fsz s i. fblk s i (k div BSIZE) \<noteq> 0" using assms(1) by (simp add: file_ok_def)
  have un: "unat (off + n) = unat off + unat n"
    using assms(2) unsigned_less [of "i_size (itable s i)", where ?'a = nat] by (simp add: unat_word_ariths fsz_def)
  have c: "\<not> (off > i_size (itable s i) \<or> off + n < off)" "\<not> off + n > i_size (itable s i)"
    using assms(2) un by (auto simp: fsz_def word_less_nat_alt word_le_nat_alt)
  have x: "fbytes s i (unat off) (unat n) = take (unat n) (drop (unat off) (content s i))"
    using assms(2) by (intro nth_equalityI) (simp_all add: fbytes_def nth_content)
  have "readi_loop i dst (unat off) (unat n) 0 [] s = Ok ((int (unat n), [] @ fbytes s i (unat off) (unat n - 0)),
      s\<lparr>mem := delivered dst (fbytes s i (unat off) (unat n - 0)) (mem s)\<rparr>)"
    using assms(2,3) nz by (intro readi_loop_ok) auto
  then show ?thesis unfolding readi_def Let_def if_not_P [OF c(1)] if_not_P [OF c(2)] x by (simp add: x)
qed

section \<open>Files are byte arrays\<close>

text \<open>The blocks of a file that hold the bytes from \<open>off\<close> on.\<close>

definition blocks :: "nat \<Rightarrow> nat \<Rightarrow> nat set" where
  "blocks off n = (\<lambda>k. k div BSIZE) ` {off..<off + n}"

lemma blocks_bound:
  assumes "off + n \<le> MAXFILE * BSIZE"
  shows "blocks off n \<subseteq> {..<MAXFILE}"
proof
  fix j assume "j \<in> blocks off n"
  then obtain k where "j = k div BSIZE" "k < MAXFILE * BSIZE" using assms by (auto simp: blocks_def)
  then show "j \<in> {..<MAXFILE}" by (simp add: less_mult_imp_div_less)
qed

lemma not_full:
  assumes "file_step i R s s'" "missing s i R \<le> card (free_blocks s)"
  shows "\<not> disk_full i R s'" "missing s' i R \<le> card (free_blocks s')"
  using file_stepD(10) [OF assms(1)] assms(2) by (auto simp: disk_full_def)

text \<open>
  C9. \<^verbatim>\<open>writei\<close> from kernel memory at an offset within the file, on a file in good order and in a transaction with
  room for the blocks it touches, returns the number of bytes written, which is all of them when the disk has
  the blocks that are missing.  The file is then in good order, its content is the old one overwritten with
  these bytes, and \<^verbatim>\<open>readi\<close> gives them back.  No block in use outside the file changes, except the bitmap and
  the block of the inode.
\<close>

theorem writei_overwrites_file:
  assumes "file_ok s i" "in_op s" "src_ok src (unat n)" "unat off \<le> fsz s i" "unat off + unat n \<le> MAXFILE * BSIZE"
    "fbudget s i (blocks (unat off) (unat n)) < LOGBLOCKS"
  shows "\<exists>k s'. writei i src off n s = Ok (int k, s') \<and> k \<le> unat n \<and>
    (missing s i (blocks (unat off) (unat n)) \<le> card (free_blocks s) \<longrightarrow> k = unat n) \<and> file_ok s' i \<and>
    content s' i = overwrite (content s i) (unat off) (take k (src_list src (unat n) (mem s))) \<and>
    (\<forall>b. unat b < fssize s \<and> used s b \<and> b \<notin> bitmap s \<and> b \<notin> taken s i \<and> b \<noteq> iblk s i \<longrightarrow> used s' b \<and> bview s' b = bview s b) \<and>
    readi i StackDst off (of_nat k) s' = Ok ((int k, take k (src_list src (unat n) (mem s))), s')"
proof -
  let ?R = "blocks (unat off) (unat n)" and ?xs = "src_list src (unat n) (mem s)"
  have lx: "length ?xs = unat n" using assms(3) src_split(4) [of src "unat n" 0] by simp
  have "tries (fbudget s i ?R) (wrote i ?R (unat off) ?xs s) (writei i src off n s)"
    using blocks_bound [OF assms(5)] by (intro writei_try [OF assms(1,2) _ _ assms(3-5)]) (auto simp: blocks_def)
  then obtain k s' where w: "writei i src off n s = Ok (int k, s')" "k \<le> unat n" "k < unat n \<longrightarrow> disk_full i ?R s'" "file_step i ?R s s'"
    "file_ok s' i" "content s' i = overwrite (content s i) (unat off) (take k ?xs)"
    using assms(6) lx by (auto simp: tries_def wrote_def)
  have k: "k = unat n" if "missing s i ?R \<le> card (free_blocks s)" using not_full(1) [OF w(4) that] w(2,3) by auto
  have lt: "length (take k ?xs) = k" using w(2) lx by simp
  have fz: "unat off + k \<le> fsz s' i"
    using arg_cong [OF w(6), of length] assms(4) lt by (simp add: length_overwrite)
  have uk: "unat (of_nat k :: uint) = k" using fz unsigned_less [of "i_size (itable s' i)", where ?'a = nat] by (simp add: unat_of_nat fsz_def)
  have "take k (drop (unat off) (content s' i)) = take k ?xs"
    using assms(4) lt unfolding w(6) overwrite_def by simp
  then have "readi i StackDst off (of_nat k) s' = Ok ((int k, take k ?xs), s')"
    using readi_ok [OF w(5), of off "of_nat k" StackDst] fz uk by simp
  then show ?thesis using w k file_stepD(5,6) [OF w(4)] by blast
qed

text \<open>
  A file system of 200 blocks, of which the first 50 are used: boot block, super block, 31 blocks of the log, the
  inodes in block 33, the bitmap in block 34 and other files; and an empty file.
\<close>

definition ex_inode :: inode where
  "ex_inode = \<lparr>i_dev = 1, i_inum = 1, i_ref = 1, i_lock = initsleeplock, i_valid = True, i_type = T_FILE, i_major = 0, i_minor = 0,
     i_nlink = 1, i_size = 0, i_addrs = (\<lambda>_. 0)\<rparr>"

definition ex_bits :: bytes where
  "ex_bits k = (if k < 6 then 0xff else if k = 6 then 3 else 0)"

definition ex_kfs :: kfs where
  "ex_kfs = klog.extend (kproc.extend ex_kproc (klog.fields (\<lambda>_ _. 0) ((\<lambda>_ _. 0)(34 := ex_bits)) [] 2 1 False 1 []))
     (kfs.fields \<lparr>sb_magic = FSMAGIC, sb_size = 200, sb_nblocks = 165, sb_ninodes = 16, sb_nlog = 31, sb_logstart = 2, sb_inodestart = 33, sb_bmapstart = 34\<rparr> (\<lambda>_. ex_inode))"

lemma ex_kfs_simps [simp]:
  "bview ex_kfs = (\<lambda>_ _. 0)(34 := ex_bits)" "log_lh ex_kfs = []" "log_outstanding ex_kfs = 1"
  "itable ex_kfs = (\<lambda>_. ex_inode)" "fssize ex_kfs = 200" "sb_bmapstart (sb ex_kfs) = 34" "iblk ex_kfs i = 33" "ind ex_kfs i = 0" "fblk ex_kfs i n = 0"
  "fsz ex_kfs i = 0" "mem ex_kfs = ex_mem" "freelist ex_kfs = 0x87ff1000" "kend ex_kfs = 0x87ff0000"
  by (simp_all add: ex_kfs_def klog.defs kproc.defs kfs.defs fssize_def iblk_def IBLOCK_def ex_inode_def ind_def fblk_def fsz_def param_defs
      ex_kproc_def boot_kproc_def)

lemma ex_bits_used: "list_all (\<lambda>n. (ex_bits (n div 8) AND push_bit (n mod 8) 1 \<noteq> 0) = (n < 50)) [0..<200]"
  by code_simp

lemma ex_used:
  assumes "unat b < 200"
  shows "used ex_kfs b \<longleftrightarrow> unat b < 50" "BBLOCK b ex_kfs = 34"
proof -
  have "b div 8192 = 0" using assms by (simp add: word_arith_nat_div unat_div)
  then show B: "BBLOCK b ex_kfs = 34" by (simp add: BBLOCK_def param_defs)
  have m: "unat b mod BPB = unat b" using assms by (simp add: param_defs)
  have "unat b \<in> set [0..<200]" using assms by simp
  with ex_bits_used have "(ex_bits (unat b div 8) AND push_bit (unat b mod 8) 1 \<noteq> 0) = (unat b < 50)"
    unfolding list_all_iff by blast
  then show "used ex_kfs b \<longleftrightarrow> unat b < 50" unfolding used_def B m ex_kfs_simps(1) by (simp only: fun_upd_same)
qed

lemma ex_file_ok: "geom ex_kfs" "file_ok ex_kfs i" "in_op ex_kfs" "bitmap ex_kfs = {34}"
proof -
  show b: "bitmap ex_kfs = {34}" using ex_used(2) by (auto simp: bitmap_def intro!: exI [of _ 0])
  show g: "geom ex_kfs" using ex_used(1) [of 0] ex_used(1) [of 34] by (simp add: geom_def b BPB_def BSIZE_def)
  have "taken ex_kfs i = {}" by (auto simp: taken_def)
  then have "fmap_ok ex_kfs i" using ex_used(1) [of 33] by (simp add: fmap_ok_def b)
  then show "file_ok ex_kfs i" using g by (simp add: file_ok_def)
  show "in_op ex_kfs" by (simp add: in_op_def)
qed

lemma ex_free: "100 \<le> card (free_blocks ex_kfs)"
proof -
  let ?B = "(of_nat :: nat \<Rightarrow> uint) ` {50..<150}"
  have u: "unat (of_nat k :: uint) = k" if "k < 150" for k using that by (simp add: unat_of_nat)
  have "inj_on (of_nat :: nat \<Rightarrow> uint) {50..<150}" using u by (intro inj_on_inverseI [of _ unat]) simp
  then have "card ?B = 100" by (simp add: card_image)
  moreover have "?B \<subseteq> free_blocks ex_kfs" using u ex_used(1) by (auto simp: free_blocks_def)
  ultimately show ?thesis using card_mono [of "free_blocks ex_kfs" ?B] by simp
qed

lemma ex_budget: "fbudget ex_kfs i R \<le> 3 + card R" "missing ex_kfs i R \<le> 1 + card R"
proof -
  have "footprint ex_kfs i R = {33, 34}" by (auto simp: footprint_def ex_file_ok(4))
  then show "fbudget ex_kfs i R \<le> 3 + card R" by (simp add: fbudget_def missing_def)
  show "missing ex_kfs i R \<le> 1 + card R" by (simp add: missing_def)
qed

text \<open>Witness for C9: two bytes are written to the empty file.\<close>

theorem writei_overwrites_file_witness:
  "\<exists>s'. writei 0 (StackSrc [7, 9]) 0 2 ex_kfs = Ok (2, s') \<and> content s' 0 = [7, 9] \<and> readi 0 StackDst 0 2 s' = Ok ((2, [7, 9]), s')"
proof -
  have b: "blocks 0 2 = {0}" by (auto simp: blocks_def param_defs image_iff intro!: bexI [of _ 0])
  have "content ex_kfs 0 = []" by (simp add: content_def)
  then show ?thesis
    using writei_overwrites_file [OF ex_file_ok(2,3), of "StackSrc [7, 9]" 2 0 0] ex_budget [of 0 "{0}"] ex_free
    by (auto simp: b MAXFILE_bytes overwrite_def param_defs)
qed

end
