(* ===== verification/Memframe.thy ===== *)
theory Memframe
  imports Pagetable
begin

unbundle bit_operations_syntax

text \<open>
  What the memory routines leave alone: none of them changes anything of the kernel's state but
  memory and the free list.  The rest of the development uses this to carry facts about processes,
  files and locks across allocation, mapping and copying.
\<close>

lemma kalloc_memonly: "kalloc s = (p, s') \<Longrightarrow> memonly s s'"
  by (auto simp: kalloc_def Let_def split: if_splits)

lemma memonly_two: "memonly s (s\<lparr>mem := m, freelist := f\<rparr>)"
  by (auto simp: memonly_def)

lemma memonly_mem: "memonly s s1 \<Longrightarrow> memonly s (s1\<lparr>mem := m\<rparr>)"
  by (erule memonly_trans) (rule memonly_upd)

lemma kfree_memonly: "kfree p s = Ok s' \<Longrightarrow> memonly s s'"
  by (auto simp: kfree_def Let_def split: if_splits intro: memonly_two)

lemma walk_loop_memonly: "walk_loop l pt va alloc s = (pte, s') \<Longrightarrow> memonly s s'"
proof (induction l pt va alloc s arbitrary: pte s' rule: walk_loop.induct)
  case (2 l pt va alloc s)
  let ?pte = "pt + 8 * PX (Suc l) va"
  obtain pg s1 where k: "kalloc s = (pg, s1)" by (cases "kalloc s")
  show ?case
  proof (cases "rd64 (mem s) (unat ?pte) AND PTE_V \<noteq> 0 \<or> \<not> alloc \<or> pg = 0")
    case True
    then show ?thesis using 2 kalloc_memonly [OF k] by (auto simp: k Let_def split: if_splits)
  next
    case False
    let ?m = "wr64 (memset (mem s1) (unat pg) 0 PGSIZE) (unat ?pte) (PA2PTE pg OR PTE_V)"
    have "memonly (s1\<lparr>mem := ?m\<rparr>) s'"
      by (rule 2(2) [OF refl refl _ _ k [symmetric] refl _ refl refl]) (use False 2(3) in \<open>auto simp: k Let_def\<close>)
    then show ?thesis using memonly_mem [OF kalloc_memonly [OF k]] memonly_trans by blast
  qed
qed simp

lemma walk_memonly: "walk pt va alloc s = Ok (pte, s') \<Longrightarrow> memonly s s'"
  by (auto simp: walk_def split: if_splits dest: walk_loop_memonly)

lemma walk_gives: "memonly s0 s \<Longrightarrow> gives (\<lambda>x. memonly s0 (snd x)) (walk pt va alloc s)"
  using walk_memonly memonly_trans by (fastforce simp: gives_def)

lemma kfree_gives: "memonly s0 s \<Longrightarrow> gives (memonly s0) (kfree p s)"
  using kfree_memonly memonly_trans by (fastforce simp: gives_def)

lemma kalloc_trans: "memonly s0 s \<Longrightarrow> kalloc s = (p, s') \<Longrightarrow> memonly s0 s'"
  using kalloc_memonly memonly_trans by blast

lemma mappages_loop_gives: "memonly s0 s \<Longrightarrow> gives (\<lambda>x. memonly s0 (snd x)) (mappages_loop pt a fin pa perm s)"
proof (induction pt a fin pa perm s rule: mappages_loop.induct)
  case (1 pt a fin pa perm s)
  show ?case
    by (subst mappages_loop.simps, rule gives_bnd [OF walk_gives [OF 1(2)]])
      (auto simp: Let_def memonly_mem intro!: 1(1))
qed

lemma mappages_gives: "memonly s0 s \<Longrightarrow> gives (\<lambda>x. memonly s0 (snd x)) (mappages pt va sz pa perm s)"
  by (simp add: mappages_def mappages_loop_gives)

lemma uvmunmap_loop_gives: "memonly s0 s \<Longrightarrow> gives (memonly s0) (uvmunmap_loop pt a lim d s)"
proof (induction pt a lim d s rule: uvmunmap_loop.induct)
  case (1 pt a lim d s)
  show ?case
  proof (cases "a < lim")
    case True
    have "gives (memonly s0) (let e = rd64 (mem s) (unat pte) in
          if pte = 0 \<or> e AND PTE_V = 0 then uvmunmap_loop pt (a + 4096) lim d s
          else if PTE_FLAGS e = PTE_V then Panic ''uvmunmap: not a leaf''
          else bnd (if d then kfree (PTE2PA e) s else Ok s) (\<lambda>s1.
                 uvmunmap_loop pt (a + 4096) lim d (s1\<lparr>mem := wr64 (mem s1) (unat pte) 0\<rparr>)))"
      if w: "walk pt a False s = Ok (pte, s')" for pte s'
    proof -
      have k: "gives (memonly s0) (if d then kfree e s else Ok s)" for e by (simp add: kfree_gives [OF 1(3)] 1(3))
      show ?thesis
        using 1(1) [OF True w refl refl _ 1(3)] gives_bnd [OF k 1(2) [OF True w refl refl]] by (auto simp: Let_def memonly_mem)
    qed
    then show ?thesis
      by (subst uvmunmap_loop.simps) (simp add: True, rule gives_bnd [OF walk_gives [OF 1(3)]], auto)
  qed (use 1(3) in \<open>simp add: uvmunmap_loop.simps\<close>)
qed

lemma uvmunmap_gives: "memonly s0 s \<Longrightarrow> gives (memonly s0) (uvmunmap pt va n d s)"
  by (simp add: uvmunmap_def uvmunmap_loop_gives)

lemma uvmdealloc_gives: "memonly s0 s \<Longrightarrow> gives (\<lambda>x. memonly s0 (snd x)) (uvmdealloc pt old new s)"
  by (auto simp: uvmdealloc_def Let_def intro!: gives_bnd [OF uvmunmap_gives])

lemma uvmalloc_loop_gives: "memonly s0 s \<Longrightarrow> gives (\<lambda>x. memonly s0 (snd x)) (uvmalloc_loop pt a old new x s)"
proof (induction pt a old new x s rule: uvmalloc_loop.induct)
  case (1 pt a old new x s)
  obtain pg s1 where k: "kalloc s = (pg, s1)" by (cases "kalloc s")
  note m = kalloc_trans [OF 1(2) k]
  have "gives (\<lambda>x. memonly s0 (snd x)) (if r \<noteq> 0 then bnd (kfree pg s2) (\<lambda>s3. bnd (uvmdealloc pt a old s3) (\<lambda>(_, s4). Ok (0, s4)))
               else uvmalloc_loop pt (a + 4096) old new x s2)"
    if "mappages pt a 4096 pg (PTE_R OR PTE_U OR x) s1 = Ok (r, s2)" "memonly s0 s2" "a < new" "pg \<noteq> 0" for r s2
    using that 1(1) [OF that(3) k [symmetric] refl that(4,1) refl] by (auto intro!: gives_bnd [OF kfree_gives] gives_bnd [OF uvmdealloc_gives])
  then show ?case
    by (subst uvmalloc_loop.simps) (auto simp: k 1(2) intro!: gives_bnd [OF uvmdealloc_gives [OF m]] gives_bnd [OF mappages_gives [OF m]])
qed

lemma uvmalloc_gives: "memonly s0 s \<Longrightarrow> gives (\<lambda>x. memonly s0 (snd x)) (uvmalloc pt old new x s)"
  by (simp add: uvmalloc_def uvmalloc_loop_gives)

lemma freewalk_from_gives: "memonly s0 s \<Longrightarrow> gives (memonly s0) (freewalk_from n pt k s)"
proof (induction n pt k s rule: freewalk_from.induct)
  case (1 n pt s)
  then show ?case by (simp add: kfree_gives)
next
  case (2 n pt k s)
  show ?case
  proof (cases n)
    case 0
    then show ?thesis using 2 by (auto simp: Let_def)
  next
    case (Suc n')
    then show ?thesis using 2 by (auto simp: Let_def memonly_mem intro!: gives_bnd [where Q = "memonly s0"])
  qed
qed

lemma uvmfree_gives: "memonly s0 s \<Longrightarrow> gives (memonly s0) (uvmfree pt sz s)"
  by (auto simp: uvmfree_def freewalk_def uvmunmap_gives intro!: gives_bnd [where Q = "memonly s0"] freewalk_from_gives)

lemma uvmcopy_err_gives: "memonly s0 s \<Longrightarrow> gives (\<lambda>x. memonly s0 (snd x)) (uvmcopy_err pt i s)"
  by (auto simp: uvmcopy_err_def intro!: gives_bnd [OF uvmunmap_gives])

lemma uvmcopy_loop_gives: "memonly s0 s \<Longrightarrow> gives (\<lambda>x. memonly s0 (snd x)) (uvmcopy_loop old new i sz s)"
proof (induction old new i sz s rule: uvmcopy_loop.induct)
  case (1 old new i sz s)
  obtain pg s1 where k: "kalloc s = (pg, s1)" by (cases "kalloc s")
  note m = kalloc_trans [OF 1(3) k]
  show ?case
  proof (cases "i < sz")
    case True
    have "gives (\<lambda>x. memonly s0 (snd x)) (let e = rd64 (mem s) (unat pte) in
          if pte = 0 \<or> e AND PTE_V = 0 then uvmcopy_loop old new (i + 4096) sz s
          else let (pg, s1) = kalloc s in
               if pg = 0 then uvmcopy_err new i s1
               else let s2 = s1\<lparr>mem := memmove (mem s1) (unat pg) (unat (PTE2PA e)) PGSIZE\<rparr> in
                    bnd (mappages new i 4096 pg (PTE_FLAGS e) s2) (\<lambda>(r, s3).
                      if r \<noteq> 0 then bnd (kfree pg s3) (uvmcopy_err new i)
                      else uvmcopy_loop old new (i + 4096) sz s3))"
      if w: "walk old i False s = Ok (pte, s')" for pte s'
      using 1(1) [OF True w refl refl _ 1(3)] 1(2) [OF True w refl refl _ k [symmetric] refl _ refl _ refl]
      by (auto simp: Let_def k memonly_mem [OF m] intro!: uvmcopy_err_gives [OF m] gives_bnd [OF mappages_gives] gives_bnd [OF kfree_gives] uvmcopy_err_gives)
    then show ?thesis
      by (subst uvmcopy_loop.simps) (simp only: True if_True, rule gives_bnd [OF walk_gives [OF 1(3)]], auto)
  qed (use 1(3) in \<open>simp add: uvmcopy_loop.simps\<close>)
qed

lemma uvmcopy_gives: "memonly s0 s \<Longrightarrow> gives (\<lambda>x. memonly s0 (snd x)) (uvmcopy old new sz s)"
  by (simp add: uvmcopy_def uvmcopy_loop_gives)

lemma uvmcreate_trans: "memonly s0 s \<Longrightarrow> uvmcreate s = (pt, s') \<Longrightarrow> memonly s0 s'"
  by (auto simp: uvmcreate_def memonly_mem split: prod.splits if_splits dest: kalloc_trans)

section \<open>User memory\<close>

lemma vmfault_gives: "memonly s0 s \<Longrightarrow> gives (\<lambda>x. memonly s0 (snd x)) (vmfault pt va s)"
proof -
  assume m: "memonly s0 s"
  obtain pg s1 where k: "kalloc s = (pg, s1)" by (cases "kalloc s")
  note m1 = kalloc_trans [OF m k]
  show ?thesis unfolding vmfault_def
    by (rule gives_bnd [where Q = "\<lambda>_. True"])
      (auto simp: gives_def [of "\<lambda>_. True"] Let_def k m m1 memonly_mem [OF m1]
        intro!: gives_bnd [where Q = "\<lambda>_. True"] gives_bnd [OF mappages_gives [OF memonly_mem [OF m1]]] gives_bnd [OF kfree_gives])
qed

lemma user_page_gives: "memonly s0 s \<Longrightarrow> gives (\<lambda>x. memonly s0 (snd x)) (user_page pt va s)"
  by (simp add: user_page_def Let_def vmfault_gives)

lemma copyout_gives: "memonly s0 s \<Longrightarrow> gives (\<lambda>x. memonly s0 (snd x)) (copyout pt d src s)"
proof (induction pt d src s rule: copyout.induct)
  case (1 pt d src s)
  let ?va = "PGROUNDDOWN d"
  let ?n = "min (PGSIZE - unat (d - ?va)) (length src)"
  have "gives (\<lambda>x. memonly s0 (snd x))
      (copyout pt (?va + 4096) (drop ?n src) (s1\<lparr>mem := putl (mem s1) (unat (pa + (d - ?va))) (take ?n src)\<rparr>))"
    if "user_page pt ?va s = Ok (pa, s1)" "memonly s0 s1" "0 < length src" "\<not> MAXVA \<le> ?va" "pa \<noteq> 0"
      "walk pt ?va False s1 = Ok (pte, s2)" "pte \<noteq> 0" "\<not> rd64 (mem s1) (unat pte) AND PTE_W = 0" for pa s1 pte s2
    by (rule 1(1) [OF that(3) refl that(4) that(1) refl that(5,6) refl that(7,8) refl refl]) (rule memonly_mem [OF that(2)])
  then show ?case
    by (subst copyout.simps)
      (auto simp: Let_def 1(2) intro!: gives_bnd [OF user_page_gives [OF 1(2)]] gives_bnd [OF walk_gives])
qed

lemma copyin_gives: "memonly s0 s \<Longrightarrow> gives (\<lambda>x. memonly s0 (snd x)) (copyin pt d n s)"
proof (induction pt d n s rule: copyin.induct)
  case (1 pt d n s)
  have "gives (\<lambda>x. memonly s0 (snd x)) (bnd (copyin pt (PGROUNDDOWN d + 4096) (n - m) s1) (\<lambda>((ys, ok), s2). Ok ((xs @ ys, ok), s2)))"
    if "user_page pt (PGROUNDDOWN d) s = Ok (pa, s1)" "memonly s0 s1" "0 < n" "pa \<noteq> 0" "m = min (PGSIZE - unat (d - PGROUNDDOWN d)) n" for pa s1 xs m
    by (rule gives_bnd [OF 1(1) [OF that(3) refl that(1) refl that(4) that(5) refl that(2)]]) auto
  then show ?case
    by (subst copyin.simps) (auto simp: Let_def 1(2) intro!: gives_bnd [OF user_page_gives [OF 1(2)]])
qed

end
