(* ===== verification/Proctab.thy ===== *)
theory Proctab
  imports Proc Memframe
begin

text \<open>
  The process table as the operations of \<^verbatim>\<open>kernel/proc.c\<close> leave it: the effect of a critical section of
  one process lock, the scans of the table, and what allocation, \<^verbatim>\<open>fork\<close>, \<^verbatim>\<open>wait\<close> and \<^verbatim>\<open>kill\<close> do to every
  process.  The machine is \<open>quiet\<close> when no lock of the table is held, as it is when a system call begins.
\<close>

section \<open>Critical sections\<close>

definition cpu_ok :: "cpu \<Rightarrow> bool" where
  "cpu_ok c \<longleftrightarrow> 0 \<le> noff c \<and> (0 < noff c \<longrightarrow> \<not> sie c)"

text \<open>A balanced \<^verbatim>\<open>push_off\<close> and \<^verbatim>\<open>pop_off\<close> leave the interrupt flag where it was and may refresh \<open>intena\<close>.\<close>

definition settled :: "cpu \<Rightarrow> cpu" where
  "settled c = c\<lparr>intena := (if noff c = 0 then sie c else intena c)\<rparr>"

lemma settled_simps [simp]: "noff (settled c) = noff c" "sie (settled c) = sie c" "settled (settled c) = settled c"
  "cpu_ok (settled c) = cpu_ok c"
  by (simp_all add: settled_def cpu_ok_def)

lemma pop_push_settled: "cpu_ok c \<Longrightarrow> pop_off (push_off c) = Ok (settled c)"
  by (cases c) (auto simp: pop_off_def push_off_def settled_def cpu_ok_def Let_def)

lemma push_off_settled [simp]: "push_off (settled c) = push_off c"
  by (cases c) (auto simp: push_off_def settled_def Let_def)

lemma cpu_ok_push [simp]: "cpu_ok c \<Longrightarrow> cpu_ok (push_off c)"
  by (auto simp: cpu_ok_def)

definition held :: "nat \<Rightarrow> spinlock" where
  "held h = \<lparr>locked = True, lkcpu = Some h\<rparr>"

definition quiet :: "'a kproc_scheme \<Rightarrow> bool" where
  "quiet s \<longleftrightarrow> (\<forall>i<NPROC. p_lock (procs s i) = initlock) \<and> wait_lock s = initlock \<and> cpu_ok (thiscpu s)"

text \<open>The state inside the critical section of process \<open>i\<close>, and after it.\<close>

definition enter :: "nat \<Rightarrow> 'a kproc_scheme \<Rightarrow> 'a kproc_scheme" where
  "enter i s = s\<lparr>thiscpu := push_off (thiscpu s), procs := (procs s)(i := (procs s i)\<lparr>p_lock := held (hart s)\<rparr>)\<rparr>"

definition leave :: "nat \<Rightarrow> cpu \<Rightarrow> 'a kproc_scheme \<Rightarrow> 'a kproc_scheme" where
  "leave i c s = s\<lparr>thiscpu := settled c, procs := (procs s)(i := (procs s i)\<lparr>p_lock := initlock\<rparr>)\<rparr>"

lemma acquire_enter: "p_lock (procs s i) = initlock \<Longrightarrow> acquire_proc i s = Ok (enter i s)"
  by (simp add: acquire_proc_def acquire_def initlock_def holding_def enter_def held_def upd_proc_def Let_def)

lemma release_leave:
  "p_lock (procs s i) = held (hart s) \<Longrightarrow> thiscpu s = push_off c \<Longrightarrow> cpu_ok c \<Longrightarrow> release_proc i s = Ok (leave i c s)"
  by (simp add: release_proc_def release_def holding_def held_def pop_push_settled leave_def upd_proc_def initlock_def)

lemma acquire_wait_ok: "wait_lock s = initlock \<Longrightarrow> acquire_wait s = Ok (s\<lparr>wait_lock := held (hart s), thiscpu := push_off (thiscpu s)\<rparr>)"
  by (simp add: acquire_wait_def acquire_def initlock_def holding_def held_def Let_def)

lemma release_wait_ok:
  "wait_lock s = held (hart s) \<Longrightarrow> thiscpu s = push_off c \<Longrightarrow> cpu_ok c \<Longrightarrow> release_wait s = Ok (s\<lparr>wait_lock := initlock, thiscpu := settled c\<rparr>)"
  by (simp add: release_wait_def release_def holding_def held_def pop_push_settled initlock_def)

definition settle :: "'a kproc_scheme \<Rightarrow> 'a kproc_scheme" where
  "settle s = s\<lparr>thiscpu := settled (thiscpu s)\<rparr>"

lemma settle_simps [simp]: "procs (settle s) = procs s" "quiet (settle s) = quiet s" "settle (settle s) = settle s"
  "hart (settle s) = hart s" "cpu_proc (settle s) = cpu_proc s" "thiscpu (settle s) = settled (thiscpu s)"
  by (simp_all add: settle_def quiet_def)

text \<open>A section that looks and changes nothing, and one that updates the process.\<close>

lemma look:
  assumes "p_lock (procs s i) = initlock" "cpu_ok (thiscpu s)"
  shows "release_proc i (enter i s) = Ok (settle s)"
proof -
  have "procs (leave i (thiscpu s) (enter i s)) = procs s" using assms(1) by (auto simp: leave_def enter_def)
  moreover have "release_proc i (enter i s) = Ok (leave i (thiscpu s) (enter i s))"
    by (rule release_leave) (use assms in \<open>auto simp: enter_def\<close>)
  ultimately show ?thesis by (simp add: leave_def enter_def settle_def)
qed

lemma section_update:
  assumes "p_lock (procs s i) = initlock" "cpu_ok (thiscpu s)" "\<And>p l. g (p\<lparr>p_lock := l\<rparr>) = (g p)\<lparr>p_lock := l\<rparr>" "\<And>p. p_lock (g p) = p_lock p"
  shows "release_proc i (upd_proc i g (enter i s)) = Ok (upd_proc i g (settle s))"
proof -
  have "(g (procs s i))\<lparr>p_lock := initlock\<rparr> = g (procs s i)" using assms(1) assms(4) [of "procs s i"]
    by (cases "g (procs s i)") simp
  moreover have "release_proc i (upd_proc i g (enter i s)) = Ok (leave i (thiscpu s) (upd_proc i g (enter i s)))"
    by (rule release_leave) (use assms in \<open>auto simp: enter_def upd_proc_def\<close>)
  ultimately show ?thesis by (simp add: leave_def enter_def settle_def upd_proc_def assms(3))
qed

lemma enter_simps [simp]:
  "p_pid (procs (enter i s) j) = p_pid (procs s j)" "p_state (procs (enter i s) j) = p_state (procs s j)"
  "p_parent (procs (enter i s) j) = p_parent (procs s j)" "p_chan (procs (enter i s) j) = p_chan (procs s j)"
  "p_killed (procs (enter i s) j) = p_killed (procs s j)" "p_lock (procs (enter i s) i) = held (hart s)"
  "hart (enter i s) = hart s" "cpu_proc (enter i s) = cpu_proc s" "thiscpu (enter i s) = push_off (thiscpu s)"
  "mem (enter i s) = mem s" "freelist (enter i s) = freelist s" "nextpid (enter i s) = nextpid s"
  "wait_lock (enter i s) = wait_lock s" "initproc (enter i s) = initproc s" "ksym (enter i s) = ksym s" "kend (enter i s) = kend s"
  by (simp_all add: enter_def)

lemma enter_settle [simp]: "enter i (settle s) = enter i s"
  by (simp add: enter_def settle_def)

lemma acquire_settle: "p_lock (procs s i) = initlock \<Longrightarrow> acquire_proc i s = acquire_proc i (settle s)"
  by (simp add: acquire_enter)

lemma NPROC_upt: "[0..<NPROC] = 0 # [1..<NPROC]"
  by (simp add: NPROC_def upt_rec)

lemma quiet_lock: "quiet s \<Longrightarrow> i < NPROC \<Longrightarrow> p_lock (procs s i) = initlock"
  by (simp add: quiet_def)

lemma quiet_cpu: "quiet s \<Longrightarrow> cpu_ok (thiscpu s)"
  by (simp add: quiet_def)

section \<open>Scans of the table\<close>

definition kill1 :: "proc \<Rightarrow> proc" where
  "kill1 x = x\<lparr>p_killed := True, p_state := (if p_state x = SLEEPING then RUNNABLE else p_state x)\<rparr>"

lemma kkill_loop_find:
  assumes "quiet s" "set ps \<subseteq> {..<NPROC}"
  shows "kkill_loop ps pid (settle s) =
    (case find (\<lambda>i. p_pid (procs s i) = pid) ps of
       None \<Rightarrow> Ok (-1, settle s) | Some i \<Rightarrow> Ok (0, upd_proc i kill1 (settle s)))"
  using assms(2)
proof (induction ps)
  case (Cons i ps)
  then have l: "p_lock (procs (settle s) i) = initlock" and c: "cpu_ok (thiscpu (settle s))"
    using assms(1) by (simp_all add: quiet_def)
  have u: "release_proc i (upd_proc i kill1 (enter i (settle s))) = Ok (upd_proc i kill1 (settle (settle s)))"
    by (rule section_update [OF l c]) (simp_all add: kill1_def)
  show ?case using Cons u look [OF l c] by (simp add: acquire_enter [OF l] kill1_def [abs_def])
qed simp

lemma allocproc_scan_find:
  assumes "quiet s" "set ps \<subseteq> {..<NPROC}"
  shows "allocproc_scan ps (settle s) =
    (case find (\<lambda>i. p_state (procs s i) = UNUSED) ps of
       None \<Rightarrow> Ok (None, settle s) | Some i \<Rightarrow> Ok (Some i, enter i s))"
  using assms(2)
proof (induction ps)
  case (Cons i ps)
  then have l: "p_lock (procs (settle s) i) = initlock" and c: "cpu_ok (thiscpu (settle s))"
    using assms(1) by (simp_all add: quiet_def)
  show ?case using Cons look [OF l c] by (simp add: acquire_enter [OF l])
qed simp

lemma allocproc_scan_quiet:
  assumes "quiet s"
  shows "allocproc_scan [0..<NPROC] s =
    (case find (\<lambda>i. p_state (procs s i) = UNUSED) [0..<NPROC] of
       None \<Rightarrow> Ok (None, settle s) | Some i \<Rightarrow> Ok (Some i, enter i s))"
proof -
  have "allocproc_scan [0..<NPROC] s = allocproc_scan [0..<NPROC] (settle s)"
    unfolding NPROC_upt allocproc_scan.simps using assms acquire_settle [of s 0] by (simp add: quiet_lock NPROC_def)
  then show ?thesis using allocproc_scan_find [OF assms, of "[0..<NPROC]"] by (simp add: subset_eq)
qed

lemma kkill_quiet:
  assumes "quiet s"
  shows "kkill pid s =
    (case find (\<lambda>i. p_pid (procs s i) = pid) [0..<NPROC] of
       None \<Rightarrow> Ok (-1, settle s) | Some i \<Rightarrow> Ok (0, upd_proc i kill1 (settle s)))"
proof -
  have "kkill_loop [0..<NPROC] pid s = kkill_loop [0..<NPROC] pid (settle s)"
    unfolding NPROC_upt kkill_loop.simps using assms acquire_settle [of s 0] by (simp add: quiet_lock NPROC_def)
  then show ?thesis using kkill_loop_find [OF assms, of "[0..<NPROC]"] by (simp add: kkill_def subset_eq)
qed

section \<open>Freeing and allocating a process\<close>

lemma proc_freepagetable_gives: "memonly s0 s \<Longrightarrow> gives (memonly s0) (proc_freepagetable pt sz s)"
  unfolding proc_freepagetable_def
  by (rule gives_bnd [OF uvmunmap_gives], assumption) (rule gives_bnd [OF uvmunmap_gives], assumption, rule uvmfree_gives)

lemma proc_pagetable_gives:
  assumes "memonly s0 s"
  shows "gives (\<lambda>x. memonly s0 (snd x)) (proc_pagetable p s)"
proof -
  obtain pt s1 where u: "uvmcreate s = (pt, s1)" by (cases "uvmcreate s")
  note m = uvmcreate_trans [OF assms u]
  show ?thesis
    by (auto simp: proc_pagetable_def u m intro!: gives_bnd [OF mappages_gives [OF m]] gives_bnd [OF mappages_gives]
        gives_bnd [OF uvmfree_gives] gives_bnd [OF uvmunmap_gives])
qed

definition freed :: "proc \<Rightarrow> proc" where
  "freed x = x\<lparr>p_trapframe := 0, p_pagetable := 0, p_sz := 0, p_pid := 0, p_parent := None,
     p_name := (p_name x)(0 := 0), p_chan := NoChan, p_killed := False, p_xstate := 0, p_state := UNUSED\<rparr>"

lemma memonly_proc: "memonly s s' \<Longrightarrow> procs s' = procs s"
  by (auto simp: memonly_def)

lemma freeproc_Ok:
  assumes "freeproc p s = Ok s'"
  shows "\<exists>m f. s' = upd_proc p freed (s\<lparr>mem := m, freelist := f\<rparr>)"
proof -
  obtain s1 where s1: "(if p_trapframe (procs s p) \<noteq> 0 then kfree (p_trapframe (procs s p)) s else Ok s) = Ok s1"
    using assms unfolding freeproc_def by (rule bnd_eq_OkE)
  then have "memonly s s1" using kfree_memonly [of "p_trapframe (procs s p)" s s1] by (auto split: if_splits)
  then obtain m1 f1 where e1: "s1 = s\<lparr>mem := m1, freelist := f1\<rparr>" by (auto simp: memonly_def)
  define s2 where "s2 = upd_proc p (p_trapframe_update (\<lambda>_. 0)) s1"
  let ?g = "\<lambda>x. x\<lparr>p_pagetable := 0, p_sz := 0, p_pid := 0, p_parent := None,
               p_name := (p_name x)(0 := 0), p_chan := NoChan, p_killed := False, p_xstate := 0, p_state := UNUSED\<rparr>"
  have "bnd (if p_pagetable (procs s2 p) \<noteq> 0 then proc_freepagetable (p_pagetable (procs s2 p)) (p_sz (procs s2 p)) s2 else Ok s2)
      (\<lambda>s3. Ok (upd_proc p ?g s3)) = Ok s'"
    using assms unfolding freeproc_def s1 bnd.simps Let_def s2_def .
  then obtain s3 where s3: "(if p_pagetable (procs s2 p) \<noteq> 0
            then proc_freepagetable (p_pagetable (procs s2 p)) (p_sz (procs s2 p)) s2 else Ok s2) = Ok s3"
    and r: "Ok (upd_proc p ?g s3) = Ok s'"
    by (rule bnd_eq_OkE)
  have "memonly s2 s3" using s3 givesD [OF proc_freepagetable_gives [OF memonly_refl]] by (auto split: if_splits)
  then obtain m f where e3: "s3 = s2\<lparr>mem := m, freelist := f\<rparr>" by (auto simp: memonly_def)
  have "s' = upd_proc p freed (s\<lparr>mem := m, freelist := f\<rparr>)"
    using r by (simp add: e3 s2_def e1 upd_proc_def freed_def)
  then show ?thesis by blast
qed

text \<open>The slot that \<^verbatim>\<open>allocproc\<close> hands out, in the state it is returned in.\<close>

definition new_slot :: "nat \<Rightarrow> int \<Rightarrow> uint64 \<Rightarrow> uint64 \<Rightarrow> uint64 \<Rightarrow> proc \<Rightarrow> proc" where
  "new_slot h pid tf pt fr x = x\<lparr>p_lock := held h, p_pid := pid, p_state := USED, p_trapframe := tf, p_pagetable := pt,
     p_context := zero_context\<lparr>c_ra := fr, c_sp := p_kstack x + of_nat PGSIZE\<rparr>\<rparr>"

lemma allocproc_fail_Ok:
  assumes "allocproc_fail p s = Ok (r, s')" "p_lock (procs s p) = held (hart s)" "thiscpu s = push_off c" "cpu_ok c"
  shows "r = None \<and> (\<exists>m f. s' = leave p c (upd_proc p freed (s\<lparr>mem := m, freelist := f\<rparr>)))"
proof -
  obtain s1 where s1: "freeproc p s = Ok s1" using assms(1) unfolding allocproc_fail_def by (rule bnd_eq_OkE)
  obtain m f where e: "s1 = upd_proc p freed (s\<lparr>mem := m, freelist := f\<rparr>)" using freeproc_Ok [OF s1] by blast
  have "release_proc p s1 = Ok (leave p c s1)" by (rule release_leave) (use assms in \<open>auto simp: e freed_def\<close>)
  then show ?thesis using assms(1) e by (auto simp: allocproc_fail_def s1)
qed

lemma kalloc_fst: "kalloc s = (p, s') \<Longrightarrow> p = freelist s"
  by (auto simp: kalloc_def Let_def split: if_splits)

lemma allocproc_Ok:
  assumes "quiet s" "allocproc s = Ok (found, s')" "find (\<lambda>i. p_state (procs s i) = UNUSED) [0..<NPROC] = Some p"
  shows "(\<exists>m f pt. found = Some p \<and> freelist s \<noteq> 0 \<and> pt \<noteq> 0 \<and>
      s' = upd_proc p (new_slot (hart s) (nextpid s) (freelist s) pt (sym_forkret (ksym s)))
             (s\<lparr>mem := m, freelist := f, nextpid := nextpid s + 1, thiscpu := push_off (thiscpu s)\<rparr>)) \<or>
    (\<exists>m f. found = None \<and>
      s' = upd_proc p freed (s\<lparr>mem := m, freelist := f, nextpid := nextpid s + 1, thiscpu := settled (thiscpu s)\<rparr>))"
proof -
  have p: "p < NPROC" "p_lock (procs s p) = initlock" using assms(1,3) by (auto simp: find_upt_Some quiet_def)
  let ?e = "(enter p s)\<lparr>nextpid := nextpid s + 1\<rparr>"
  define s3 where "s3 = upd_proc p (\<lambda>x. x\<lparr>p_pid := nextpid s, p_state := USED\<rparr>) ?e"
  obtain tf s4 where k: "kalloc s3 = (tf, s4)" by (cases "kalloc s3")
  have tf: "tf = freelist s" using kalloc_fst [OF k] by (simp add: s3_def)
  obtain m4 f4 where e4: "s4 = s3\<lparr>mem := m4, freelist := f4\<rparr>" using kalloc_memonly [OF k] by (auto simp: memonly_def)
  define s5 where "s5 = upd_proc p (p_trapframe_update (\<lambda>_. tf)) s4"
  have a: "(if tf = 0 then allocproc_fail p s5
        else bnd (proc_pagetable p s5) (\<lambda>(pt, s6).
          let s7 = upd_proc p (p_pagetable_update (\<lambda>_. pt)) s6 in
          if pt = 0 then allocproc_fail p s7
          else Ok (Some p, upd_proc p (\<lambda>x. x\<lparr>p_context := zero_context\<lparr>c_ra := sym_forkret (ksym s7),
                                              c_sp := p_kstack x + of_nat PGSIZE\<rparr>\<rparr>) s7))) = Ok (found, s')"
    using assms(2) k unfolding allocproc_def allocproc_scan_quiet [OF assms(1)] assms(3)
    by (cases "tf = 0") (simp_all add: allocpid_def Let_def s3_def s5_def)
  have fail: "found = None \<and> (\<exists>m f. s' = upd_proc p freed (s\<lparr>mem := m, freelist := f, nextpid := nextpid s + 1, thiscpu := settled (thiscpu s)\<rparr>))"
    if "allocproc_fail p t = Ok (found, s')" "t = upd_proc p (\<lambda>x. x\<lparr>p_pagetable := pt\<rparr>) (s5\<lparr>mem := m, freelist := f\<rparr>) \<or> t = s5" for t pt m f
  proof -
    have "p_lock (procs t p) = held (hart t)" "thiscpu t = push_off (thiscpu s)"
      using that(2) by (auto simp: s5_def e4 s3_def)
    from allocproc_fail_Ok [OF that(1) this quiet_cpu [OF assms(1)]] obtain m' f' where
      r: "found = None" "s' = leave p (thiscpu s) (upd_proc p freed (t\<lparr>mem := m', freelist := f'\<rparr>))" by blast
    have "s' = upd_proc p freed (s\<lparr>mem := m', freelist := f', nextpid := nextpid s + 1, thiscpu := settled (thiscpu s)\<rparr>)"
      using that(2) p(2) by (cases "procs s p") (auto simp: r s5_def e4 s3_def leave_def enter_def upd_proc_def freed_def)
    with r show ?thesis by blast
  qed
  show ?thesis
  proof (cases "tf = 0")
    case True
    then show ?thesis using a fail [of s5] by auto
  next
    case False
    then obtain pt s6 where pt: "proc_pagetable p s5 = Ok (pt, s6)" using a by (auto elim: bnd_eq_OkE)
    from givesD [OF proc_pagetable_gives [OF memonly_refl] pt] obtain m6 f6 where e6: "s6 = s5\<lparr>mem := m6, freelist := f6\<rparr>"
      by (auto simp: memonly_def)
    show ?thesis
    proof (cases "pt = 0")
      case True
      then show ?thesis using a False pt fail [where t = "upd_proc p (p_pagetable_update (\<lambda>_. pt)) s6" and pt = pt and m = m6 and f = f6] by (auto simp: e6)
    next
      case pt0: False
      then have "s' = upd_proc p (new_slot (hart s) (nextpid s) (freelist s) pt (sym_forkret (ksym s)))
             (s\<lparr>mem := m6, freelist := f6, nextpid := nextpid s + 1, thiscpu := push_off (thiscpu s)\<rparr>)" "found = Some p"
        using a False pt by (auto simp: e6 s5_def e4 s3_def enter_def upd_proc_def new_slot_def tf Let_def)
      then show ?thesis using False tf pt0 by blast
    qed
  qed
qed

lemma allocproc_full:
  "quiet s \<Longrightarrow> find (\<lambda>i. p_state (procs s i) = UNUSED) [0..<NPROC] = None \<Longrightarrow> allocproc s = Ok (None, settle s)"
  by (simp add: allocproc_def allocproc_scan_quiet)

section \<open>Sharing the open files\<close>

definition opens :: "(nat \<Rightarrow> nat option) \<Rightarrow> nat list \<Rightarrow> nat \<Rightarrow> int" where
  "opens fs is f = int (length (filter (\<lambda>i. fs i = Some f) is))"

definition share :: "(nat \<Rightarrow> nat option) \<Rightarrow> nat list \<Rightarrow> (nat \<Rightarrow> filerec) \<Rightarrow> nat \<Rightarrow> filerec" where
  "share fs is ft f = (ft f)\<lparr>f_ref := f_ref (ft f) + opens fs is f\<rparr>"

definition inherit :: "(nat \<Rightarrow> nat option) \<Rightarrow> nat list \<Rightarrow> proc \<Rightarrow> proc" where
  "inherit fs is x = x\<lparr>p_ofile := (\<lambda>i. if i \<in> set is \<and> fs i \<noteq> None then fs i else p_ofile x i)\<rparr>"

lemma share_Nil [simp]: "share fs [] ft = ft"
  by (simp add: share_def opens_def fun_eq_iff)

lemma share_None: "fs i = None \<Longrightarrow> share fs (i # is) = share fs is"
  by (simp add: share_def opens_def fun_eq_iff)

lemma share_Some: "fs i = Some f \<Longrightarrow> share fs (i # is) ft = share fs is (ft(f := (ft f)\<lparr>f_ref := f_ref (ft f) + 1\<rparr>))"
  by (auto simp: share_def opens_def fun_eq_iff)

lemma inherit_Nil [simp]: "inherit fs [] x = x"
  by (simp add: inherit_def)

lemma inherit_None: "fs i = None \<Longrightarrow> inherit fs (i # is) x = inherit fs is x"
  by (auto simp: inherit_def fun_eq_iff intro!: proc.fold_congs)

lemma inherit_Some: "fs i = Some f \<Longrightarrow> inherit fs (i # is) x = inherit fs is (x\<lparr>p_ofile := (p_ofile x)(i := Some f)\<rparr>)"
  by (auto simp: inherit_def fun_eq_iff intro!: proc.fold_congs)

lemma ofile_upd: "p_ofile_update (\<lambda>fs. fs(i := y)) = (\<lambda>x. x\<lparr>p_ofile := (p_ofile x)(i := y)\<rparr>)"
proof (rule ext)
  fix x :: "'a proc_scheme"
  show "p_ofile_update (\<lambda>fs. fs(i := y)) x = x\<lparr>p_ofile := (p_ofile x)(i := y)\<rparr>" by (cases x) simp
qed

lemma dup_ofiles_Ok:
  assumes "p \<noteq> np" "dup_ofiles is p np s = Ok s'"
  shows "s' = upd_proc np (inherit (p_ofile (procs s p)) is) (s\<lparr>ftable := share (p_ofile (procs s p)) is (ftable s)\<rparr>)"
  using assms(2)
proof (induction "is" arbitrary: s)
  case Nil
  then show ?case by (simp add: upd_proc_def)
next
  case (Cons i "is")
  show ?case
  proof (cases "p_ofile (procs s p) i")
    case None
    then show ?thesis using Cons by (simp add: share_None inherit_None upd_proc_def)
  next
    case (Some f)
    define t where "t = upd_proc np (\<lambda>x. x\<lparr>p_ofile := (p_ofile x)(i := Some f)\<rparr>) (upd_file f (f_ref_update (\<lambda>r. r + 1)) s)"
    have "dup_ofiles is p np t = Ok s'"
      using Cons.prems Some by (simp add: filedup_def t_def ofile_upd split: if_splits)
    note ih = Cons.IH [OF this]
    have o: "p_ofile (procs t p) = p_ofile (procs s p)" using assms(1) by (simp add: t_def upd_file_def)
    have r: "f_ref_update (\<lambda>r. r + 1) (ftable s f) = (ftable s f)\<lparr>f_ref := f_ref (ftable s f) + 1\<rparr>" by (cases "ftable s f") simp
    have f: "share (p_ofile (procs s p)) (i # is) (ftable s) = share (p_ofile (procs s p)) is (ftable t)"
    proof -
      have "ftable t = (ftable s)(f := (ftable s f)\<lparr>f_ref := f_ref (ftable s f) + 1\<rparr>)" by (simp add: t_def upd_proc_def upd_file_def r)
      then show ?thesis by (simp only: share_Some [where fs = "p_ofile (procs s p)", OF Some])
    qed
    have q: "inherit (p_ofile (procs s p)) (i # is) (procs s np) = inherit (p_ofile (procs s p)) is (procs t np)"
      using inherit_Some [where fs = "p_ofile (procs s p)", OF Some] by (simp add: t_def upd_file_def)
    have "upd_proc np (inherit (p_ofile (procs s p)) (i # is)) (s\<lparr>ftable := ft\<rparr>) = upd_proc np (inherit (p_ofile (procs s p)) is) (t\<lparr>ftable := ft\<rparr>)" for ft
      using q by (simp add: upd_proc_def) (simp add: t_def upd_proc_def upd_file_def)
    then show ?thesis unfolding ih o f by simp
  qed
qed

section \<open>fork\<close>

text \<open>The child of \<open>x\<close>, the parent \<open>p\<close> being in slot \<open>i\<close>.\<close>

definition child :: "nat \<Rightarrow> proc \<Rightarrow> int \<Rightarrow> uint64 \<Rightarrow> uint64 \<Rightarrow> uint64 \<Rightarrow> proc \<Rightarrow> proc" where
  "child i p pid tf pt fr x =
     x\<lparr>p_pid := pid, p_trapframe := tf, p_pagetable := pt,
       p_context := zero_context\<lparr>c_ra := fr, c_sp := p_kstack x + of_nat PGSIZE\<rparr>, p_sz := p_sz p,
       p_ofile := (\<lambda>i. if i < NOFILE \<and> p_ofile p i \<noteq> None then p_ofile p i else p_ofile x i),
       p_cwd := p_cwd p, p_name := safestrcpy (p_name x) 0 (p_name p) 16, p_lock := initlock, p_parent := Some i,
       p_state := RUNNABLE\<rparr>"

definition fork_regs :: "bytes \<Rightarrow> nat \<Rightarrow> nat \<Rightarrow> bytes" where
  "fork_regs m ntf tf = wr64 (putl m ntf (getl m tf TF_SIZE)) (ntf + TF_a0) 0"

lemma kfork_tail:
  assumes "p_lock (procs s np) = held (hart s)" "thiscpu s = push_off c" "cpu_ok c" "wait_lock s = initlock"
  shows "bnd (release_proc np s) (\<lambda>s7. bnd (acquire_wait s7) (\<lambda>s8.
      bnd (release_wait (upd_proc np (p_parent_update (\<lambda>_. Some p)) s8)) (\<lambda>s9.
      bnd (acquire_proc np s9) (\<lambda>s10.
      bnd (release_proc np (upd_proc np (p_state_update (\<lambda>_. RUNNABLE)) s10)) (\<lambda>s11. Ok (pid, s11)))))) =
    Ok (pid, upd_proc np (\<lambda>x. x\<lparr>p_lock := initlock, p_parent := Some p, p_state := RUNNABLE\<rparr>) (s\<lparr>thiscpu := settled c\<rparr>))"
proof -
  define s7 where "s7 = leave np c s"
  have r7: "release_proc np s = Ok s7" unfolding s7_def by (rule release_leave) (use assms in auto)
  define s8 where "s8 = s7\<lparr>wait_lock := held (hart s7), thiscpu := push_off (thiscpu s7)\<rparr>"
  have r8: "acquire_wait s7 = Ok s8" unfolding s8_def by (rule acquire_wait_ok) (simp add: s7_def leave_def assms)
  define s9 where "s9 = (upd_proc np (p_parent_update (\<lambda>_. Some p)) s8)\<lparr>wait_lock := initlock, thiscpu := settled c\<rparr>"
  have r9: "release_wait (upd_proc np (p_parent_update (\<lambda>_. Some p)) s8) = Ok s9"
    unfolding s9_def by (rule release_wait_ok) (use assms in \<open>simp_all add: s8_def s7_def leave_def\<close>)
  have l9: "p_lock (procs s9 np) = initlock" "cpu_ok (thiscpu s9)" by (simp_all add: s9_def s8_def s7_def leave_def assms)
  have r11: "release_proc np (upd_proc np (p_state_update (\<lambda>_. RUNNABLE)) (enter np s9)) = Ok (upd_proc np (p_state_update (\<lambda>_. RUNNABLE)) (settle s9))"
    by (rule section_update [OF l9]) simp_all
  have "upd_proc np (p_state_update (\<lambda>_. RUNNABLE)) (settle s9) =
      upd_proc np (\<lambda>x. x\<lparr>p_lock := initlock, p_parent := Some p, p_state := RUNNABLE\<rparr>) (s\<lparr>thiscpu := settled c\<rparr>)"
    by (simp add: s9_def s8_def s7_def leave_def settle_def upd_proc_def assms)
  then show ?thesis by (simp add: r7 r8 r9 r11 acquire_enter [OF l9(1)])
qed

lemma inherit_simps [simp]:
  "p_name (inherit fs is x) = p_name x" "p_lock (inherit fs is x) = p_lock x" "p_pid (inherit fs is x) = p_pid x"
  by (simp_all add: inherit_def)

lemma kfork_finish:
  assumes "p \<noteq> np" "p_lock (procs s np) = held (hart s)" "thiscpu s = push_off c" "cpu_ok c" "wait_lock s = initlock"
    and k: "bnd (dup_ofiles [0..<NOFILE] p np s) (\<lambda>s5.
          bnd (need (p_cwd (procs s5 p))) (\<lambda>cwd.
            let s6 = upd_proc np (\<lambda>x. x\<lparr>p_cwd := Some cwd,
                       p_name := safestrcpy (p_name x) 0 (p_name (procs s5 p)) 16\<rparr>) (idup cwd s5);
                pid = p_pid (procs s6 np)
            in bnd (release_proc np s6) (\<lambda>s7.
               bnd (acquire_wait s7) (\<lambda>s8.
               bnd (release_wait (upd_proc np (p_parent_update (\<lambda>_. Some p)) s8)) (\<lambda>s9.
               bnd (acquire_proc np s9) (\<lambda>s10.
               bnd (release_proc np (upd_proc np (p_state_update (\<lambda>_. RUNNABLE)) s10)) (\<lambda>s11.
                 Ok (pid, s11)))))))) = Ok (r, s')"
  shows "\<exists>cwd. p_cwd (procs s p) = Some cwd \<and> r = p_pid (procs s np) \<and>
    s' = upd_proc np (\<lambda>x. (inherit (p_ofile (procs s p)) [0..<NOFILE] x)\<lparr>p_cwd := Some cwd,
           p_name := safestrcpy (p_name x) 0 (p_name (procs s p)) 16, p_lock := initlock, p_parent := Some p, p_state := RUNNABLE\<rparr>)
         (s\<lparr>thiscpu := settled c, ftable := share (p_ofile (procs s p)) [0..<NOFILE] (ftable s),
            itable := (itable s)(cwd := (itable s cwd)\<lparr>i_ref := i_ref (itable s cwd) + 1\<rparr>)\<rparr>)"
proof -
  obtain s5 where d: "dup_ofiles [0..<NOFILE] p np s = Ok s5" using k by (auto elim: bnd_eq_OkE)
  note s5 = dup_ofiles_Ok [OF assms(1) d]
  have p5: "procs s5 p = procs s p" using assms(1) by (simp add: s5)
  obtain cwd where cwd: "p_cwd (procs s p) = Some cwd"
    using k d p5 by (auto simp: need_def split: option.splits)
  define s6 where "s6 = upd_proc np (\<lambda>x. x\<lparr>p_cwd := Some cwd, p_name := safestrcpy (p_name x) 0 (p_name (procs s p)) 16\<rparr>) (idup cwd s5)"
  have "Ok (r, s') = Ok (p_pid (procs s6 np), upd_proc np (\<lambda>x. x\<lparr>p_lock := initlock, p_parent := Some p, p_state := RUNNABLE\<rparr>) (s6\<lparr>thiscpu := settled c\<rparr>))"
    unfolding k [symmetric] d bnd.simps p5 cwd need_def option.case Let_def s6_def [symmetric]
    by (rule kfork_tail) (use assms in \<open>simp_all add: s6_def s5 idup_def upd_inode_def\<close>)
  then show ?thesis using cwd by (simp add: s6_def s5 idup_def upd_inode_def upd_proc_def)
qed

text \<open>The two ways \<^verbatim>\<open>kfork\<close> ends: nothing but a free slot and free memory touched, or a child.\<close>

definition fork_failed :: "'a kproc_scheme \<Rightarrow> 'a kproc_scheme \<Rightarrow> bool" where
  "fork_failed s s' \<longleftrightarrow> s' = settle s \<or> (\<exists>np<NPROC. \<exists>m f x. p_state (procs s np) = UNUSED \<and>
     p_state x = UNUSED \<and> p_pid x = 0 \<and> p_lock x = initlock \<and> p_ofile x = p_ofile (procs s np) \<and>
     s' = upd_proc np (\<lambda>_. x) (s\<lparr>mem := m, freelist := f, nextpid := nextpid s + 1, thiscpu := settled (thiscpu s)\<rparr>))"

lemma fork_failedI:
  assumes "np < NPROC" "p_state (procs s np) = UNUSED" "p_state x = UNUSED" "p_pid x = 0" "p_lock x = initlock" "p_ofile x = p_ofile (procs s np)"
    "s' = upd_proc np (\<lambda>_. x) (s\<lparr>mem := m, freelist := f, nextpid := nextpid s + 1, thiscpu := settled (thiscpu s)\<rparr>)"
  shows "fork_failed s s'"
  unfolding fork_failed_def
  by (rule disjI2, rule exI [of _ np], rule conjI [OF assms(1)], rule exI [of _ m], rule exI [of _ f], rule exI [of _ x])
     (simp only: assms simp_thms)

definition forked :: "nat \<Rightarrow> nat \<Rightarrow> 'a kfile_scheme \<Rightarrow> 'a kfile_scheme \<Rightarrow> bool" where
  "forked p np s s' \<longleftrightarrow> (\<exists>m f pt cwd. pt \<noteq> 0 \<and> p_cwd (procs s p) = Some cwd \<and>
     s' = upd_proc np (child p (procs s p) (nextpid s) (freelist s) pt (sym_forkret (ksym s)))
       (s\<lparr>nextpid := nextpid s + 1, freelist := f,
          mem := fork_regs m (unat (freelist s)) (unat (p_trapframe (procs s p))), thiscpu := settled (thiscpu s),
          ftable := share (p_ofile (procs s p)) [0..<NOFILE] (ftable s),
          itable := (itable s)(cwd := (itable s cwd)\<lparr>i_ref := i_ref (itable s cwd) + 1\<rparr>)\<rparr>))"

lemma kfork_Ok:
  assumes "quiet s" "cpu_proc s = Some p" "p_state (procs s p) \<noteq> UNUSED" "kfork s = Ok (r, s')"
  shows "r = -1 \<and> fork_failed s s' \<or>
    (\<exists>np<NPROC. np \<noteq> p \<and> p_state (procs s np) = UNUSED \<and> freelist s \<noteq> 0 \<and> r = nextpid s \<and> forked p np s s')"
proof (cases "find (\<lambda>i. p_state (procs s i) = UNUSED) [0..<NPROC]")
  case None
  then show ?thesis using assms(2,4) allocproc_full [OF assms(1) None]
    by (simp add: kfork_def need_proc_def myproc_def fork_failed_def)
next
  case (Some np)
  then have np: "np < NPROC" "p_state (procs s np) = UNUSED" "np \<noteq> p" using assms(3) by (auto simp: find_upt_Some)
  obtain found s1 where a: "allocproc s = Ok (found, s1)"
    using assms(2,4) by (auto simp: kfork_def need_proc_def myproc_def elim: bnd_eq_OkE)
  note d = allocproc_Ok [OF assms(1) a Some]
  show ?thesis
  proof (cases found)
    case None
    then have "r = -1" "s' = s1" using assms(2,4) a by (auto simp: kfork_def need_proc_def myproc_def)
    moreover obtain m f where "s1 = upd_proc np freed (s\<lparr>mem := m, freelist := f, nextpid := nextpid s + 1, thiscpu := settled (thiscpu s)\<rparr>)"
      using d None by auto
    then have "fork_failed s s1"
      using quiet_lock [OF assms(1) np(1)] by (intro fork_failedI [OF np(1,2), of "freed (procs s np)"]) (simp_all add: freed_def upd_proc_def)
    ultimately show ?thesis by simp
  next
    case (Some np')
    then obtain m1 f1 pt where [simp]: "np' = np" and z: "freelist s \<noteq> 0" "pt \<noteq> 0" and
      s1: "s1 = upd_proc np (new_slot (hart s) (nextpid s) (freelist s) pt (sym_forkret (ksym s)))
             (s\<lparr>mem := m1, freelist := f1, nextpid := nextpid s + 1, thiscpu := push_off (thiscpu s)\<rparr>)"
      using d by auto
    obtain u s2 where u: "uvmcopy (p_pagetable (procs s1 p)) pt (p_sz (procs s1 p)) s1 = Ok (u, s2)"
      using assms(2,4) a Some np(3) by (auto simp: kfork_def need_proc_def myproc_def s1 new_slot_def elim: bnd_eq_OkE)
    from givesD [OF uvmcopy_gives [OF memonly_refl] this] obtain m2 f2 where s2: "s2 = s1\<lparr>mem := m2, freelist := f2\<rparr>"
      by (auto simp: memonly_def)
    note c = quiet_cpu [OF assms(1)]
    show ?thesis
    proof (cases "u < 0")
      case True
      then have k: "bnd (freeproc np s2) (\<lambda>s3. bnd (release_proc np s3) (\<lambda>s4. Ok (-1, s4))) = Ok (r, s')"
        using assms(2,4) a Some u np(3) by (simp add: kfork_def need_proc_def myproc_def s1 new_slot_def)
      then obtain s3 where s3: "freeproc np s2 = Ok s3" by (auto elim: bnd_eq_OkE)
      obtain m3 f3 where e3: "s3 = upd_proc np freed (s2\<lparr>mem := m3, freelist := f3\<rparr>)" using freeproc_Ok [OF s3] by blast
      have "release_proc np s3 = Ok (leave np (thiscpu s) s3)"
        by (rule release_leave) (use c in \<open>simp_all add: e3 s2 s1 freed_def new_slot_def\<close>)
      then have "r = -1" "s' = leave np (thiscpu s) s3" using k s3 by auto
      moreover have "fork_failed s (leave np (thiscpu s) s3)"
        by (rule fork_failedI [OF np(1,2), where x = "(freed (procs s2 np))\<lparr>p_lock := initlock\<rparr>" and m = m3 and f = f3])
          (simp_all add: leave_def e3 s2 s1 freed_def new_slot_def upd_proc_def)
      ultimately show ?thesis by simp
    next
      case False
      define s3 where "s3 = upd_proc np (p_sz_update (\<lambda>_. p_sz (procs s p))) s2"
      define s4 where "s4 = s3\<lparr>mem := fork_regs m2 (unat (freelist s)) (unat (p_trapframe (procs s p)))\<rparr>"
      have k: "bnd (dup_ofiles [0..<NOFILE] p np s4) (\<lambda>s5.
          bnd (need (p_cwd (procs s5 p))) (\<lambda>cwd.
            let s6 = upd_proc np (\<lambda>x. x\<lparr>p_cwd := Some cwd,
                       p_name := safestrcpy (p_name x) 0 (p_name (procs s5 p)) 16\<rparr>) (idup cwd s5);
                pid = p_pid (procs s6 np)
            in bnd (release_proc np s6) (\<lambda>s7.
               bnd (acquire_wait s7) (\<lambda>s8.
               bnd (release_wait (upd_proc np (p_parent_update (\<lambda>_. Some p)) s8)) (\<lambda>s9.
               bnd (acquire_proc np s9) (\<lambda>s10.
               bnd (release_proc np (upd_proc np (p_state_update (\<lambda>_. RUNNABLE)) s10)) (\<lambda>s11.
                 Ok (pid, s11)))))))) = Ok (r, s')"
        using assms(2,4) a Some u np(3) False
        by (simp add: kfork_def need_proc_def myproc_def s1 new_slot_def s2 s3_def s4_def fork_regs_def Let_def)
      obtain cwd where f: "p_cwd (procs s4 p) = Some cwd" "r = p_pid (procs s4 np)" and s':
        "s' = upd_proc np (\<lambda>x. (inherit (p_ofile (procs s4 p)) [0..<NOFILE] x)\<lparr>p_cwd := Some cwd,
           p_name := safestrcpy (p_name x) 0 (p_name (procs s4 p)) 16, p_lock := initlock, p_parent := Some p, p_state := RUNNABLE\<rparr>)
         (s4\<lparr>thiscpu := settled (thiscpu s), ftable := share (p_ofile (procs s4 p)) [0..<NOFILE] (ftable s4),
            itable := (itable s4)(cwd := (itable s4 cwd)\<lparr>i_ref := i_ref (itable s4 cwd) + 1\<rparr>)\<rparr>)"
        using kfork_finish [OF np(3) [symmetric] _ _ c _ k] assms(1) np(3)
        by (auto simp: s4_def s3_def s2 s1 new_slot_def quiet_def)
      have "forked p np s s'" unfolding forked_def
        by (rule exI [of _ m2], rule exI [of _ f2], rule exI [of _ pt], rule exI [of _ cwd])
          (use f s' z(2) np(3) in \<open>simp add: s4_def s3_def s2 s1 new_slot_def child_def inherit_def upd_proc_def cong: if_cong\<close>)
      moreover have "r = nextpid s" using f(2) by (simp add: s4_def s3_def s2 s1 new_slot_def)
      ultimately show ?thesis using np z(1) by blast
    qed
  qed
qed

section \<open>Process identifiers\<close>

definition pids_ok :: "'a kproc_scheme \<Rightarrow> bool" where
  "pids_ok s \<longleftrightarrow> 0 < nextpid s \<and>
     (\<forall>i<NPROC. p_state (procs s i) \<noteq> UNUSED \<longrightarrow> 0 < p_pid (procs s i) \<and> p_pid (procs s i) < nextpid s) \<and>
     (\<forall>i<NPROC. \<forall>j<NPROC. p_state (procs s i) \<noteq> UNUSED \<and> p_state (procs s j) \<noteq> UNUSED \<and>
        p_pid (procs s i) = p_pid (procs s j) \<longrightarrow> i = j)"

lemma pids_okD:
  assumes "pids_ok s" "i < NPROC"
  shows "p_state (procs s i) \<noteq> UNUSED \<Longrightarrow> 0 < p_pid (procs s i)" "p_state (procs s i) \<noteq> UNUSED \<Longrightarrow> p_pid (procs s i) < nextpid s"
    "j < NPROC \<Longrightarrow> p_state (procs s i) \<noteq> UNUSED \<Longrightarrow> p_state (procs s j) \<noteq> UNUSED \<Longrightarrow>
      p_pid (procs s i) = p_pid (procs s j) \<Longrightarrow> i = j"
  using assms(1) [unfolded pids_ok_def] assms(2) by (simp, simp, metis)

lemma pids_ok_settle: "pids_ok s \<Longrightarrow> pids_ok (settle s)"
  by (simp add: pids_ok_def settle_def)

lemma pids_ok_free:
  assumes "pids_ok s" "procs s' = (procs s)(np := x)" "p_state x = UNUSED" "nextpid s \<le> nextpid s'"
  shows "pids_ok s'"
proof -
  have a: "0 < nextpid s'" using assms(1,4) by (simp add: pids_ok_def)
  have b: "i \<noteq> np \<and> procs s' i = procs s i" if "p_state (procs s' i) \<noteq> UNUSED" for i
    using that assms(2,3) by (cases "i = np") simp_all
  have c: "0 < p_pid (procs s' i) \<and> p_pid (procs s' i) < nextpid s'" if "i < NPROC" "p_state (procs s' i) \<noteq> UNUSED" for i
    using b [OF that(2)] that assms(1,4) by (fastforce simp: pids_ok_def)
  have "i = j" if "i < NPROC" "j < NPROC" "p_state (procs s' i) \<noteq> UNUSED" "p_state (procs s' j) \<noteq> UNUSED"
    "p_pid (procs s' i) = p_pid (procs s' j)" for i j
    using b [OF that(3)] b [OF that(4)] that assms(1) by (simp add: pids_ok_def)
  with a c show ?thesis unfolding pids_ok_def by blast
qed

lemma pids_ok_new:
  assumes "pids_ok s" "procs s' = (procs s)(np := x)" "p_pid x = nextpid s" "nextpid s' = nextpid s + 1"
  shows "pids_ok s'"
proof -
  have "p_pid (procs s i) \<noteq> nextpid s" if "i < NPROC" "p_state (procs s i) \<noteq> UNUSED" for i
    using assms(1) that by (auto simp: pids_ok_def)
  then show ?thesis using assms by (auto simp: pids_ok_def)
qed

lemma quiet_settle_upd:
  assumes "quiet s" "procs s' = (procs s)(np := x)" "p_lock x = initlock" "wait_lock s' = wait_lock s" "thiscpu s' = settled (thiscpu s)"
  shows "quiet s'"
  using assms(1,3) unfolding quiet_def assms(2,4,5) by simp

lemma fork_failed_facts:
  assumes "fork_failed s s'" "quiet s"
  shows "quiet s'" "\<And>i. i < NPROC \<Longrightarrow> p_state (procs s i) \<noteq> UNUSED \<Longrightarrow> procs s' i = procs s i"
    "\<And>i. i < NPROC \<Longrightarrow> p_state (procs s i) = UNUSED \<Longrightarrow> p_state (procs s' i) = UNUSED" "pids_ok s \<Longrightarrow> pids_ok s'"
proof -
  have "s' = settle s \<or> (\<exists>np m f x. p_state (procs s np) = UNUSED \<and> p_state x = UNUSED \<and> p_lock x = initlock \<and>
     s' = upd_proc np (\<lambda>_. x) (s\<lparr>mem := m, freelist := f, nextpid := nextpid s + 1, thiscpu := settled (thiscpu s)\<rparr>))"
    using assms(1) unfolding fork_failed_def by blast
  then have a: "quiet s' \<and> (\<forall>i<NPROC. p_state (procs s i) \<noteq> UNUSED \<longrightarrow> procs s' i = procs s i) \<and>
    (\<forall>i<NPROC. p_state (procs s i) = UNUSED \<longrightarrow> p_state (procs s' i) = UNUSED) \<and> (pids_ok s \<longrightarrow> pids_ok s')"
  proof (elim disjE exE conjE)
    assume "s' = settle s"
    then show ?thesis using assms(2) by (simp add: pids_ok_settle)
  next
    fix np m f x
    assume u: "p_state (procs s np) = UNUSED" "p_state x = UNUSED" "p_lock x = initlock" and
      s': "s' = upd_proc np (\<lambda>_. x) (s\<lparr>mem := m, freelist := f, nextpid := nextpid s + 1, thiscpu := settled (thiscpu s)\<rparr>)"
    have "quiet s'" by (rule quiet_settle_upd [OF assms(2)]) (use u in \<open>auto simp: s'\<close>)
    moreover have "pids_ok s \<longrightarrow> pids_ok s'" using pids_ok_free [of s s' np x] u by (simp add: s')
    ultimately show ?thesis using u by (auto simp: s')
  qed
  then show "quiet s'" "\<And>i. i < NPROC \<Longrightarrow> p_state (procs s i) \<noteq> UNUSED \<Longrightarrow> procs s' i = procs s i"
    "\<And>i. i < NPROC \<Longrightarrow> p_state (procs s i) = UNUSED \<Longrightarrow> p_state (procs s' i) = UNUSED" "pids_ok s \<Longrightarrow> pids_ok s'" by auto
qed

lemma mod_apart:
  fixes a b n :: nat
  assumes "a mod n = 0" "b mod n = 0" "a \<noteq> b"
  shows "a + n \<le> b \<or> b + n \<le> a"
proof -
  obtain i j where ij: "a = n * i" "b = n * j" using assms(1,2) by (auto simp: mod_eq_0_iff_dvd elim!: dvdE)
  then consider "i < j" | "j < i" using assms(3) by (cases i j rule: linorder_cases) auto
  then show ?thesis
  proof cases
    case 1
    then have "n * Suc i \<le> n * j" by (intro mult_le_mono2) simp
    then show ?thesis using ij by simp
  next
    case 2
    then have "n * Suc j \<le> n * i" by (intro mult_le_mono2) simp
    then show ?thesis using ij by simp
  qed
qed
lemma fork_regs_copy:
  assumes "unat a mod 4096 = 0" "unat b mod 4096 = 0" "a \<noteq> b" "k < 36"
  shows "rd64 (fork_regs m (unat a) (unat b)) (unat a + 8 * k) =
    (if 8 * k = TF_a0 then 0 else rd64 (fork_regs m (unat a) (unat b)) (unat b + 8 * k))"
proof -
  have "unat a \<noteq> unat b" using assms(3) by (simp add: word_unat_eq_iff)
  then have d: "unat a + 4096 \<le> unat b \<or> unat b + 4096 \<le> unat a" by (rule mod_apart [OF assms(1,2)])
  let ?p = "putl m (unat a) (getl m (unat b) TF_SIZE)"
  have b: "rd64 (fork_regs m (unat a) (unat b)) (unat b + 8 * k) = rd64 m (unat b + 8 * k)"
  proof -
    have x: "unat a + TF_SIZE \<le> unat b + 8 * k \<or> unat b + 8 * k + 8 \<le> unat a" using d assms(4) by (auto simp: TF_SIZE_def)
    then have "unat a + TF_a0 + 8 \<le> unat b + 8 * k \<or> unat b + 8 * k + 8 \<le> unat a + TF_a0" by (auto simp: TF_defs)
    from rd64_wr64_other [OF this] show ?thesis using x by (simp add: fork_regs_def rd64_putl_other disj_commute)
  qed
  have p: "rd64 ?p (unat a + 8 * k) = rd64 m (unat b + 8 * k)"
  proof (rule rd64_cong)
    fix i assume "i < (8::nat)"
    then have "8 * k + i < length (getl m (unat b) TF_SIZE)" using assms(4) by (simp add: TF_SIZE_def)
    from putl_inside [OF this, of m "unat a"] this show "?p (unat a + 8 * k + i) = m (unat b + 8 * k + i)" by (simp add: add.assoc)
  qed
  show ?thesis
  proof (cases "8 * k = TF_a0")
    case True
    then show ?thesis by (simp add: fork_regs_def)
  next
    case False
    then have "unat a + TF_a0 + 8 \<le> unat a + 8 * k \<or> unat a + 8 * k + 8 \<le> unat a + TF_a0" by (simp add: TF_defs) presburger
    from rd64_wr64_other [OF this, of ?p 0] show ?thesis using False b p by (simp add: fork_regs_def)
  qed
qed

end
