(* ===== verification/Procalloc.thy ===== *)
theory Procalloc
  imports Proctab
begin

unbundle bit_operations_syntax

text \<open>
  Allocation of a process succeeds when there is memory: the page table that \<^verbatim>\<open>proc_pagetable\<close> builds
  takes at most five pages, so six free pages and an unused slot are enough for \<^verbatim>\<open>allocproc\<close>.
\<close>

lemma kmem_inv_kalloc:
  assumes "kmem_inv s" "0 < card (free_set s)"
  obtains x xs where "freepages s (x # xs)" "kalloc s = (x, s\<lparr>freelist := rd64 (mem s) (unat x)\<rparr>)" "x \<noteq> 0"
    "freepages (s\<lparr>freelist := rd64 (mem s) (unat x)\<rparr>) xs" "card (free_set s) = Suc (length xs)"
proof -
  obtain ys where ys: "freepages s ys" using assms(1) by (auto simp: kmem_inv_def)
  moreover from this have "free_set s = set ys" by (rule free_set_eq)
  ultimately obtain x xs where x: "ys = x # xs" using assms(2) by (cases ys) auto
  have "x \<noteq> 0" using ys unfolding x freepages_def chain.simps by blast
  moreover have "card (free_set s) = Suc (length xs)"
    using ys free_set_eq [OF ys] by (simp add: x freepages_def distinct_card)
  ultimately show thesis using that ys kalloc_Cons x by blast
qed

lemma uvmcreate_fresh:
  assumes "kmem_inv s" "0 < card (free_set s)"
  obtains pt s' where "uvmcreate s = (pt, s')" "pt \<noteq> 0" "pt_ok s' pt" "card (free_set s') = card (free_set s) - 1"
    "\<And>va. leaf (mem s') 2 pt va = 0"
proof -
  obtain x xs where x: "freepages s (x # xs)" "kalloc s = (x, s\<lparr>freelist := rd64 (mem s) (unat x)\<rparr>)" "x \<noteq> 0"
    "freepages (s\<lparr>freelist := rd64 (mem s) (unat x)\<rparr>) xs" "card (free_set s) = Suc (length xs)"
    using kmem_inv_kalloc [OF assms] .
  define s1 where "s1 = s\<lparr>freelist := rd64 (mem s) (unat x)\<rparr>"
  define s' where "s' = s1\<lparr>mem := fill (mem s1) (unat x) 4096 0\<rparr>"
  have lx: "legal (kend s) x" "\<And>y. y \<in> set xs \<Longrightarrow> legal (kend s) y \<and> y \<noteq> x" and kp: "0 < kend s"
    using x(1) by (auto simp: freepages_def page_ok_legal)
  have ag: "agree (mem s1) (mem s') {q. legal (kend s) q \<and> q \<noteq> x}"
    unfolding s'_def by simp (rule agree_fill [OF lx(1)], simp)
  have f: "freepages s' xs" unfolding s'_def
    by (rule freepages_mem_frame) (use x(4) ag lx(2) in \<open>auto simp: s1_def agree_def s'_def\<close>)
  have t: "ptree (kend s) (mem s') 2 x \<and> nodes (mem s') 2 x = {x} \<and> leaf (mem s') 2 x va = 0" for va
    by (rule zero_tree [OF _ lx(1)]) (simp add: s'_def byte_simps)
  have "pt_ok s' x" using t f free_set_eq [OF f] lx(2) by (auto simp: pt_ok_def kmem_inv_def s'_def s1_def)
  moreover have "card (free_set s') = card (free_set s) - 1"
    using f x(5) free_set_eq [OF f] by (simp add: freepages_def distinct_card)
  moreover have "uvmcreate s = (x, s')" using x(2,3) by (simp add: uvmcreate_def s'_def s1_def memset_eq PGSIZE_def)
  ultimately show thesis using that x(3) t by blast
qed

lemma map_last_page:
  assumes "pt_ok s pt" "unat va mod 4096 = 0" "unat va + 4096 \<le> 2 ^ 38" "\<And>v. v < MAXVA \<Longrightarrow> vpn v = vpn va \<Longrightarrow> \<not> valid (leaf (mem s) 2 pt v)"
    "2 < card (free_set s)"
  obtains s' where "mappages pt va 4096 pa perm s = Ok (0, s')" "pt_ok s' pt" "card (free_set s) \<le> card (free_set s') + 2"
    "\<And>v. v < MAXVA \<Longrightarrow> vpn v \<noteq> vpn va \<Longrightarrow> leaf (mem s') 2 pt v = leaf (mem s) 2 pt v"
proof -
  have e: "(of_nat (4096 * 1) :: uint64) = 4096" by simp
  obtain r s' d where m: "mappages pt va 4096 pa perm s = Ok (r, s')" "pt_ok s' pt" "mapped_from pt va pa perm (mem s) (mem s') d"
    "r = 0 \<and> d = 1 \<or> r = -1 \<and> d < 1 \<and> free_set s' = {}" "card (free_set s) \<le> card (free_set s') + 2 * 1"
    using mappages_post [OF assms(1,2), of 1 pa perm] assms(3,4) unfolding e by (auto simp: le_less_Suc_eq)
  then have "r = 0" "d = 1" using assms(5) by auto
  moreover have "leaf (mem s') 2 pt v = leaf (mem s) 2 pt v" if "v < MAXVA" "vpn v \<noteq> vpn va" for v
    using m(3) that \<open>d = 1\<close> by (auto simp: mapped_from_def)
  ultimately show thesis using that [of s'] m by simp
qed

lemma unat_TRAMPOLINE: "unat TRAMPOLINE = 2 ^ 38 - 4096" "unat TRAPFRAME = 2 ^ 38 - 8192" "vpn TRAPFRAME \<noteq> vpn TRAMPOLINE"
  by (simp_all add: TRAMPOLINE_def TRAPFRAME_def MAXVA_def vpn_def)

lemma proc_pagetable_succeeds:
  assumes "kmem_inv s" "6 \<le> card (free_set s)"
  shows "\<exists>pt s'. proc_pagetable p s = Ok (pt, s') \<and> pt \<noteq> 0"
proof -
  have "0 < card (free_set s)" using assms(2) by simp
  then obtain pt s1 where u: "uvmcreate s = (pt, s1)" "pt \<noteq> 0" "pt_ok s1 pt" "card (free_set s1) = card (free_set s) - 1"
    "\<And>va. leaf (mem s1) 2 pt va = 0" using uvmcreate_fresh [OF assms(1)] by metis
  have c1: "2 < card (free_set s1)" using u(4) assms(2) by linarith
  obtain s2 where s2: "mappages pt TRAMPOLINE 4096 (sym_trampoline (ksym s1)) (PTE_R OR PTE_X) s1 = Ok (0, s2)" "pt_ok s2 pt"
    "card (free_set s1) \<le> card (free_set s2) + 2"
    "\<And>v. v < MAXVA \<Longrightarrow> vpn v \<noteq> vpn TRAMPOLINE \<Longrightarrow> leaf (mem s2) 2 pt v = leaf (mem s1) 2 pt v"
    by (rule map_last_page [OF u(3) _ _ _ c1, of TRAMPOLINE "sym_trampoline (ksym s1)" "PTE_R OR PTE_X"])
      (simp_all add: unat_TRAMPOLINE u(5))
  have c2: "2 < card (free_set s2)" using s2(3) u(4) assms(2) by linarith
  have nv: "\<not> valid (leaf (mem s2) 2 pt v)" if "v < MAXVA" "vpn v = vpn TRAPFRAME" for v
    using s2(4) [OF that(1)] that(2) unat_TRAMPOLINE(3) u(5) by simp
  obtain s3 where "mappages pt TRAPFRAME 4096 (p_trapframe (procs s2 p)) (PTE_R OR PTE_W) s2 = Ok (0, s3)"
    by (rule map_last_page [OF s2(2) _ _ nv c2, of TRAPFRAME "p_trapframe (procs s2 p)" "PTE_R OR PTE_W"]) (simp_all add: unat_TRAMPOLINE)
  then show ?thesis using u(1,2) s2(1) by (simp add: proc_pagetable_def PGSIZE_def)
qed

lemma allocproc_memory:
  assumes "quiet s" "find (\<lambda>i. p_state (procs s i) = UNUSED) [0..<NPROC] = Some p" "kmem_inv s" "7 \<le> card (free_set s)"
  shows "\<exists>s'. allocproc s = Ok (Some p, s')"
proof -
  define s3 where "s3 = upd_proc p (\<lambda>x. x\<lparr>p_pid := nextpid s, p_state := USED\<rparr>) ((enter p s)\<lparr>nextpid := nextpid s + 1\<rparr>)"
  have fp: "freepages s3 = freepages s" by (simp add: freepages_def page_ok_def s3_def upd_proc_def fun_eq_iff)
  then have "kmem_inv s3" "free_set s3 = free_set s" using assms(3) by (simp_all add: kmem_inv_def free_set_def s3_def upd_proc_def freepages_def)
  moreover from this have "0 < card (free_set s3)" using assms(4) by simp
  ultimately obtain x xs where x: "kalloc s3 = (x, s3\<lparr>freelist := rd64 (mem s3) (unat x)\<rparr>)" "x \<noteq> 0"
    "freepages (s3\<lparr>freelist := rd64 (mem s3) (unat x)\<rparr>) xs" "card (free_set s) = Suc (length xs)"
    using kmem_inv_kalloc [of s3] by metis
  define s5 where "s5 = upd_proc p (p_trapframe_update (\<lambda>_. x)) (s3\<lparr>freelist := rd64 (mem s3) (unat x)\<rparr>)"
  have f5: "freepages s5 xs" using x(3) by (simp add: s5_def freepages_def page_ok_def upd_proc_def)
  then have "kmem_inv s5" "6 \<le> card (free_set s5)"
    using x(4) assms(4) free_set_eq [OF f5] by (auto simp: kmem_inv_def freepages_def distinct_card)
  then obtain pt s6 where "proc_pagetable p s5 = Ok (pt, s6)" "pt \<noteq> 0" using proc_pagetable_succeeds by blast
  then show ?thesis
    using x(1,2) unfolding allocproc_def allocproc_scan_quiet [OF assms(1)] assms(2)
    by (simp add: allocpid_def s3_def s5_def Let_def)
qed

lemma dup_ofiles_succeeds:
  assumes "p \<noteq> np" "\<And>i f. p_ofile (procs s p) i = Some f \<Longrightarrow> 1 \<le> f_ref (ftable s f)"
  shows "\<exists>s'. dup_ofiles is p np s = Ok s'"
  using assms(2)
proof (induction "is" arbitrary: s)
  case (Cons i "is")
  show ?case
  proof (cases "p_ofile (procs s p) i")
    case None
    then show ?thesis using Cons by simp
  next
    case (Some f)
    define t where "t = upd_proc np (p_ofile_update (\<lambda>fs. fs(i := Some f))) (upd_file f (f_ref_update (\<lambda>r. r + 1)) s)"
    have "1 \<le> f_ref (ftable t g)" if "p_ofile (procs t p) j = Some g" for j g
    proof -
      have "1 \<le> f_ref (ftable s g)" using that assms(1) Cons.prems by (simp add: t_def upd_file_def)
      then show ?thesis by (auto simp: t_def upd_file_def upd_proc_def)
    qed
    from Cons.IH [OF this] show ?thesis using Some Cons.prems [OF Some] by (simp add: filedup_def t_def)
  qed
qed simp

section \<open>An example\<close>

text \<open>Eight free pages, and process 1 running with one open file.\<close>

definition ex_mem8 :: bytes where
  "ex_mem8 = wr64 (wr64 (wr64 (wr64 (wr64 (wr64 (wr64 (\<lambda>_. 0) 0x87ff1000 0x87ff2000) 0x87ff2000 0x87ff3000) 0x87ff3000 0x87ff4000)
     0x87ff4000 0x87ff5000) 0x87ff5000 0x87ff6000) 0x87ff6000 0x87ff7000) 0x87ff7000 0x87ff8000"

definition ex_fork :: kfile where
  "ex_fork = ex_kfile\<lparr>mem := ex_mem8,
     procs := (\<lambda>i. if i = 0 then zero_proc\<lparr>p_state := RUNNING, p_pid := 1, p_trapframe := 0x87ff0000, p_cwd := Some 0,
                                     p_ofile := (\<lambda>_. None)(1 := Some 5)\<rparr> else zero_proc),
     ftable := (\<lambda>_. \<lparr>f_type = FD_DEVICE, f_ref = 1, f_readable = 1, f_writable = 1, f_pipe = 0, f_ip = 0, f_off = 0, f_major = 1\<rparr>)\<rparr>"

lemma ex_fork_simps [simp]:
  "mem ex_fork = ex_mem8" "freelist ex_fork = 0x87ff1000" "kend ex_fork = 0x87ff0000" "cpu_proc ex_fork = Some 0"
  "nextpid ex_fork = 2" "wait_lock ex_fork = initlock" "thiscpu ex_fork = \<lparr>noff = 0, intena = False, sie = True\<rparr>"
  by (simp_all add: ex_fork_def ex_kfile_defs)

lemma ex_fork_freepages:
  "freepages ex_fork [0x87ff1000, 0x87ff2000, 0x87ff3000, 0x87ff4000, 0x87ff5000, 0x87ff6000, 0x87ff7000, 0x87ff8000]"
proof -
  have "rd64 ex_mem8 0x87ff1000 = 0x87ff2000" "rd64 ex_mem8 0x87ff2000 = 0x87ff3000" "rd64 ex_mem8 0x87ff3000 = 0x87ff4000"
    "rd64 ex_mem8 0x87ff4000 = 0x87ff5000" "rd64 ex_mem8 0x87ff5000 = 0x87ff6000" "rd64 ex_mem8 0x87ff6000 = 0x87ff7000"
    "rd64 ex_mem8 0x87ff7000 = 0x87ff8000"
    by (simp_all add: ex_mem8_def rd64_wr64_other)
  moreover have "rd64 ex_mem8 0x87ff8000 = 0"
    by (simp add: ex_mem8_def rd64_wr64_other) (simp add: rd64_def rd32_def)
  ultimately show ?thesis by (simp add: freepages_def page_ok_def param_defs)
qed

lemma ex_fork_quiet: "quiet ex_fork" "pids_ok ex_fork" "p_state (procs ex_fork 0) = RUNNING"
  by (auto simp: quiet_def pids_ok_def cpu_ok_def ex_fork_def ex_kfile_defs zero_proc_def)

lemma ex_fork_runs: "\<exists>s'. kfork ex_fork = Ok (2, s')"
proof -
  let ?s = ex_fork
  have f: "find (\<lambda>i. p_state (procs ?s i) = UNUSED) [0..<NPROC] = Some 1"
    by (simp add: find_upt_Some ex_fork_def NPROC_def zero_proc_def)
  have "kmem_inv ?s" "7 \<le> card (free_set ?s)"
    using ex_fork_freepages free_set_eq [OF ex_fork_freepages] by (auto simp: kmem_inv_def)
  then obtain s1 where a: "allocproc ?s = Ok (Some 1, s1)" using allocproc_memory [OF ex_fork_quiet(1) f] by blast
  from allocproc_Ok [OF ex_fork_quiet(1) a f] obtain m1 f1 pt where
    s1: "s1 = upd_proc 1 (new_slot (hart ?s) 2 0x87ff1000 pt (sym_forkret (ksym ?s)))
             (?s\<lparr>mem := m1, freelist := f1, nextpid := 3, thiscpu := push_off (thiscpu ?s)\<rparr>)" by auto
  have u: "uvmcopy (p_pagetable (procs s1 0)) (p_pagetable (procs s1 1)) 0 s1 = Ok (0, s1)"
    by (simp add: uvmcopy_def uvmcopy_loop.simps)
  define s4 where "s4 = (upd_proc 1 (p_sz_update (\<lambda>_. 0)) s1)\<lparr>mem := fork_regs m1 0x87ff1000 0x87ff0000\<rparr>"
  have p4: "procs s4 0 = procs ?s 0" "ftable s4 = ftable ?s" by (simp_all add: s4_def s1 upd_proc_def)
  then have "1 \<le> f_ref (ftable s4 f)" for f by (simp add: ex_fork_def)
  then obtain s5 where d: "dup_ofiles [0..<NOFILE] 0 1 s4 = Ok s5" using dup_ofiles_succeeds [of 0 1 s4] by auto
  then have s5: "s5 = upd_proc 1 (inherit (p_ofile (procs s4 0)) [0..<NOFILE]) (s4\<lparr>ftable := share (p_ofile (procs s4 0)) [0..<NOFILE] (ftable s4)\<rparr>)"
    by (intro dup_ofiles_Ok) simp_all
  define s6 where "s6 = upd_proc 1 (\<lambda>x. x\<lparr>p_cwd := Some 0, p_name := safestrcpy (p_name x) 0 (p_name (procs s5 0)) 16\<rparr>) (idup 0 s5)"
  have t6: "p_lock (procs s6 1) = held (hart s6)" "thiscpu s6 = push_off (thiscpu ?s)" "wait_lock s6 = initlock" "p_pid (procs s6 1) = 2"
    by (simp_all add: s6_def s5 s4_def s1 new_slot_def idup_def upd_inode_def)
  note tail = kfork_tail [OF t6(1,2) quiet_cpu [OF ex_fork_quiet(1)] t6(3), of 0 "2 :: int"]
  have z: "p_sz (procs s1 0) = 0" "p_trapframe (procs s1 1) = 0x87ff1000" "p_trapframe (procs s1 0) = 0x87ff0000"
    "p_cwd (procs s5 0) = Some 0" "mem s1 = m1"
    by (simp_all add: s1 new_slot_def ex_fork_def zero_proc_def s5 s4_def)
  show ?thesis using a u d z tail t6(4)
    by (simp add: kfork_def need_proc_def myproc_def Let_def need_def) (simp add: s4_def fork_regs_def s6_def)
qed

section \<open>Properties\<close>



end
