(* ===== verification/Ckptmem.thy ===== *)
theory Ckptmem
  imports Filedata Checkpoint Procalloc
begin

unbundle bit_operations_syntax

text \<open>
  The memory part of checkpoints: \<^verbatim>\<open>checkpoint_addr_space\<close> and \<^verbatim>\<open>restore_addr_space\<close> of \<^verbatim>\<open>kernel/vm.c\<close> through
  the file that connects them.
\<close>

section \<open>Storing in a file with room\<close>

definition stored :: "nat \<Rightarrow> nat set \<Rightarrow> nat \<Rightarrow> byte list \<Rightarrow> 'a kfs_scheme \<Rightarrow> 'a kfs_scheme \<Rightarrow> bool" where
  "stored i R off xs s s' \<longleftrightarrow> file_step i R s s' \<and> file_ok s' i \<and> content s' i = overwrite (content s i) off xs \<and>
     (\<forall>j. off \<le> j \<and> j < off + length xs \<longrightarrow> fblk s' i (j div BSIZE) \<noteq> 0 \<and> fblk s' i (j div BSIZE) \<in> set (log_lh s'))"

lemma storedD:
  assumes "stored i R off xs s s'"
  shows "file_step i R s s'" "file_ok s' i" "content s' i = overwrite (content s i) off xs"
    "off \<le> j \<Longrightarrow> j < off + length xs \<Longrightarrow> fblk s' i (j div BSIZE) \<noteq> 0"
    "off \<le> j \<Longrightarrow> j < off + length xs \<Longrightarrow> fblk s' i (j div BSIZE) \<in> set (log_lh s')"
  using assms unfolding stored_def by blast+

lemma stored_size:
  assumes "stored i R off xs s s'" "off \<le> fsz s i"
  shows "fsz s' i = max (fsz s i) (off + length xs)"
proof -
  have "length (content s' i) = max (fsz s i) (off + length xs)" unfolding storedD(3) [OF assms(1)] using assms(2) by (simp add: length_overwrite)
  then show ?thesis by simp
qed

lemma overwrite_append:
  assumes "off \<le> length zs"
  shows "overwrite (overwrite zs off xs) (off + length xs) ys = overwrite zs off (xs @ ys)"
  using assms by (simp add: overwrite_def ac_simps)

lemma stored_append:
  assumes 1: "stored i R off xs s t" and 2: "stored i R (off + length xs) ys t u" and o: "off \<le> fsz s i"
  shows "stored i R off (xs @ ys) s u"
proof -
  note d = storedD [OF 1] and e = storedD [OF 2]
  have "content u i = overwrite (content s i) off (xs @ ys)" using e(3) d(3) overwrite_append [of off "content s i" xs ys] o by simp
  moreover have "fblk u i (j div BSIZE) \<noteq> 0 \<and> fblk u i (j div BSIZE) \<in> set (log_lh u)" if j: "off \<le> j" "j < off + length (xs @ ys)" for j
  proof (cases "j < off + length xs")
    case True
    then show ?thesis using d(4,5) [OF j(1) True] file_stepD(7,12) [OF e(1)] by auto
  next
    case False
    then show ?thesis using e(4,5) [of j] j by simp
  qed
  ultimately show ?thesis unfolding stored_def using file_step_trans [OF d(1) e(1)] e(2) by blast
qed

lemma stored_Nil: "file_ok s i \<Longrightarrow> in_op s \<Longrightarrow> off \<le> fsz s i \<Longrightarrow> stored i R off [] s s"
  using file_step_refl [of s i R] by (auto simp: stored_def file_ok_def overwrite_def)

lemma writei_stored:
  assumes "file_ok s i" "in_op s" "finite R" "R \<subseteq> {..<MAXFILE}" "missing s i R \<le> card (free_blocks s)" "src_ok src (unat n)"
    "unat off \<le> fsz s i" "unat off + unat n \<le> MAXFILE * BSIZE" "blocks (unat off) (unat n) \<subseteq> R"
  shows "tries (fbudget s i R) (\<lambda>(r, s'). r = int (unat n) \<and> stored i R (unat off) (src_list src (unat n) (mem s)) s s') (writei i src off n s)"
proof -
  let ?xs = "src_list src (unat n) (mem s)"
  have lx: "length ?xs = unat n" using assms(6) src_split(4) [of src "unat n" 0] by simp
  have "tries (fbudget s i R) (wrote i R (unat off) ?xs s) (writei i src off n s)"
    using assms(9) by (intro writei_try [OF assms(1-4,6-8)]) (auto simp: blocks_def)
  then show ?thesis
  proof (rule tries_mono)
    fix x assume x: "wrote i R (unat off) ?xs s x"
    obtain r s' where p: "x = (r, s')" by (cases x)
    obtain k where k: "k \<le> length ?xs" "r = int k" "k < length ?xs \<longrightarrow> disk_full i R s'" "file_step i R s s'" "file_ok s' i"
      "content s' i = overwrite (content s i) (unat off) (take k ?xs)"
      "\<forall>j. unat off \<le> j \<and> j < unat off + k \<longrightarrow> fblk s' i (j div BSIZE) \<in> set (log_lh s')"
      using x by (auto simp: p wrote_def)
    have kn: "k = unat n" using not_full(1) [OF k(4) assms(5)] k(1,3) lx by auto
    have "max (fsz s i) (unat off + k) = fsz s' i" using arg_cong [OF k(6), of length] assms(7) lx kn by (simp add: length_overwrite)
    then have "\<forall>j. unat off \<le> j \<and> j < unat off + k \<longrightarrow> fblk s' i (j div BSIZE) \<noteq> 0" using k(5) by (auto simp: file_ok_def)
    then show "case x of (r, s') \<Rightarrow> r = int (unat n) \<and> stored i R (unat off) ?xs s s'"
      using k kn lx by (simp add: p stored_def)
  qed simp
qed

section \<open>The image of an address space\<close>

text \<open>For every page a byte that tells whether it is there, and if so the page.\<close>

definition page_image :: "bytes \<Rightarrow> uint64 \<Rightarrow> nat \<Rightarrow> byte list" where
  "page_image m pt v = (if valid (lf m pt v) then 1 # getl m (unat (PTE2PA (lf m pt v))) 4096 else [0])"

fun image :: "bytes \<Rightarrow> uint64 \<Rightarrow> nat \<Rightarrow> nat \<Rightarrow> byte list" where
  "image m pt v 0 = []"
| "image m pt v (Suc n) = page_image m pt v @ image m pt (Suc v) n"

lemma fsonly_uspace: "fsonly i s s' \<Longrightarrow> uspace s' pt = uspace s pt"
  by (rule uspace_cong) (auto simp: fsonly_def)

lemma walk_page:
  assumes "uspace s pt" "v < UPAGES"
  shows "\<exists>pte. walk pt (of_nat (4096 * v)) False s = Ok (pte, s) \<and>
    (pte \<noteq> 0 \<and> rd64 (mem s) (unat pte) AND PTE_V \<noteq> 0 \<longleftrightarrow> valid (lf (mem s) pt v)) \<and>
    (pte \<noteq> 0 \<longrightarrow> rd64 (mem s) (unat pte) = lf (mem s) pt v)"
proof -
  have "v < 2 ^ 52" using assms(2) by (simp add: UPAGES_def)
  then have v: "vpn (of_nat (4096 * v)) = v" by (rule vpn_of_nat)
  then have "(of_nat (4096 * v) :: uint64) < MAXVA" using assms(2) by (intro UPAGES_MAXVA) (simp only:)
  from walk_lf [OF uspace_pt_ok [OF assms(1)] this] show ?thesis unfolding v by (auto simp: valid_def)
qed

lemma length_page_image: "length (page_image m pt v) = (if valid (lf m pt v) then 4097 else 1)"
  by (simp add: page_image_def)

lemma blocks_append: "blocks off (m + n) = blocks off m \<union> blocks (off + m) n"
proof -
  have "{off..<off + (m + n)} = {off..<off + m} \<union> {off + m..<off + m + n}" by auto
  then show ?thesis unfolding blocks_def by (simp add: image_Un)
qed

lemma blocks_mono: "m \<le> n \<Longrightarrow> blocks off m \<subseteq> blocks off n"
  unfolding blocks_def by (rule image_mono) auto

text \<open>The state in which the loop continues satisfies what the loop started from.\<close>

definition ready :: "nat \<Rightarrow> nat set \<Rightarrow> uint64 \<Rightarrow> 'a kfs_scheme \<Rightarrow> bool" where
  "ready i R pt s \<longleftrightarrow> file_ok s i \<and> in_op s \<and> missing s i R \<le> card (free_blocks s) \<and> uspace s pt"

lemma ready_stored:
  assumes "ready i R pt s" "stored i R off xs s s'"
  shows "ready i R pt s'" "mem s' = mem s" "fbudget s' i R \<le> fbudget s i R"
  using assms storedD(1,2) [OF assms(2)] not_full(2) [of i R s s'] file_stepD(1,3,9) [of i R s s'] fsonly_uspace [of i s s' pt] fsonly_simps(2) [of i s s']
  by (auto simp: ready_def)

lemma store_page:
  assumes "ready i R pt s" "finite R" "R \<subseteq> {..<MAXFILE}" "v < UPAGES" "unat off \<le> fsz s i"
    "unat off + length (page_image (mem s) pt v) \<le> MAXFILE * BSIZE" "blocks (unat off) (length (page_image (mem s) pt v)) \<subseteq> R"
  shows "valid (lf (mem s) pt v) \<Longrightarrow> tries (fbudget s i R) (\<lambda>(r, s1). r = 1 \<and> stored i R (unat off) [1] s s1 \<and>
      tries (fbudget s i R) (\<lambda>(r, s2). r = 4096 \<and> stored i R (unat off) (page_image (mem s) pt v) s s2)
        (writei i (MemSrc (PTE2PA (lf (mem s) pt v))) (off + 1) 4096 s1)) (writei i (StackSrc [1]) off 1 s)"
    "\<not> valid (lf (mem s) pt v) \<Longrightarrow> tries (fbudget s i R) (\<lambda>(r, s2). r = 1 \<and> stored i R (unat off) (page_image (mem s) pt v) s s2)
      (writei i (StackSrc [0]) off 1 s)"
proof -
  have r: "file_ok s i" "in_op s" "missing s i R \<le> card (free_blocks s)" "uspace s pt" using assms(1) by (simp_all add: ready_def)
  have one: "tries (fbudget s i R) (\<lambda>(r, s'). r = 1 \<and> stored i R (unat off) [b] s s') (writei i (StackSrc [b]) off 1 s)" for b
  proof -
    have "1 \<le> length (page_image (mem s) pt v)" by (simp add: length_page_image)
    then have "unat off + 1 \<le> MAXFILE * BSIZE" "blocks (unat off) 1 \<subseteq> R"
      using assms(6,7) blocks_mono [of 1 "length (page_image (mem s) pt v)" "unat off"] by auto
    then show ?thesis using writei_stored [OF r(1,2) assms(2,3) r(3), of "StackSrc [b]" 1 off] assms(5) by simp
  qed
  show "tries (fbudget s i R) (\<lambda>(r, s2). r = 1 \<and> stored i R (unat off) (page_image (mem s) pt v) s s2) (writei i (StackSrc [0]) off 1 s)"
    if "\<not> valid (lf (mem s) pt v)" using one [of 0] that by (simp add: page_image_def)
  assume v: "valid (lf (mem s) pt v)"
  let ?a = "PTE2PA (lf (mem s) pt v)"
  have a: "unat ?a + 4096 < 2 ^ 64" using legal_bound [OF uspaceD(1) [OF r(4) assms(4) v]] by simp
  have lim: "unat off + 4097 \<le> MAXFILE * BSIZE" "blocks (unat off) (1 + 4096) \<subseteq> R" using assms(6,7) v by (simp_all add: length_page_image)
  have o: "unat (off + 1) = unat off + 1" using lim(1) MAXFILE_bytes by (simp add: unat_word_ariths)
  have "tries (fbudget s i R) (\<lambda>(r, s2). r = 4096 \<and> stored i R (unat off) (page_image (mem s) pt v) s s2) (writei i (MemSrc ?a) (off + 1) 4096 s1)"
    if st: "stored i R (unat off) [1] s s1" for s1
  proof -
    note q = ready_stored [OF assms(1) st]
    have q1: "file_ok s1 i" "in_op s1" "missing s1 i R \<le> card (free_blocks s1)" using q(1) by (simp_all add: ready_def)
    have "tries (fbudget s1 i R) (\<lambda>(r, s'). r = int (unat (4096 :: uint)) \<and>
        stored i R (unat (off + 1)) (src_list (MemSrc ?a) (unat (4096 :: uint)) (mem s1)) s1 s') (writei i (MemSrc ?a) (off + 1) 4096 s1)"
    proof (rule writei_stored [OF q1(1,2) assms(2,3) q1(3)])
      show "blocks (unat (off + 1)) (unat (4096 :: uint)) \<subseteq> R" using lim(2) unfolding blocks_append o by simp
      show "unat (off + 1) \<le> fsz s1 i" using stored_size [OF st assms(5)] o by simp
    qed (use a lim(1) o in simp_all)
    then show ?thesis
    proof (rule tries_mono [OF _ _ q(3)])
      fix x assume x: "case x of (r, s') \<Rightarrow> r = int (unat (4096 :: uint)) \<and>
        stored i R (unat (off + 1)) (src_list (MemSrc ?a) (unat (4096 :: uint)) (mem s1)) s1 s'"
      then show "case x of (r, s2) \<Rightarrow> r = 4096 \<and> stored i R (unat off) (page_image (mem s) pt v) s s2"
        using stored_append [OF st, of "getl (mem s) (unat ?a) 4096"] assms(5) v q(2) o by (cases x) (simp add: page_image_def)
    qed
  qed
  then show "tries (fbudget s i R) (\<lambda>(r, s1). r = 1 \<and> stored i R (unat off) [1] s s1 \<and>
      tries (fbudget s i R) (\<lambda>(r, s2). r = 4096 \<and> stored i R (unat off) (page_image (mem s) pt v) s s2)
        (writei i (MemSrc ?a) (off + 1) 4096 s1)) (writei i (StackSrc [1]) off 1 s)"
    by (intro tries_mono [OF one]) auto
qed

lemma checkpoint_addr_space_try:
  assumes "ready i R pt s" "finite R" "R \<subseteq> {..<MAXFILE}" "v + n \<le> UPAGES" "\<forall>j. 4096 * (v + j) < sz \<longleftrightarrow> j < n" "unat off \<le> fsz s i"
    "unat off + length (image (mem s) pt v n) \<le> MAXFILE * BSIZE" "blocks (unat off) (length (image (mem s) pt v n)) \<subseteq> R"
  shows "tries (fbudget s i R) (\<lambda>(r, s'). r = 0 \<and> stored i R (unat off) (image (mem s) pt v n) s s')
    (checkpoint_addr_space pt (4096 * v) sz i off s)"
  using assms
proof (induction n arbitrary: v off s)
  case 0
  have "file_ok s i" "in_op s" using "0.prems"(1) by (simp_all add: ready_def)
  then have "stored i R (unat off) [] s s" by (rule stored_Nil [OF _ _ "0.prems"(6)])
  moreover have "\<not> 4096 * v < sz" using "0.prems"(5) [rule_format, of 0] by simp
  ultimately show ?case by (subst checkpoint_addr_space.simps) simp
next
  case (Suc n)
  let ?I = "page_image (mem s) pt v" and ?B = "fbudget s i R"
  have u: "uspace s pt" "v < UPAGES" using Suc.prems(1,4) by (simp_all add: ready_def)
  have lt: "4096 * v < sz" using Suc.prems(5) [rule_format, of 0] by simp
  have lim: "unat off + length ?I \<le> MAXFILE * BSIZE" "blocks (unat off) (length ?I) \<subseteq> R"
    "blocks (unat off + length ?I) (length (image (mem s) pt (Suc v) n)) \<subseteq> R"
    using Suc.prems(7,8) by (simp_all add: blocks_append)
  note sp = store_page [OF Suc.prems(1-3) u(2) Suc.prems(6) lim(1,2)]
  have go: "tries ?B (\<lambda>(r, s'). r = 0 \<and> stored i R (unat off) (image (mem s) pt v (Suc n)) s s')
      (checkpoint_addr_space pt (4096 * Suc v) sz i off' t)"
    if st: "stored i R (unat off) ?I s t" and o: "unat off' = unat off + length ?I" for off' t
  proof -
    note q = ready_stored [OF Suc.prems(1) st]
    have "tries (fbudget t i R) (\<lambda>(r, s'). r = 0 \<and> stored i R (unat off') (image (mem t) pt (Suc v) n) t s') (checkpoint_addr_space pt (4096 * Suc v) sz i off' t)"
    proof (rule Suc.IH [OF q(1) Suc.prems(2,3)])
      show "\<forall>j. 4096 * (Suc v + j) < sz \<longleftrightarrow> j < n" using Suc.prems(5) by (metis add_Suc_shift Suc_less_eq)
      show "unat off' \<le> fsz t i" using stored_size [OF st Suc.prems(6)] o by simp
    qed (use Suc.prems(4,7) lim q(2) o in simp_all)
    then show ?thesis
    proof (rule tries_mono [OF _ _ q(3)])
      fix x assume "case x of (r, s') \<Rightarrow> r = 0 \<and> stored i R (unat off') (image (mem t) pt (Suc v) n) t s'"
      then show "case x of (r, s') \<Rightarrow> r = 0 \<and> stored i R (unat off) (image (mem s) pt v (Suc n)) s s'"
        using stored_append [OF st] Suc.prems(6) q(2) o by (cases x) simp
    qed
  qed
  obtain pte where w: "walk pt (of_nat (4096 * v)) False s = Ok (pte, s)"
    "pte \<noteq> 0 \<and> rd64 (mem s) (unat pte) AND PTE_V \<noteq> 0 \<longleftrightarrow> valid (lf (mem s) pt v)" "pte \<noteq> 0 \<longrightarrow> rd64 (mem s) (unat pte) = lf (mem s) pt v"
    using walk_page [OF u] by blast
  have ob: "unat off + length ?I < 2 ^ 31" using lim(1) MAXFILE_bytes by linarith
  show ?case
  proof (cases "valid (lf (mem s) pt v)")
    case False
    have e: "checkpoint_addr_space pt (4096 * v) sz i off s = bnd (writei i (StackSrc [0]) off 1 s) (\<lambda>(r, s1).
        if r \<noteq> 1 then Ok (-1, s1) else checkpoint_addr_space pt (4096 * Suc v) sz i (off + 1) s1)"
      unfolding checkpoint_addr_space.simps [of pt "4096 * v"] Let_def w(1) bnd.simps prod.case w(2) using lt False
      by (simp add: PGSIZE_def add.commute cong: if_cong)
    have "unat (off + 1) = unat off + length ?I" using ob False by (simp add: length_page_image unat_word_ariths)
    from go [OF _ this] show ?thesis unfolding e by (intro tries_bnd [OF sp(2) [OF False]]) auto
  next
    case True
    let ?a = "PTE2PA (lf (mem s) pt v)"
    have e: "checkpoint_addr_space pt (4096 * v) sz i off s = bnd (writei i (StackSrc [1]) off 1 s) (\<lambda>(r, s1).
        if r \<noteq> 1 then Ok (-1, s1)
        else bnd (writei i (MemSrc (PTE2PA (rd64 (mem s1) (unat pte)))) (off + 1) 4096 s1) (\<lambda>(r, s2).
          if r \<noteq> 4096 then Ok (-1, s2) else checkpoint_addr_space pt (4096 * Suc v) sz i (off + 1 + 4096) s2))"
      unfolding checkpoint_addr_space.simps [of pt "4096 * v"] Let_def w(1) bnd.simps prod.case w(2) using lt True
      by (simp add: PGSIZE_def add.commute cong: if_cong)
    have nz: "pte \<noteq> 0" using True w(2) by blast
    have "unat (off + 1 + 4096) = unat off + length ?I" using ob True by (simp add: length_page_image unat_word_ariths)
    note go = go [OF _ this]
    show ?thesis unfolding e
    proof (rule tries_bnd [OF sp(1) [OF True]])
      fix x assume x: "case x of (r, s1) \<Rightarrow> r = 1 \<and> stored i R (unat off) [1] s s1 \<and>
        tries ?B (\<lambda>(r, s2). r = 4096 \<and> stored i R (unat off) ?I s s2) (writei i (MemSrc ?a) (off + 1) 4096 s1)"
      obtain s1 where p: "x = (1, s1)" and s1: "stored i R (unat off) [1] s s1"
        and t: "tries ?B (\<lambda>(r, s2). r = 4096 \<and> stored i R (unat off) ?I s s2) (writei i (MemSrc ?a) (off + 1) 4096 s1)"
        using x by (cases x) auto
      have "PTE2PA (rd64 (mem s1) (unat pte)) = ?a" using ready_stored(2) [OF Suc.prems(1) s1] w(3) nz by simp
      moreover have "tries ?B (\<lambda>(r, s'). r = 0 \<and> stored i R (unat off) (image (mem s) pt v (Suc n)) s s')
          (bnd (writei i (MemSrc ?a) (off + 1) 4096 s1) (\<lambda>(r, s2). if r \<noteq> 4096 then Ok (-1, s2) else checkpoint_addr_space pt (4096 * Suc v) sz i (off + 1 + 4096) s2))"
        by (rule tries_bnd [OF t]) (use go in auto)
      ultimately show "tries ?B (\<lambda>(r, s'). r = 0 \<and> stored i R (unat off) (image (mem s) pt v (Suc n)) s s') (case x of (r, s1) \<Rightarrow>
        if r \<noteq> 1 then Ok (-1, s1)
        else bnd (writei i (MemSrc (PTE2PA (rd64 (mem s1) (unat pte)))) (off + 1) 4096 s1) (\<lambda>(r, s2).
          if r \<noteq> 4096 then Ok (-1, s2) else checkpoint_addr_space pt (4096 * Suc v) sz i (off + 1 + 4096) s2))"
        by (simp add: p)
    qed simp
  qed
qed

section \<open>Restoring\<close>

lemma file_cong:
  assumes "bview t = bview s" "itable t = itable s" "sb t = sb s"
  shows "file_ok t i = file_ok s i" "content t i = content s i" "fsz t i = fsz s i" "free_blocks t = free_blocks s" "missing t i R = missing s i R"
    "log_lh t = log_lh s \<Longrightarrow> fbudget t i R = fbudget s i R"
proof -
  have c: "fssize t = fssize s" "bitmap t = bitmap s" "\<And>b. BBLOCK b t = BBLOCK b s" by (rule sb_cong [OF assms(3)])+
  have u: "used t b = used s b" for b by (rule used_cong) (simp_all add: assms)
  have f: "fblk t i = fblk s i" "ind t i = ind s i" "iblk t i = iblk s i"
    by (simp_all add: ind_def iblk_def IBLOCK_def fblk_def fun_eq_iff assms)
  have g: "geom t = geom s" by (simp add: geom_def c u assms)
  have m: "fmap_ok t i = fmap_ok s i" by (simp add: fmap_ok_def c u f taken_def)
  show z: "fsz t i = fsz s i" by (simp add: fsz_def assms)
  show "content t i = content s i" by (simp add: content_def z fbyte_def f assms)
  show "file_ok t i = file_ok s i" by (simp add: file_ok_def g m z f(1))
  show "free_blocks t = free_blocks s" by (simp add: free_blocks_def c u)
  show mi: "missing t i R = missing s i R" by (simp add: missing_def f)
  show "fbudget t i R = fbudget s i R" if "log_lh t = log_lh s" by (simp add: fbudget_def mi footprint_def that c f)
qed

lemma file_ok_mem [simp]: "file_ok (s\<lparr>mem := m\<rparr>) i = file_ok s i" "content (s\<lparr>mem := m\<rparr>) i = content s i" "fsz (s\<lparr>mem := m\<rparr>) i = fsz s i"
  by (rule file_cong; simp)+

text \<open>A whole page stored.\<close>

lemma store_user_page:
  assumes "uspace s pt" "v < UPAGES" "valid (lf (mem s) pt v)" "length xs = 4096"
  defines "m \<equiv> putl (mem s) (unat (PTE2PA (lf (mem s) pt v))) xs"
  shows "uspace (s\<lparr>mem := m\<rparr>) pt" "lf m pt w = lf (mem s) pt w"
    "a < 4096 * UPAGES \<Longrightarrow> ubyte m pt a = (if 4096 * v \<le> a \<and> a < 4096 * Suc v then Some (xs ! (a - 4096 * v)) else ubyte (mem s) pt a)"
proof -
  have ag: "agree (mem s) m {q. legal (kend s) q \<and> q \<noteq> PTE2PA (lf (mem s) pt v)}"
    using agree_putl [OF uspaceD(1) [OF assms(1-3)], of 0 xs] assms(4) by (simp add: m_def)
  show "uspace (s\<lparr>mem := m\<rparr>) pt" "lf m pt w = lf (mem s) pt w" by (rule uspace_store [OF assms(1-3) ag])+
  show "ubyte m pt a = (if 4096 * v \<le> a \<and> a < 4096 * Suc v then Some (xs ! (a - 4096 * v)) else ubyte (mem s) pt a)" if "a < 4096 * UPAGES"
    using ubyte_putl [OF assms(1-3), of 0 xs a] assms(4) that by (simp add: m_def add.commute)
qed

lemma memset_putl: "memset m a c n = putl m a (replicate n c)"
  by (auto simp: memset_eq fun_eq_iff fill_def putl_def put_def)

definition page_bytes :: "bytes \<Rightarrow> uint64 \<Rightarrow> nat \<Rightarrow> byte list" where
  "page_bytes m pt v = (if valid (lf m pt v) then getl m (unat (PTE2PA (lf m pt v))) 4096 else replicate 4096 0)"

lemma restore_page:
  assumes "file_ok t j" "uspace t pt'" "v < UPAGES" "valid (lf (mem t) pt' v)" "4096 * v < sz"
    "unat off + length (page_image m pt v) \<le> fsz t j"
    "take (length (page_image m pt v)) (drop (unat off) (content t j)) = page_image m pt v"
  shows "restore_addr_space pt' (4096 * v) sz j off t =
    restore_addr_space pt' (4096 * Suc v) sz j (off + of_nat (length (page_image m pt v)))
      (t\<lparr>mem := putl (mem t) (unat (PTE2PA (lf (mem t) pt' v))) (page_bytes m pt v)\<rparr>)"
proof -
  let ?I = "page_image m pt v" and ?C = "content t j" and ?a = "PTE2PA (lf (mem t) pt' v)"
  have l1: "1 \<le> length ?I" by (simp add: length_page_image)
  have nth: "?C ! (unat off + k) = ?I ! k" if "k < length ?I" for k
    using arg_cong [OF assms(7), of "\<lambda>xs. xs ! k"] that assms(6) by simp
  have hd: "hd ?I = ?I ! 0" by (rule hd_conv_nth) (simp add: page_image_def)
  have "take 1 (drop (unat off) ?C) = [hd ?I]"
    using nth [of 0] l1 assms(6) by (intro nth_equalityI) (auto simp: hd page_image_def)
  then have r1: "readi j StackDst off 1 t = Ok ((1, [hd ?I]), t)"
    using readi_ok [OF assms(1), of off 1 StackDst] assms(6) l1 by simp
  obtain pte where w: "walk pt' (of_nat (4096 * v)) False t = Ok (pte, t)" "pte \<noteq> 0" "rd64 (mem t) (unat pte) AND PTE_V \<noteq> 0"
    "rd64 (mem t) (unat pte) = lf (mem t) pt' v"
    using walk_page [OF assms(2,3)] assms(4) by blast
  show ?thesis
  proof (cases "valid (lf m pt v)")
    case False
    then have h: "?I = [0]" by (simp add: page_image_def)
    then show ?thesis unfolding restore_addr_space.simps [of pt' "4096 * v"] Let_def r1 w(1) bnd.simps prod.case
      using assms(5) w(2-4) False by (simp add: PGSIZE_def add.commute memset_putl page_bytes_def)
  next
    case True
    then have h: "?I = 1 # page_bytes m pt v" "length ?I = 4097" by (simp_all add: page_image_def page_bytes_def)
    have ou: "unat (off + 1) = unat off + 1"
      using assms(6) h(2) unsigned_less [of "i_size (itable t j)", where ?'a = nat] by (simp add: unat_word_ariths fsz_def)
    have "take 4096 (drop (unat off + 1) ?C) = page_bytes m pt v"
      using nth [of "Suc _"] assms(6) h by (intro nth_equalityI) (auto simp: page_bytes_def)
    moreover have "unat ?a + 4096 < 2 ^ 64" using legal_bound [OF uspaceD(1) [OF assms(2-4)]] by simp
    ultimately have r2: "readi j (MemDst ?a) (off + 1) 4096 t = Ok ((4096, page_bytes m pt v), t\<lparr>mem := putl (mem t) (unat ?a) (page_bytes m pt v)\<rparr>)"
      using readi_ok [OF assms(1), of "off + 1" 4096 "MemDst ?a"] assms(6) h(2) ou by simp
    show ?thesis unfolding restore_addr_space.simps [of pt' "4096 * v"] Let_def r1 w(1) bnd.simps prod.case
      using assms(5) w(2-4) True h r2 by (simp add: PGSIZE_def add.commute)
  qed
qed

lemma page_bytes_nth:
  assumes "4096 * v \<le> a" "a < 4096 * Suc v"
  shows "page_bytes m pt v ! (a - 4096 * v) = (case ubyte m pt a of Some b \<Rightarrow> b | None \<Rightarrow> 0)"
proof -
  have d: "a div 4096 = v" "a mod 4096 = a - 4096 * v" using assms by (simp_all add: div_nat_eqI modulo_nat_def)
  then show ?thesis using assms by (simp add: page_bytes_def ubyte_def Let_def)
qed

lemma restore_addr_space_ok:
  assumes "file_ok t j" "uspace t pt'" "v + n \<le> UPAGES" "\<forall>w. v \<le> w \<and> w < v + n \<longrightarrow> valid (lf (mem t) pt' w)"
    "\<forall>j. 4096 * (v + j) < sz \<longleftrightarrow> j < n" "unat off + length (image m pt v n) \<le> fsz t j"
    "take (length (image m pt v n)) (drop (unat off) (content t j)) = image m pt v n"
  shows "\<exists>m'. restore_addr_space pt' (4096 * v) sz j off t = Ok (0, t\<lparr>mem := m'\<rparr>) \<and> uspace (t\<lparr>mem := m'\<rparr>) pt' \<and>
    (\<forall>w. lf m' pt' w = lf (mem t) pt' w) \<and>
    (\<forall>a<4096 * UPAGES. ubyte m' pt' a =
       (if 4096 * v \<le> a \<and> a < 4096 * (v + n) then Some (case ubyte m pt a of Some b \<Rightarrow> b | None \<Rightarrow> 0) else ubyte (mem t) pt' a))"
  using assms
proof (induction n arbitrary: v off t)
  case 0
  have "\<not> 4096 * v < sz" using "0.prems"(5) [rule_format, of 0] by simp
  then show ?case using "0.prems"(2) by (intro exI [of _ "mem t"]) (subst restore_addr_space.simps, auto)
next
  case (Suc n)
  let ?I = "page_image m pt v" and ?T = "image m pt (Suc v) n" and ?C = "content t j"
  let ?u = "t\<lparr>mem := putl (mem t) (unat (PTE2PA (lf (mem t) pt' v))) (page_bytes m pt v)\<rparr>"
  have lt: "4096 * v < sz" using Suc.prems(5) [rule_format, of 0] by simp
  have v: "v < UPAGES" "valid (lf (mem t) pt' v)" using Suc.prems(3,4) by simp_all
  have lp: "length (page_bytes m pt v) = 4096" by (simp add: page_bytes_def)
  note su = store_user_page [OF Suc.prems(2) v lp]
  have "take (length ?I + length ?T) (drop (unat off) ?C) = ?I @ ?T" using Suc.prems(7) by simp
  then have t1: "take (length ?I) (drop (unat off) ?C) = ?I" "take (length ?T) (drop (unat off + length ?I) ?C) = ?T"
    using Suc.prems(6) by (simp_all add: take_add append_eq_append_conv add.commute)
  have st: "restore_addr_space pt' (4096 * v) sz j off t = restore_addr_space pt' (4096 * Suc v) sz j (off + of_nat (length ?I)) ?u"
    using Suc.prems(6) by (intro restore_page [OF Suc.prems(1,2) v lt _ t1(1)]) simp
  have ou: "unat (off + of_nat (length ?I)) = unat off + length ?I"
    using Suc.prems(6) unsigned_less [of "i_size (itable t j)", where ?'a = nat] by (simp add: unat_word_ariths unat_of_nat fsz_def)
  have "\<exists>m'. restore_addr_space pt' (4096 * Suc v) sz j (off + of_nat (length ?I)) ?u = Ok (0, ?u\<lparr>mem := m'\<rparr>) \<and> uspace (?u\<lparr>mem := m'\<rparr>) pt' \<and>
    (\<forall>w. lf m' pt' w = lf (mem ?u) pt' w) \<and>
    (\<forall>a<4096 * UPAGES. ubyte m' pt' a =
       (if 4096 * Suc v \<le> a \<and> a < 4096 * (Suc v + n) then Some (case ubyte m pt a of Some b \<Rightarrow> b | None \<Rightarrow> 0) else ubyte (mem ?u) pt' a))"
  proof (rule Suc.IH)
    show "\<forall>j. 4096 * (Suc v + j) < sz \<longleftrightarrow> j < n" using Suc.prems(5) by (metis add_Suc_shift Suc_less_eq)
    show "\<forall>w. Suc v \<le> w \<and> w < Suc v + n \<longrightarrow> valid (lf (mem ?u) pt' w)" using Suc.prems(4) su(2) by simp
  qed (use Suc.prems su(1) t1(2) ou in \<open>simp_all del: of_nat_Suc\<close>)
  then obtain m' where m': "restore_addr_space pt' (4096 * Suc v) sz j (off + of_nat (length ?I)) ?u = Ok (0, t\<lparr>mem := m'\<rparr>)" "uspace (t\<lparr>mem := m'\<rparr>) pt'"
    "\<forall>w. lf m' pt' w = lf (mem t) pt' w"
    "\<And>a. a < 4096 * UPAGES \<Longrightarrow> ubyte m' pt' a =
       (if 4096 * Suc v \<le> a \<and> a < 4096 * (Suc v + n) then Some (case ubyte m pt a of Some b \<Rightarrow> b | None \<Rightarrow> 0) else ubyte (mem ?u) pt' a)"
    using su(2) by auto
  have "ubyte m' pt' a = (if 4096 * v \<le> a \<and> a < 4096 * (v + Suc n) then Some (case ubyte m pt a of Some b \<Rightarrow> b | None \<Rightarrow> 0) else ubyte (mem t) pt' a)"
    if a: "a < 4096 * UPAGES" for a
    using m'(4) [OF a] su(3) [OF a] page_bytes_nth [of v a m pt] by auto
  then show ?case using m'(1-3) st by auto
qed

section \<open>Checkpoint and restore of memory\<close>

definition npages :: "nat \<Rightarrow> nat" where
  "npages sz = (sz + 4095) div 4096"

lemma npages_less: "4096 * j < sz \<longleftrightarrow> j < npages sz"
  unfolding npages_def by (simp add: less_eq_div_iff_mult_less_eq Suc_le_eq [symmetric]) arith

lemma checkpoint_tries:
  assumes "file_ok s i" "in_op s" "uspace s pt" "npages sz \<le> UPAGES" "unat off \<le> fsz s i"
    and I: "I = image (mem s) pt 0 (npages sz)" "unat off + length I \<le> MAXFILE * BSIZE"
    and R: "R = blocks (unat off) (length I)" "missing s i R \<le> card (free_blocks s)"
  shows "tries (fbudget s i R) (\<lambda>(r, s'). r = 0 \<and> stored i R (unat off) I s s' \<and> ready i R pt s' \<and> mem s' = mem s)
    (checkpoint_addr_space pt 0 sz i off s)"
proof -
  have rd: "ready i R pt s" using assms(1-3) R(2) by (simp add: ready_def)
  have "tries (fbudget s i R) (\<lambda>(r, s'). r = 0 \<and> stored i R (unat off) (image (mem s) pt 0 (npages sz)) s s') (checkpoint_addr_space pt (4096 * 0) sz i off s)"
    using assms(4,5) I R blocks_bound [OF I(2)] npages_less by (intro checkpoint_addr_space_try [OF rd]) (simp_all add: blocks_def)
  then show ?thesis using ready_stored(1,2) [OF rd] I(1) by (auto elim!: tries_mono)
qed

text \<open>
  C1. \<^verbatim>\<open>checkpoint_addr_space\<close> into a file with room, in a transaction with room, returns 0; and in any later
  state in which some inode has that content and a page table has a page for every page of the process, in
  whatever physical memory, \<^verbatim>\<open>restore_addr_space\<close> returns 0 and leaves in these pages every byte of the
  checkpointed process, with zeros for the pages it did not have in memory.
\<close>

theorem checkpoint_restore_memory:
  fixes s :: "'a kfs_scheme" and t :: "'b kfs_scheme"
  assumes "file_ok s i" "in_op s" "uspace s pt" "npages sz \<le> UPAGES" "unat off \<le> fsz s i"
    "unat off + length (image (mem s) pt 0 (npages sz)) \<le> MAXFILE * BSIZE"
    "fbudget s i (blocks (unat off) (length (image (mem s) pt 0 (npages sz)))) < LOGBLOCKS"
    "missing s i (blocks (unat off) (length (image (mem s) pt 0 (npages sz)))) \<le> card (free_blocks s)"
  shows "\<exists>s'. checkpoint_addr_space pt 0 sz i off s = Ok (0, s') \<and> file_ok s' i \<and>
    (file_ok t j \<and> content t j = content s' i \<and> uspace t pt' \<and> (\<forall>v<npages sz. valid (lf (mem t) pt' v)) \<longrightarrow>
      (\<exists>m. restore_addr_space pt' 0 sz j off t = Ok (0, t\<lparr>mem := m\<rparr>) \<and>
        (\<forall>a<4096 * npages sz. ubyte m pt' a = Some (case ubyte (mem s) pt a of Some b \<Rightarrow> b | None \<Rightarrow> 0))))"
proof -
  let ?I = "image (mem s) pt 0 (npages sz)" let ?R = "blocks (unat off) (length ?I)"
  obtain s' where c: "checkpoint_addr_space pt 0 sz i off s = Ok (0, s')" "stored i ?R (unat off) ?I s s'"
    using checkpoint_tries [OF assms(1-5) refl assms(6) refl assms(8)] assms(7) by (auto simp: tries_def)
  have "\<exists>m. restore_addr_space pt' 0 sz j off t = Ok (0, t\<lparr>mem := m\<rparr>) \<and>
      (\<forall>a<4096 * npages sz. ubyte m pt' a = Some (case ubyte (mem s) pt a of Some b \<Rightarrow> b | None \<Rightarrow> 0))"
    if t: "file_ok t j" "content t j = content s' i" "uspace t pt'" "\<forall>v<npages sz. valid (lf (mem t) pt' v)"
  proof -
    have l: "unat off + length ?I \<le> fsz t j"
      using stored_size [OF c(2) assms(5)] arg_cong [OF t(2), of length] by simp
    have "take (length ?I) (drop (unat off) (content t j)) = ?I"
      unfolding t(2) storedD(3) [OF c(2)] overwrite_def using assms(5) by simp
    then obtain m where m: "restore_addr_space pt' (4096 * 0) sz j off t = Ok (0, t\<lparr>mem := m\<rparr>)"
      "\<forall>a<4096 * UPAGES. ubyte m pt' a = (if 4096 * 0 \<le> a \<and> a < 4096 * (0 + npages sz)
         then Some (case ubyte (mem s) pt a of Some b \<Rightarrow> b | None \<Rightarrow> 0) else ubyte (mem t) pt' a)"
      using restore_addr_space_ok [OF t(1,3), of 0 "npages sz" sz off "mem s" pt] assms(4) t(4) npages_less l by auto
    then show ?thesis using assms(4) by (intro exI [of _ m]) auto
  qed
  then show ?thesis using c(1) storedD(2) [OF c(2)] by blast
qed

text \<open>An address space with \<open>n\<close> pages.\<close>

lemma ex_pages:
  assumes "n \<le> 8"
  obtains pt m f k where "\<And>t :: 'b kmem_scheme. uspace (t\<lparr>mem := m, freelist := f, kend := k\<rparr>) pt" "\<And>v. v < n \<Longrightarrow> valid (lf m pt v)" "\<And>v. n \<le> v \<Longrightarrow> v < UPAGES \<Longrightarrow> \<not> valid (lf m pt v)"
proof -
  define s0 where "s0 = ex_kproc\<lparr>mem := (\<lambda>_. 0), freelist := 0, kend := 0x87fc0000\<rparr>"
  have "freepages s0 []" by (simp add: s0_def freepages_def)
  moreover have "kend s0 \<le> 0x87fc0000" "(0x87fc0000::uint64) \<le> PHYSTOP" "unat (0x87fc0000::uint64) mod 4096 = 0" by (simp_all add: s0_def param_defs)
  ultimately obtain s1 :: kproc and ys where s1: "freepages s1 ys" "set ys = pages_from 0x87fc0000"
    using freerange_loop_ok [of s0 "[]" "0x87fc0000"] by auto
  let ?P = "(\<lambda>k. 0x87fc0000 + of_nat (4096 * k) :: uint64) ` {..<30}"
  have u: "unat (0x87fc0000 + of_nat (4096 * k) :: uint64) = 0x87fc0000 + 4096 * k" if "k < 30" for k
    using that by (simp add: unat_word_ariths unat_of_nat)
  have "inj_on (\<lambda>k. 0x87fc0000 + of_nat (4096 * k) :: uint64) {..<30}"
    by (rule inj_on_inverseI [of _ "\<lambda>w. (unat w - 0x87fc0000) div 4096"]) (use u in simp)
  then have "card ?P = 30" by (simp add: card_image)
  moreover have "?P \<subseteq> pages_from 0x87fc0000" using u by (auto simp: pages_from_def word_le_nat_alt word_less_nat_alt param_defs)
  then have "?P \<subseteq> free_set s1" using s1 free_set_eq by blast
  ultimately have c1: "30 \<le> card (free_set s1)" using card_mono [of "free_set s1" ?P] free_set_finite by simp
  have "kmem_inv s1" using s1(1) by (auto simp: kmem_inv_def)
  moreover have "0 < card (free_set s1)" using c1 by simp
  ultimately obtain pt s2 where "uvmcreate s1 = (pt, s2)" "pt \<noteq> 0"
    and s2: "pt_ok s2 pt" "card (free_set s2) = card (free_set s1) - 1" "\<And>va. leaf (mem s2) 2 pt va = 0"
    by (rule uvmcreate_fresh) blast
  have l: "lf (mem s2) pt v = 0" for v by (simp add: lf_def s2(3))
  have us: "uspace s2 pt" by (rule uspaceI [OF s2(1)]) (simp_all add: l)
  have r: "round_up 0 = 0" "round_up (4096 * n) = 4096 * n" "unat (of_nat (4096 * n) :: uint64) = 4096 * n"
    using assms by (simp_all add: round_up_def unat_of_nat del: of_nat_mult)
  obtain z s3 where "uvmalloc pt 0 (of_nat (4096 * n)) PTE_W s2 = Ok (z, s3)"
    "grown pt 0 n (PTE_R OR PTE_U OR PTE_W) s2 s3 \<or> card (free_set s2) \<le> 3 * n"
    using uvmalloc_post [OF us ex_leafy, of 0 "of_nat (4096 * n)"] assms by (auto simp: r l UPAGES_def simp del: of_nat_mult)
  then have g: "grown pt 0 n (PTE_R OR PTE_U OR PTE_W) s2 s3" using s2(2) c1 assms by auto
  show thesis
  proof (rule that [where pt = pt and m = "mem s3" and f = "freelist s3" and k = "kend s3"])
    show "uspace (t\<lparr>mem := mem s3, freelist := freelist s3, kend := kend s3\<rparr>) pt" for t :: "'b kmem_scheme"
      using g uspace_cong [of "t\<lparr>mem := mem s3, freelist := freelist s3, kend := kend s3\<rparr>" s3 pt] by (simp add: grown_def kept_def)
    show "valid (lf (mem s3) pt v)" if "v < n" for v using grown_in(2) [OF g, of v] that assms by simp
    show "\<not> valid (lf (mem s3) pt v)" if "n \<le> v" "v < UPAGES" for v using grown_out [OF g, of v] that l by (simp add: UPAGES_def)
  qed
qed

lemma length_image:
  "length (image m pt v n) = n + 4096 * card {w. v \<le> w \<and> w < v + n \<and> valid (lf m pt w)}"
proof (induction n arbitrary: v)
  case (Suc n)
  let ?S = "\<lambda>v n. {w. v \<le> w \<and> w < v + n \<and> valid (lf m pt w)}"
  have "?S v (Suc n) = (if valid (lf m pt v) then insert v (?S (Suc v) n) else ?S (Suc v) n)"
    by (auto simp: le_Suc_eq Suc_le_eq less_Suc_eq le_less)
  then show ?case using Suc by (simp add: length_page_image)
qed simp

lemma card_blocks:
  shows "card (blocks off n) \<le> n" "n \<le> BSIZE * card (blocks off n)"
proof -
  show "card (blocks off n) \<le> n" using card_image_le [of "{off..<off + n}" "\<lambda>k. k div BSIZE"] by (simp add: blocks_def)
  have "{off..<off + n} \<subseteq> (\<Union>b\<in>blocks off n. {BSIZE * b..<BSIZE * b + BSIZE})"
  proof
    fix k assume k: "k \<in> {off..<off + n}"
    have "BSIZE * (k div BSIZE) + k mod BSIZE = k" "k mod BSIZE < BSIZE" by (simp_all add: param_defs)
    then have "k \<in> {BSIZE * (k div BSIZE)..<BSIZE * (k div BSIZE) + BSIZE}" by (simp only: atLeastLessThan_iff) linarith
    moreover have "k div BSIZE \<in> blocks off n" using k by (simp add: blocks_def)
    ultimately show "k \<in> (\<Union>b\<in>blocks off n. {BSIZE * b..<BSIZE * b + BSIZE})" by blast
  qed
  then have "card {off..<off + n} \<le> card (\<Union>b\<in>blocks off n. {BSIZE * b..<BSIZE * b + BSIZE})" by (rule card_mono [rotated]) (simp add: blocks_def)
  also have "\<dots> \<le> (\<Sum>b\<in>blocks off n. card {BSIZE * b..<BSIZE * b + BSIZE})" by (rule card_UN_le) (simp add: blocks_def)
  also have "\<dots> = BSIZE * card (blocks off n)" by simp
  finally show "n \<le> BSIZE * card (blocks off n)" by simp
qed

text \<open>
  Witness for C1: a page is written to the empty file, and restored from it into the same pages.
\<close>

theorem checkpoint_restore_memory_witness:
  "\<exists>s pt s' m. checkpoint_addr_space pt 0 4096 0 0 (s :: kfs) = Ok (0, s') \<and> valid (lf (mem s) pt 0) \<and>
     restore_addr_space pt 0 4096 0 0 s' = Ok (0, s'\<lparr>mem := m\<rparr>)"
proof -
  obtain pt m f k where e: "uspace (ex_kfs\<lparr>mem := m, freelist := f, kend := k\<rparr>) pt" "valid (lf m pt 0)"
    using ex_pages [of 1] by (metis less_one one_le_numeral)
  define s where "s = ex_kfs\<lparr>mem := m, freelist := f, kend := k\<rparr>"
  note c = file_cong [of s ex_kfs, simplified s_def, simplified]
  have n: "npages 4096 = 1" by (simp add: npages_def)
  have l: "length (image m pt 0 1) = 4097" using e(2) by (simp add: length_page_image)
  have "blocks 0 4097 \<subseteq> {..<5}" by (auto simp: blocks_def param_defs)
  then have "card (blocks 0 4097) \<le> 5" using card_mono [of "{..<5::nat}"] by fastforce
  then have b: "fbudget s 0 (blocks 0 4097) < LOGBLOCKS" "missing s 0 (blocks 0 4097) \<le> card (free_blocks s)"
    using ex_budget [of 0 "blocks 0 4097"] ex_free by (simp_all add: c s_def param_defs)
  have s: "file_ok s 0" "in_op s" "fsz s 0 = 0" "mem s = m" "uspace s pt" using ex_file_ok(2,3) e(1) by (simp_all add: c s_def in_op_def)
  obtain s' where s': "checkpoint_addr_space pt 0 4096 0 0 s = Ok (0, s')" "file_ok s' 0" "mem s' = m" "uspace s' pt"
    using checkpoint_tries [OF s(1,2,5), of 4096 0 "image m pt 0 1" "blocks 0 4097"] s b l n
    by (auto simp: tries_def ready_def UPAGES_def param_defs)
  have v: "\<forall>v<npages 4096. valid (lf (mem s') pt v)" using e(2) s'(3) n by simp
  have "\<exists>s''. checkpoint_addr_space pt 0 4096 0 0 s = Ok (0, s'') \<and> file_ok s'' 0 \<and>
    (file_ok s' 0 \<and> content s' 0 = content s'' 0 \<and> uspace s' pt \<and> (\<forall>v<npages 4096. valid (lf (mem s') pt v)) \<longrightarrow>
      (\<exists>m'. restore_addr_space pt 0 4096 0 0 s' = Ok (0, s'\<lparr>mem := m'\<rparr>) \<and>
        (\<forall>a<4096 * npages 4096. ubyte m' pt a = Some (case ubyte (mem s) pt a of Some b \<Rightarrow> b | None \<Rightarrow> 0))))"
    by (rule checkpoint_restore_memory) (use s b l n in \<open>simp_all add: UPAGES_def param_defs\<close>)
  then show ?thesis using s' v e(2) s(4) by (intro exI [of _ s] exI [of _ pt] exI [of _ s']) auto
qed

section \<open>Checkpoints that are too big\<close>

lemma logged_blocks:
  assumes "stored i R off xs s s'"
  shows "card (blocks off (length xs)) \<le> LOGBLOCKS"
proof -
  note d = file_stepD [OF storedD(1) [OF assms]]
  let ?B = "blocks off (length xs)"
  have nz: "fblk s' i b \<noteq> 0 \<and> fblk s' i b \<in> set (log_lh s')" if "b \<in> ?B" for b using that storedD(4,5) [OF assms] by (auto simp: blocks_def)
  have "inj_on (fblk s' i) ?B" using fmap_okD(5) [OF d(4)] nz by (intro inj_onI) blast
  then have "card ?B = card (fblk s' i ` ?B)" by (simp add: card_image)
  also have "\<dots> \<le> card (set (log_lh s'))" using nz by (intro card_mono) auto
  also have "\<dots> \<le> length (log_lh s')" by (rule card_length)
  finally show ?thesis using d(3) by (simp add: in_op_def)
qed

text \<open>
  C10. Eight pages in memory do not fit in the log: for a process with that many, \<^verbatim>\<open>checkpoint_addr_space\<close>, which
  \<^verbatim>\<open>checkpoint_proc\<close> runs within a single transaction, panics, although the file could hold the image and the
  disk has the blocks for it.
\<close>

theorem checkpoint_too_big_panics:
  assumes "file_ok s i" "in_op s" "uspace s pt" "npages sz \<le> UPAGES" "unat off \<le> fsz s i"
    "unat off + length (image (mem s) pt 0 (npages sz)) \<le> MAXFILE * BSIZE"
    "missing s i (blocks (unat off) (length (image (mem s) pt 0 (npages sz)))) \<le> card (free_blocks s)"
    "8 \<le> card {v. v < npages sz \<and> valid (lf (mem s) pt v)}"
  shows "checkpoint_addr_space pt 0 sz i off s = Panic ''too big a transaction''"
proof -
  let ?I = "image (mem s) pt 0 (npages sz)" let ?R = "blocks (unat off) (length ?I)"
  have "4096 * 8 \<le> length ?I" using assms(8) unfolding length_image by simp
  then have "LOGBLOCKS < card ?R" using card_blocks(2) [of "length ?I" "unat off"] by (simp add: param_defs)
  then show ?thesis
    using checkpoint_tries [OF assms(1-5) refl assms(6) refl assms(7)] logged_blocks by (fastforce simp: tries_def)
qed

text \<open>Witness for C10: eight pages and an empty file.\<close>

theorem checkpoint_too_big_panics_witness:
  "\<exists>s pt. file_ok s 0 \<and> checkpoint_addr_space pt 0 32768 0 0 (s :: kfs) = Panic ''too big a transaction''"
proof -
  obtain pt m f k where e: "uspace (ex_kfs\<lparr>mem := m, freelist := f, kend := k\<rparr>) pt" "\<And>v. v < 8 \<Longrightarrow> valid (lf m pt v)"
    using ex_pages [of 8] by (metis order_refl)
  define s where "s = ex_kfs\<lparr>mem := m, freelist := f, kend := k\<rparr>"
  note c = file_cong [of s ex_kfs, simplified s_def, simplified]
  have n: "npages 32768 = 8" by (simp add: npages_def)
  have S: "{v. v < 8 \<and> valid (lf m pt v)} = {..<8}" using e(2) by auto
  have l: "length (image m pt 0 8) = 32776" using S unfolding length_image by simp
  have "blocks 0 32776 \<subseteq> {..<33}" by (auto simp: blocks_def param_defs)
  then have "card (blocks 0 32776) \<le> 33" using card_mono [of "{..<33::nat}"] by fastforce
  then have b: "missing s 0 (blocks 0 32776) \<le> card (free_blocks s)"
    using ex_budget(2) [of 0 "blocks 0 32776"] ex_free by (simp add: c s_def)
  have s: "file_ok s 0" "in_op s" "fsz s 0 = 0" "mem s = m" "uspace s pt" using ex_file_ok(2,3) e(1) by (simp_all add: c s_def in_op_def)
  have "checkpoint_addr_space pt 0 32768 0 0 s = Panic ''too big a transaction''"
    by (rule checkpoint_too_big_panics) (use s b l n S in \<open>simp_all add: UPAGES_def param_defs\<close>)
  then show ?thesis using s(1) by blast
qed

end
