(* ===== verification/Ckptfds.thy ===== *)
theory Ckptfds
  imports Checkpoint
begin

text \<open>
  The descriptors of a checkpoint: what \<^verbatim>\<open>checkpoint_proc\<close> records of the open files of a process, in
  particular of the pipes whose two ends it holds, and that \<^verbatim>\<open>restore_proc\<close> rebuilds the pipes from
  the record.
\<close>

section \<open>Capture\<close>

text \<open>The pipe that descriptor \<open>i\<close> is an end of, and which end.\<close>

definition pipe_at :: "'a kfile_scheme \<Rightarrow> nat \<Rightarrow> nat \<Rightarrow> uint64 option" where
  "pipe_at s p i =
     (case p_ofile (procs s p) i of
        None \<Rightarrow> None
      | Some f \<Rightarrow> if f_type (ftable s f) = FD_PIPE then Some (f_pipe (ftable s f)) else None)"

definition rd_end :: "'a kfile_scheme \<Rightarrow> nat \<Rightarrow> nat \<Rightarrow> bool" where
  "rd_end s p i = (case p_ofile (procs s p) i of None \<Rightarrow> False
     | Some f \<Rightarrow> f_readable (ftable s f) \<noteq> 0 \<and> f_writable (ftable s f) = 0)"

definition wr_end :: "'a kfile_scheme \<Rightarrow> nat \<Rightarrow> nat \<Rightarrow> bool" where
  "wr_end s p i = (case p_ofile (procs s p) i of None \<Rightarrow> False
     | Some f \<Rightarrow> f_readable (ftable s f) = 0 \<and> f_writable (ftable s f) \<noteq> 0)"

text \<open>The entry for descriptor \<open>i\<close>, with \<open>qs\<close> the pipes in the order of their identifiers.\<close>

definition fd_captured :: "'a kfile_scheme \<Rightarrow> nat \<Rightarrow> uint64 list \<Rightarrow> nat \<Rightarrow> ckpt_fd \<Rightarrow> bool" where
  "fd_captured s p qs i d =
     (case p_ofile (procs s p) i of
        None \<Rightarrow> d = no_ckpt_fd
      | Some f \<Rightarrow> cf_type d = fdcode (f_type (ftable s f)) \<and> f_type (ftable s f) \<noteq> FD_NONE \<and>
          cf_readable d = f_readable (ftable s f) \<and> cf_writable d = f_writable (ftable s f) \<and>
          (case f_type (ftable s f) of
             FD_INODE \<Rightarrow> cf_inum d = i_inum (itable s (f_ip (ftable s f))) \<and> cf_off d = f_off (ftable s f)
           | FD_DEVICE \<Rightarrow> cf_inum d = i_inum (itable s (f_ip (ftable s f))) \<and> cf_major d = f_major (ftable s f)
           | _ \<Rightarrow> \<exists>k<length qs. qs ! k = f_pipe (ftable s f) \<and> cf_pipe_id d = of_nat k))"

definition ends :: "'a kfile_scheme \<Rightarrow> nat \<Rightarrow> nat set \<Rightarrow> uint64 \<Rightarrow> nat set" where
  "ends s p I q = {i \<in> I. pipe_at s p i = Some q}"

definition cap_inv :: "'a kfile_scheme \<Rightarrow> nat \<Rightarrow> nat set \<Rightarrow> capture \<Rightarrow> bool" where
  "cap_inv s p I c \<longleftrightarrow> finite I \<and>
     (\<forall>i\<in>I. fd_captured s p (map fst (cap_pipes c)) i (cap_fds c i)) \<and>
     (\<forall>i\<in>I. pipe_at s p i \<noteq> None \<longrightarrow> rd_end s p i = (\<not> wr_end s p i)) \<and>
     (\<forall>i. i \<notin> I \<longrightarrow> cap_fds c i = no_ckpt_fd) \<and>
     distinct (map fst (cap_pipes c)) \<and> length (cap_pipes c) \<le> NOFILE \<and>
     (\<forall>e\<in>set (cap_pipes c). e = (fst e, card (ends s p I (fst e)), card (ends s p I (fst e) \<inter> Collect (rd_end s p)),
        card (ends s p I (fst e) \<inter> Collect (wr_end s p))))"

lemma find_pipe_Some: "find_pipe q ps j = Some k \<Longrightarrow> j \<le> k \<and> k < j + length ps \<and> fst (ps ! (k - j)) = q"
proof (induction q ps j rule: find_pipe.induct)
  case (2 q q' v ps j)
  show ?case
  proof (cases "q' = q")
    case False
    with 2 have "j + 1 \<le> k \<and> k < j + 1 + length ps \<and> fst (ps ! (k - (j + 1))) = q" by simp
    moreover from this have "k - j = Suc (k - (j + 1))" by linarith
    ultimately show ?thesis by simp
  qed (use 2 in simp)
qed simp

lemma find_pipe_None: "find_pipe q ps j = None \<Longrightarrow> q \<notin> fst ` set ps"
  by (induction q ps j rule: find_pipe.induct) (auto split: if_splits)

lemma ends_insert: "ends s p (insert i I) q = (if pipe_at s p i = Some q then insert i (ends s p I q) else ends s p I q)"
  by (auto simp: ends_def)

lemma fd_captured_more: "fd_captured s p qs i d \<Longrightarrow> fd_captured s p (qs @ rs) i d"
  by (auto simp: fd_captured_def nth_append split: option.splits fdtype.splits)

lemma fd_captured_pipe: "fd_captured s p qs i d \<Longrightarrow> pipe_at s p i = Some q \<Longrightarrow> q \<in> set qs"
  by (auto simp: fd_captured_def pipe_at_def split: option.splits if_splits) (metis nth_mem)

text \<open>The pipe of the descriptor being added has an entry.\<close>

definition with_pipe :: "uint64 \<Rightarrow> capture \<Rightarrow> capture" where
  "with_pipe q c = (if q \<in> fst ` set (cap_pipes c) then c else c\<lparr>cap_pipes := cap_pipes c @ [(q, 0, 0, 0)]\<rparr>)"

lemma cap_inv_with_pipe:
  assumes "cap_inv s p I c" "length (cap_pipes (with_pipe q c)) \<le> NOFILE"
  shows "cap_inv s p I (with_pipe q c)"
proof (cases "q \<in> fst ` set (cap_pipes c)")
  case False
  have "ends s p I q = {}"
  proof -
    have "q \<in> fst ` set (cap_pipes c)" if "i \<in> ends s p I q" for i
      using assms(1) that fd_captured_pipe [of s p "map fst (cap_pipes c)" i "cap_fds c i" q]
      by (auto simp: cap_inv_def ends_def)
    then show ?thesis using False by auto
  qed
  then show ?thesis using assms False by (auto simp: cap_inv_def with_pipe_def fd_captured_more)
qed (use assms in \<open>simp add: with_pipe_def\<close>)

lemma capture_pipe_SomeE:
  assumes "capture_pipe i f d c = Some c'" "length (cap_pipes c) \<le> NOFILE"
  obtains k n r w where "k < length (cap_pipes (with_pipe (f_pipe f) c))" "length (cap_pipes (with_pipe (f_pipe f) c)) \<le> NOFILE"
    "cap_pipes (with_pipe (f_pipe f) c) ! k = (f_pipe f, n, r, w)" "(f_readable f \<noteq> 0) = (f_writable f = 0)"
    "c' = c\<lparr>cap_fds := (cap_fds c)(i := d\<lparr>cf_pipe_id := of_nat k\<rparr>),
        cap_pipes := (cap_pipes (with_pipe (f_pipe f) c))[k := (f_pipe f, n + 1,
          if f_readable f \<noteq> 0 \<and> f_writable f = 0 then r + 1 else r, if f_readable f = 0 \<and> f_writable f \<noteq> 0 then w + 1 else w)],
        cap_num := cap_num c + 1\<rparr>"
proof (cases "find_pipe (f_pipe f) (cap_pipes c) 0")
  case None
  from find_pipe_None [OF None] have w: "cap_pipes (with_pipe (f_pipe f) c) = cap_pipes c @ [(f_pipe f, 0, 0, 0)]"
    by (simp add: with_pipe_def)
  show thesis
    by (rule that [of "length (cap_pipes c)" 0 0 0])
      (use assms None in \<open>auto simp: w capture_pipe_def Let_def nth_append split: if_splits\<close>)
next
  case (Some k)
  from find_pipe_Some [OF this] have k: "k < length (cap_pipes c)" "fst (cap_pipes c ! k) = f_pipe f" by auto
  then have "f_pipe f \<in> fst ` set (cap_pipes c)" by (metis image_eqI nth_mem)
  then have w: "cap_pipes (with_pipe (f_pipe f) c) = cap_pipes c" by (simp add: with_pipe_def)
  obtain n r w' where e: "cap_pipes c ! k = (f_pipe f, n, r, w')" using k(2) by (metis prod.collapse)
  show thesis
    by (rule that [of k n r w'])
      (use assms Some k e in \<open>auto simp: w capture_pipe_def Let_def split: if_splits\<close>)
qed

lemma cap_inv_pipe:
  assumes "cap_inv s p I c" "i \<notin> I" "p_ofile (procs s p) i = Some f" "f_type (ftable s f) = FD_PIPE"
    "capture_pipe i (ftable s f) (no_ckpt_fd\<lparr>cf_type := 1, cf_readable := f_readable (ftable s f), cf_writable := f_writable (ftable s f)\<rparr>) c = Some c'"
  shows "cap_inv s p (insert i I) c'"
proof -
  let ?ff = "ftable s f"
  let ?q = "f_pipe ?ff"
  let ?c = "with_pipe ?q c"
  have len: "length (cap_pipes c) \<le> NOFILE" using assms(1) by (simp add: cap_inv_def)
  obtain k n r w where
    k: "k < length (cap_pipes ?c)" "length (cap_pipes ?c) \<le> NOFILE" "cap_pipes ?c ! k = (?q, n, r, w)"
    and x: "(f_readable ?ff \<noteq> 0) = (f_writable ?ff = 0)" and
    c': "c' = c\<lparr>cap_fds := (cap_fds c)(i := no_ckpt_fd\<lparr>cf_type := 1, cf_readable := f_readable ?ff, cf_writable := f_writable ?ff,
           cf_pipe_id := of_nat k\<rparr>),
        cap_pipes := (cap_pipes ?c)[k := (?q, n + 1, if f_readable ?ff \<noteq> 0 \<and> f_writable ?ff = 0 then r + 1 else r,
          if f_readable ?ff = 0 \<and> f_writable ?ff \<noteq> 0 then w + 1 else w)],
        cap_num := cap_num c + 1\<rparr>" by (rule capture_pipe_SomeE [OF assms(5) len])
  note inv = cap_inv_with_pipe [OF assms(1) k(2)]
  have fds: "cap_fds ?c = cap_fds c" by (simp add: with_pipe_def)
  have qs: "map fst (cap_pipes c') = map fst (cap_pipes ?c)"
    using k by (simp add: c' map_update list_update_same_conv)
  have pi: "pipe_at s p i = Some ?q" "rd_end s p i = (f_readable ?ff \<noteq> 0 \<and> f_writable ?ff = 0)"
    "wr_end s p i = (f_readable ?ff = 0 \<and> f_writable ?ff \<noteq> 0)"
    using assms(3,4) by (simp_all add: pipe_at_def rd_end_def wr_end_def)
  have "fd_captured s p (map fst (cap_pipes ?c)) i (cap_fds c' i)"
    using assms(3,4) k by (auto simp: fd_captured_def c' intro!: exI [of _ k])
  moreover have "e = (fst e, card (ends s p (insert i I) (fst e)), card (ends s p (insert i I) (fst e) \<inter> Collect (rd_end s p)),
        card (ends s p (insert i I) (fst e) \<inter> Collect (wr_end s p)))" if e: "e \<in> set (cap_pipes c')" for e
  proof -
    obtain j where j: "j < length (cap_pipes ?c)" "e = cap_pipes c' ! j" using e by (auto simp: in_set_conv_nth c')
    have cnt: "e' = (fst e', card (ends s p I (fst e')), card (ends s p I (fst e') \<inter> Collect (rd_end s p)),
        card (ends s p I (fst e') \<inter> Collect (wr_end s p)))" if "e' \<in> set (cap_pipes ?c)" for e'
      using inv that unfolding cap_inv_def by blast
    show ?thesis
    proof (cases "j = k")
      case True
      have "n = card (ends s p I ?q)" "r = card (ends s p I ?q \<inter> Collect (rd_end s p))" "w = card (ends s p I ?q \<inter> Collect (wr_end s p))"
        using cnt [OF nth_mem [OF k(1)]] k(3) by auto
      moreover have "finite (ends s p I ?q)" "i \<notin> ends s p I ?q" using assms(1,2) by (auto simp: cap_inv_def ends_def)
      ultimately show ?thesis using True j k pi by (auto simp: c' ends_insert)
    next
      case False
      have "distinct (map fst (cap_pipes ?c))" using inv by (simp add: cap_inv_def)
      then have "fst (cap_pipes ?c ! j) \<noteq> ?q" using False j(1) k nth_eq_iff_index_eq [of "map fst (cap_pipes ?c)" j k] by auto
      then show ?thesis using False j cnt [of e] pi by (simp add: c' ends_insert)
    qed
  qed
  ultimately show ?thesis
    using inv assms(2) x pi qs unfolding cap_inv_def by (auto simp: fds c')
qed

lemma cap_inv_fd:
  assumes "cap_inv s p I c" "i \<notin> I" "p_ofile (procs s p) i = Some f" "capture_fd i (ftable s f) (itable s) c = Some c'"
  shows "cap_inv s p (insert i I) c'"
proof -
  have d: "cap_fds c i = no_ckpt_fd" using assms(1,2) by (simp add: cap_inv_def)
  show ?thesis
  proof (cases "f_type (ftable s f) = FD_PIPE")
    case True
    then show ?thesis using assms d by (intro cap_inv_pipe [OF assms(1,2,3)]) (simp_all add: capture_fd_def Let_def)
  next
    case False
    then have n: "pipe_at s p i = None" using assms(3) by (simp add: pipe_at_def)
    then have "ends s p (insert i I) = ends s p I" by (simp add: ends_insert fun_eq_iff)
    moreover have "cap_pipes c' = cap_pipes c" "\<forall>j. j \<noteq> i \<longrightarrow> cap_fds c' j = cap_fds c j"
      using assms(4) False by (auto simp: capture_fd_def Let_def split: fdtype.splits)
    moreover have "fd_captured s p (map fst (cap_pipes c)) i (cap_fds c' i)"
      using assms(3,4) False by (auto simp: capture_fd_def fd_captured_def Let_def split: fdtype.splits)
    ultimately show ?thesis using assms(1) n unfolding cap_inv_def by (metis finite_insert insert_iff)
  qed
qed

lemma cap_inv_fds: "cap_inv s p I c \<Longrightarrow> capture_fds is p s c = Some c' \<Longrightarrow> distinct is \<Longrightarrow> set is \<inter> I = {} \<Longrightarrow>
  cap_inv s p (set is \<union> I) c'"
proof (induction "is" arbitrary: I c)
  case (Cons i "is")
  have *: "set (i # is) \<union> I = set is \<union> insert i I" by auto
  show ?case
  proof (cases "p_ofile (procs s p) i")
    case None
    then have "cap_inv s p (insert i I) c"
      using Cons.prems(1,4) by (auto simp: cap_inv_def ends_insert pipe_at_def fd_captured_def)
    then show ?thesis unfolding * by (rule Cons.IH) (use Cons.prems None in auto)
  next
    case (Some f)
    then obtain c1 where c1: "capture_fd i (ftable s f) (itable s) c = Some c1" "capture_fds is p s c1 = Some c'"
      using Cons.prems(2) by (auto split: option.splits)
    have "cap_inv s p (insert i I) c1" by (rule cap_inv_fd [OF Cons.prems(1) _ Some c1(1)]) (use Cons.prems(4) in auto)
    then show ?thesis unfolding * by (rule Cons.IH) (use Cons.prems c1 in auto)
  qed
qed simp

text \<open>Every pipe end of a table has one partner, the other end of the pipe with the same identifier.\<close>

definition same_pipe :: "(nat \<Rightarrow> ckpt_fd) \<Rightarrow> nat \<Rightarrow> nat set" where
  "same_pipe fds i = {k. k < NOFILE \<and> cf_type (fds k) = 1 \<and> cf_pipe_id (fds k) = cf_pipe_id (fds i)}"

definition paired :: "(nat \<Rightarrow> ckpt_fd) \<Rightarrow> bool" where
  "paired fds \<longleftrightarrow> (\<forall>i<NOFILE. cf_type (fds i) = 1 \<longrightarrow>
     (\<exists>j<NOFILE. j \<noteq> i \<and> same_pipe fds i = {i, j} \<and>
        (pipe_side (fds i) = Some True \<and> pipe_side (fds j) = Some False \<or>
         pipe_side (fds i) = Some False \<and> pipe_side (fds j) = Some True)))"

lemma fd_captured_type1: "fd_captured s p qs i d \<Longrightarrow> cf_type d = 1 \<longleftrightarrow> pipe_at s p i \<noteq> None"
  by (auto simp: fd_captured_def pipe_at_def no_ckpt_fd_def split: option.splits fdtype.splits)

lemma fd_captured_side:
  "fd_captured s p qs i d \<Longrightarrow> pipe_at s p i \<noteq> None \<Longrightarrow>
   (pipe_side d = Some True) = rd_end s p i \<and> (pipe_side d = Some False) = wr_end s p i"
  by (auto simp: fd_captured_def pipe_at_def pipe_side_def rd_end_def wr_end_def split: option.splits fdtype.splits if_splits)

lemma fd_captured_id:
  assumes "fd_captured s p qs i d" "fd_captured s p qs j e" "distinct qs" "length qs \<le> NOFILE" "pipe_at s p i \<noteq> None" "pipe_at s p j \<noteq> None"
  shows "cf_pipe_id d = cf_pipe_id e \<longleftrightarrow> pipe_at s p i = pipe_at s p j"
proof -
  obtain k where k: "k < length qs" "pipe_at s p i = Some (qs ! k)" "cf_pipe_id d = of_nat k"
    using assms(1,5) by (auto simp: fd_captured_def pipe_at_def split: option.splits if_splits)
  obtain l where l: "l < length qs" "pipe_at s p j = Some (qs ! l)" "cf_pipe_id e = of_nat l"
    using assms(2,6) by (auto simp: fd_captured_def pipe_at_def split: option.splits if_splits)
  have "k < 2 ^ 32" "l < 2 ^ 32" using k l assms(4) by (auto simp: NOFILE_def)
  then have "(of_nat k :: uint) = of_nat l \<longleftrightarrow> k = l" by (simp add: word_of_nat_eq_iff take_bit_nat_eq_self)
  then show ?thesis using k l assms(3) by (simp add: nth_eq_iff_index_eq)
qed

lemma card_ends_split:
  assumes "finite E" "card E = 2" "card (E \<inter> R) = 1" "card (E \<inter> W) = 1" "\<And>i. i \<in> E \<Longrightarrow> i \<in> R \<longleftrightarrow> i \<notin> W" "i \<in> E"
  obtains j where "j \<noteq> i" "E = {i, j}" "i \<in> R \<and> i \<notin> W \<and> j \<in> W \<and> j \<notin> R \<or> i \<in> W \<and> i \<notin> R \<and> j \<in> R \<and> j \<notin> W"
proof -
  obtain j where j: "j \<noteq> i" "E = {i, j}" using assms(2,6) by (auto simp: card_2_iff doubleton_eq_iff) (metis insert_commute)
  have "\<not> (i \<in> R \<and> j \<in> R)" using assms(3) j by (auto simp: Int_insert_left)
  moreover have "\<not> (i \<in> W \<and> j \<in> W)" using assms(4) j by (auto simp: Int_insert_left)
  ultimately show thesis using that [OF j] assms(5) [of i] assms(5) [of j] j by auto
qed

lemma captured_paired:
  assumes "cap_inv s p {0..<NOFILE} c" "list_all (\<lambda>(q, n, r, w). n = 2 \<and> r = 1 \<and> w = 1) (cap_pipes c)"
  shows "paired (cap_fds c)"
  unfolding paired_def
proof (intro allI impI)
  fix i assume i: "i < NOFILE" "cf_type (cap_fds c i) = 1"
  let ?qs = "map fst (cap_pipes c)"
  have cap: "fd_captured s p ?qs k (cap_fds c k)" if "k < NOFILE" for k using assms(1) that by (simp add: cap_inv_def)
  have d: "distinct ?qs" "length ?qs \<le> NOFILE" using assms(1) by (simp_all add: cap_inv_def)
  obtain q where q: "pipe_at s p i = Some q" using fd_captured_type1 [OF cap [OF i(1)]] i(2) by auto
  then obtain e where e: "e \<in> set (cap_pipes c)" "fst e = q" using fd_captured_pipe [OF cap [OF i(1)] q] by auto
  let ?E = "ends s p {0..<NOFILE} q"
  have "e = (q, card ?E, card (?E \<inter> Collect (rd_end s p)), card (?E \<inter> Collect (wr_end s p)))"
    using assms(1) e unfolding cap_inv_def by blast
  moreover have "case e of (q, n, r, w) \<Rightarrow> n = 2 \<and> r = 1 \<and> w = 1" using assms(2) e(1) by (simp add: list_all_iff)
  ultimately have n: "card ?E = 2" "card (?E \<inter> Collect (rd_end s p)) = 1" "card (?E \<inter> Collect (wr_end s p)) = 1" by auto
  have E: "finite ?E" "i \<in> ?E" using i(1) q by (auto simp: ends_def)
  have rw: "k \<in> Collect (rd_end s p) \<longleftrightarrow> k \<notin> Collect (wr_end s p)" if "k \<in> ?E" for k
    using assms(1) that by (auto simp: cap_inv_def ends_def)
  obtain j where j: "j \<noteq> i" "?E = {i, j}" and side:
    "i \<in> Collect (rd_end s p) \<and> i \<notin> Collect (wr_end s p) \<and> j \<in> Collect (wr_end s p) \<and> j \<notin> Collect (rd_end s p) \<or>
     i \<in> Collect (wr_end s p) \<and> i \<notin> Collect (rd_end s p) \<and> j \<in> Collect (rd_end s p) \<and> j \<notin> Collect (wr_end s p)"
    by (rule card_ends_split [OF E(1) n rw E(2)])
  have jn: "j < NOFILE" "pipe_at s p j = Some q" using j(2) by (auto simp: ends_def)
  have "k \<in> same_pipe (cap_fds c) i \<longleftrightarrow> k \<in> ?E" for k
    using fd_captured_type1 [OF cap, of k] fd_captured_id [OF cap [of k] cap [OF i(1)] d] q
    by (auto simp: same_pipe_def ends_def)
  then have "same_pipe (cap_fds c) i = {i, j}" using j(2) by auto
  then show "\<exists>j<NOFILE. j \<noteq> i \<and> same_pipe (cap_fds c) i = {i, j} \<and>
        (pipe_side (cap_fds c i) = Some True \<and> pipe_side (cap_fds c j) = Some False \<or>
         pipe_side (cap_fds c i) = Some False \<and> pipe_side (cap_fds c j) = Some True)"
    using jn j(1) side fd_captured_side [OF cap [OF i(1)]] fd_captured_side [OF cap [OF jn(1)]] q by auto
qed

section \<open>Rebuilding the pipes\<close>

definition free_files :: "'a kfile_scheme \<Rightarrow> nat set" where
  "free_files s = {f. f < NFILE \<and> f_ref (ftable s f) = 0}"

lemma finite_free_files [simp]: "finite (free_files s)"
  by (simp add: free_files_def)

lemma filealloc_free:
  assumes "free_files s \<noteq> {}"
  obtains f where "f \<in> free_files s" "filealloc s = (Some f, upd_file f (f_ref_update (\<lambda>_. 1)) s)"
proof (cases "find (\<lambda>i. f_ref (ftable s i) = 0) [0..<NFILE]")
  case None
  then show thesis using assms by (auto simp: find_upt_None free_files_def)
next
  case (Some f)
  show thesis
  proof (rule that)
    show "f \<in> free_files s" using Some by (simp add: find_upt_Some free_files_def)
    show "filealloc s = (Some f, upd_file f (f_ref_update (\<lambda>_. 1)) s)" using Some by (simp add: filealloc_def)
  qed
qed

lemma free_files_upd: "f \<in> free_files s \<Longrightarrow> f_ref (h (ftable s f)) \<noteq> 0 \<Longrightarrow> free_files (upd_file f h s) = free_files s - {f}"
  by (auto simp: free_files_def upd_file_def)

definition pipe_end :: "bool \<Rightarrow> uint64 \<Rightarrow> filerec \<Rightarrow> filerec" where
  "pipe_end r q x = x\<lparr>f_ref := 1, f_type := FD_PIPE, f_readable := (if r then 1 else 0), f_writable := (if r then 0 else 1), f_pipe := q\<rparr>"

lemma pipealloc_succeeds:
  assumes "2 \<le> card (free_files s)" "freepages s (q # qs)"
  obtains a b where "a \<in> free_files s" "b \<in> free_files s" "a \<noteq> b"
    "pipealloc s = Ok (Some (a, b), s\<lparr>freelist := rd64 (mem s) (unat q), pipes := (pipes s)(q := new_pipe (mem s) q),
       ftable := (ftable s)(a := pipe_end True q (ftable s a), b := pipe_end False q (ftable s b))\<rparr>)"
proof -
  have "free_files s \<noteq> {}" using assms(1) by auto
  from filealloc_free [OF this] obtain a where a: "a \<in> free_files s" "filealloc s = (Some a, upd_file a (f_ref_update (\<lambda>_. 1)) s)" by blast
  let ?s = "upd_file a (f_ref_update (\<lambda>_. 1)) s"
  have f: "free_files ?s = free_files s - {a}" using a(1) by (rule free_files_upd) simp
  moreover have "free_files s - {a} \<noteq> {}" using assms(1) a(1) card_Diff_singleton [OF a(1)] by (metis card.empty One_nat_def Suc_1 diff_is_0_eq not_less_eq_eq)
  ultimately obtain b where b: "b \<in> free_files s" "b \<noteq> a" "filealloc ?s = (Some b, upd_file b (f_ref_update (\<lambda>_. 1)) ?s)"
    using filealloc_free [of ?s] by (metis Diff_iff insert_iff)
  let ?t = "upd_file b (f_ref_update (\<lambda>_. 1)) ?s"
  have "freepages ?t = freepages s" by (simp add: freepages_def page_ok_def upd_file_def fun_eq_iff)
  then have "freepages ?t (q # qs)" using assms(2) by simp
  note k = kalloc_Cons [OF this]
  have "q \<noteq> 0" using assms(2) unfolding freepages_def chain.simps by blast
  then show thesis
    using a b k(1) by (intro that [of a b]) (auto simp: pipealloc_def upd_file_def upd_pipe_def pipe_end_def Let_def)
qed

text \<open>
  The state of the rebuilding: the descriptors \<open>A\<close> have their file; \<open>U\<close> and \<open>F\<close> are the descriptor and
  the file table, \<open>F0\<close> the file table before, \<open>P\<close> the pipes and \<open>qs\<close> the free pages.
\<close>

definition empty_pipe :: "pipe \<Rightarrow> bool" where
  "empty_pipe x \<longleftrightarrow> pi_nread x = 0 \<and> pi_nwrite x = 0 \<and> pi_readopen x \<and> pi_writeopen x"

definition end_ok :: "(nat \<Rightarrow> ckpt_fd) \<Rightarrow> (nat \<Rightarrow> filerec) \<Rightarrow> (nat \<Rightarrow> filerec) \<Rightarrow> (uint64 \<Rightarrow> pipe) \<Rightarrow> uint64 list \<Rightarrow> nat \<Rightarrow> nat \<Rightarrow> bool" where
  "end_ok fds F0 F P qs i f \<longleftrightarrow> f < NFILE \<and> f_ref (F0 f) = 0 \<and> f_ref (F f) = 1 \<and> f_type (F f) = FD_PIPE \<and>
     (pipe_side (fds i) = Some (f_readable (F f) \<noteq> 0)) \<and> (f_writable (F f) = 0) = (f_readable (F f) \<noteq> 0) \<and>
     empty_pipe (P (f_pipe (F f))) \<and> f_pipe (F f) \<notin> set qs"

definition rebuilt :: "(nat \<Rightarrow> ckpt_fd) \<Rightarrow> (nat \<Rightarrow> filerec) \<Rightarrow> nat set \<Rightarrow> (nat \<Rightarrow> nat option) \<Rightarrow> (nat \<Rightarrow> filerec) \<Rightarrow>
    (uint64 \<Rightarrow> pipe) \<Rightarrow> uint64 list \<Rightarrow> bool" where
  "rebuilt fds F0 A U F P qs \<longleftrightarrow>
     (\<forall>i\<in>A. \<exists>f. U i = Some f \<and> end_ok fds F0 F P qs i f) \<and>
     (\<forall>i\<in>A. \<forall>j\<in>A. (U i = U j \<longleftrightarrow> i = j) \<and>
        (f_pipe (F (the (U i))) = f_pipe (F (the (U j))) \<longleftrightarrow> cf_pipe_id (fds i) = cf_pipe_id (fds j))) \<and>
     (\<forall>f. f_ref (F0 f) \<noteq> 0 \<or> NFILE \<le> f \<longrightarrow> F f = F0 f)"

lemma rebuilt_add:
  assumes r: "rebuilt fds F0 A U F P (q # qs)" and q: "q \<notin> set qs"
    and i: "i \<notin> A" "j \<notin> A" "i \<noteq> j" "cf_pipe_id (fds j) = cf_pipe_id (fds i)" "\<forall>k\<in>A. cf_pipe_id (fds k) \<noteq> cf_pipe_id (fds i)"
    and f: "a < NFILE" "b < NFILE" "f_ref (F a) = 0" "f_ref (F b) = 0" "a \<noteq> b"
    and side: "pipe_side (fds i) = Some d" "pipe_side (fds j) = Some (\<not> d)"
  shows "rebuilt fds F0 (A \<union> {i, j}) (U(i := Some (if d then a else b), j := Some (if d then b else a)))
    (F(a := pipe_end True q (F a), b := pipe_end False q (F b))) (P(q := new_pipe m q)) qs"
proof -
  let ?U = "U(i := Some (if d then a else b), j := Some (if d then b else a))"
  let ?F = "F(a := pipe_end True q (F a), b := pipe_end False q (F b))" and ?P = "P(q := new_pipe m q)"
  note r1 = r [unfolded rebuilt_def, THEN conjunct1] and r2 = r [unfolded rebuilt_def, THEN conjunct2, THEN conjunct1]
    and r3 = r [unfolded rebuilt_def, THEN conjunct2, THEN conjunct2]
  have z: "f_ref (F0 a) = 0" "f_ref (F0 b) = 0" using r3 f by force+
  have new: "end_ok fds F0 ?F ?P qs i (if d then a else b)" "end_ok fds F0 ?F ?P qs j (if d then b else a)"
    using f side q z by (auto simp: end_ok_def pipe_end_def empty_pipe_def new_pipe_def)
  have old: "\<exists>g. ?U k = Some g \<and> U k = Some g \<and> end_ok fds F0 ?F ?P qs k g \<and> ?F g = F g \<and> f_pipe (F g) \<noteq> q \<and> g \<noteq> a \<and> g \<noteq> b"
    if kA: "k \<in> A" for k
  proof -
    obtain g where g: "U k = Some g" "end_ok fds F0 F P (q # qs) k g" using bspec [OF r1 kA] by blast
    then have "g \<noteq> a" "g \<noteq> b" "k \<noteq> i" "k \<noteq> j" using f i kA by (auto simp: end_ok_def)
    then show ?thesis using g by (auto simp: end_ok_def)
  qed
  have pq: "f_pipe (?F (the (?U i))) = q" "f_pipe (?F (the (?U j))) = q" using f(5) i(3) by (auto simp: pipe_end_def)
  have cross: "?U k \<noteq> ?U i \<and> ?U k \<noteq> ?U j \<and> f_pipe (?F (the (?U k))) \<noteq> q" if "k \<in> A" for k
    using old [OF that] f(5) i(3) by auto
  have oo: "(?U k = ?U l \<longleftrightarrow> k = l) \<and> (f_pipe (?F (the (?U k))) = f_pipe (?F (the (?U l))) \<longleftrightarrow> cf_pipe_id (fds k) = cf_pipe_id (fds l))"
    if kl: "k \<in> A" "l \<in> A" for k l
  proof -
    obtain g where g: "?U k = Some g" "U k = Some g" "?F g = F g" using old [OF kl(1)] by blast
    obtain h where h: "?U l = Some h" "U l = Some h" "?F h = F h" using old [OF kl(2)] by blast
    have "(U k = U l \<longleftrightarrow> k = l) \<and> (f_pipe (F (the (U k))) = f_pipe (F (the (U l))) \<longleftrightarrow> cf_pipe_id (fds k) = cf_pipe_id (fds l))"
      by (rule bspec [OF bspec [OF r2 kl(1)] kl(2)])
    then show ?thesis unfolding g h option.sel .
  qed
  have "\<exists>g. ?U k = Some g \<and> end_ok fds F0 ?F ?P qs k g" if "k \<in> A \<union> {i, j}" for k
    using that new old i(3) by auto
  moreover have "(?U k = ?U l \<longleftrightarrow> k = l) \<and> (f_pipe (?F (the (?U k))) = f_pipe (?F (the (?U l))) \<longleftrightarrow> cf_pipe_id (fds k) = cf_pipe_id (fds l))"
    if "k \<in> A \<union> {i, j}" "l \<in> A \<union> {i, j}" for k l
  proof -
    have ij: "?U i \<noteq> ?U j" using f(5) i(3) by auto
    consider "k \<in> A" "l \<in> A" | "k \<in> A" "l = i \<or> l = j" | "k = i \<or> k = j" "l \<in> A" | "k = i \<or> k = j" "l = i \<or> l = j"
      using \<open>k \<in> A \<union> {i, j}\<close> \<open>l \<in> A \<union> {i, j}\<close> by blast
    then show ?thesis
    proof cases
      case 1
      then show ?thesis by (rule oo)
    next
      case 2
      then show ?thesis using cross [of k] pq i by metis
    next
      case 3
      then show ?thesis using cross [of l] pq i by metis
    next
      case 4
      then show ?thesis using ij pq i by metis
    qed
  qed
  moreover have "?F g = F0 g" if "f_ref (F0 g) \<noteq> 0 \<or> NFILE \<le> g" for g
    using that z f r3 by auto
  ultimately show ?thesis unfolding rebuilt_def by blast
qed

lemma find_only:
  assumes "j \<in> set xs" "P j" "\<And>x. x \<in> set xs \<Longrightarrow> P x \<Longrightarrow> x = j"
  shows "find P xs = Some j"
proof (cases "find P xs")
  case None
  then show ?thesis using assms(1,2) by (simp add: find_None_iff)
next
  case (Some x)
  then have "x \<in> set xs" "P x" by (auto simp: find_Some_iff)
  then show ?thesis using Some assms(3) by simp
qed

definition pipe_fds :: "(nat \<Rightarrow> ckpt_fd) \<Rightarrow> nat set" where
  "pipe_fds fds = {i. i < NOFILE \<and> cf_type (fds i) = 1}"

lemma finite_pipe_fds [simp]: "finite (pipe_fds fds)"
  by (simp add: pipe_fds_def)

text \<open>Where the loop is, with \<open>A\<close> the descriptors that have their file and what is left of files and pages.\<close>

definition rebuilding :: "(nat \<Rightarrow> ckpt_fd) \<Rightarrow> (nat \<Rightarrow> filerec) \<Rightarrow> nat \<Rightarrow> nat set \<Rightarrow> uint64 list \<Rightarrow> 'a kfile_scheme \<Rightarrow> bool" where
  "rebuilding fds F0 np A qs s \<longleftrightarrow> A \<subseteq> pipe_fds fds \<and> (\<forall>i\<in>A. same_pipe fds i \<subseteq> A) \<and>
     (\<forall>i\<in>pipe_fds fds - A. p_ofile (procs s np) i = None) \<and>
     rebuilt fds F0 A (p_ofile (procs s np)) (ftable s) (pipes s) qs \<and> freepages s qs \<and>
     card (pipe_fds fds - A) \<le> card (free_files s) \<and> card (pipe_fds fds - A) \<le> 2 * length qs"

lemma partner:
  assumes "paired fds" "k \<in> pipe_fds fds" "k \<notin> A" "\<forall>i\<in>A. same_pipe fds i \<subseteq> A" "\<And>i. i \<in> pipe_fds fds \<Longrightarrow> i < k \<Longrightarrow> i \<in> A"
  obtains j d where "j \<in> pipe_fds fds" "j \<notin> A" "k < j" "same_pipe fds k = {k, j}" "same_pipe fds j = {k, j}"
    "pipe_side (fds k) = Some d" "pipe_side (fds j) = Some (\<not> d)" "\<forall>i\<in>A. cf_pipe_id (fds i) \<noteq> cf_pipe_id (fds k)"
    "card (pipe_fds fds - A) = card (pipe_fds fds - (A \<union> {k, j})) + 2"
proof -
  obtain j where j: "j < NOFILE" "j \<noteq> k" "same_pipe fds k = {k, j}" and
    side: "pipe_side (fds k) = Some True \<and> pipe_side (fds j) = Some False \<or> pipe_side (fds k) = Some False \<and> pipe_side (fds j) = Some True"
    using assms(1,2) unfolding paired_def pipe_fds_def by blast
  have "j \<in> same_pipe fds k" using j(3) by simp
  then have jt: "cf_type (fds j) = 1" "cf_pipe_id (fds j) = cf_pipe_id (fds k)" by (simp_all add: same_pipe_def)
  have jp: "j \<in> pipe_fds fds" using j(1) jt by (simp add: pipe_fds_def)
  have sj: "same_pipe fds j = {k, j}" using j(3) jt(2) by (simp add: same_pipe_def)
  then have jA: "j \<notin> A" using assms(3,4) by auto
  have "k < j" using assms(5) [OF jp] j(2) jA by linarith
  moreover have "cf_pipe_id (fds i) \<noteq> cf_pipe_id (fds k)" if "i \<in> A" for i
    using bspec [OF assms(4) that] assms(2,3) by (auto simp: same_pipe_def pipe_fds_def)
  moreover have "card (pipe_fds fds - A) = card (pipe_fds fds - (A \<union> {k, j})) + 2"
  proof -
    have "pipe_fds fds - A = insert k (insert j (pipe_fds fds - (A \<union> {k, j})))" using assms(2,3) jp jA by auto
    also have "card \<dots> = card (pipe_fds fds - (A \<union> {k, j})) + 2" using j(2) by simp
    finally show ?thesis .
  qed
  moreover define d where "d = (pipe_side (fds k) = Some True)"
  with side have "pipe_side (fds k) = Some d" "pipe_side (fds j) = Some (\<not> d)" by auto
  ultimately show thesis using that [OF jp jA _ j(3) sj] by blast
qed

lemma set_ofile_two:
  "set_ofile np j y (set_ofile np i x s) = s\<lparr>procs := (procs s)(np := (procs s np)\<lparr>p_ofile := (p_ofile (procs s np))(i := x, j := y)\<rparr>)\<rparr>"
  by (cases "procs s np") (simp add: set_ofile_def upd_proc_def)

lemma restore_pipes_step:
  assumes "rebuilding fds F0 np A qs s" "paired fds" "k \<in> pipe_fds fds" "k \<notin> A" "\<And>i. i \<in> pipe_fds fds \<Longrightarrow> i < k \<Longrightarrow> i \<in> A"
  obtains s' j qs' where "restore_pipes (k # is) fds np s = restore_pipes is fds np s'" "rebuilding fds F0 np (A \<union> {k, j}) qs' s'"
    "\<And>i. i \<notin> pipe_fds fds \<Longrightarrow> p_ofile (procs s' np) i = p_ofile (procs s np) i"
proof -
  have r: "rebuilt fds F0 A (p_ofile (procs s np)) (ftable s) (pipes s) qs" and fp: "freepages s qs"
    and n: "card (pipe_fds fds - A) \<le> card (free_files s)" "card (pipe_fds fds - A) \<le> 2 * length qs"
    and A: "A \<subseteq> pipe_fds fds" "\<forall>i\<in>A. same_pipe fds i \<subseteq> A"
    and none: "\<And>i. i \<in> pipe_fds fds \<Longrightarrow> i \<notin> A \<Longrightarrow> p_ofile (procs s np) i = None"
    using assms(1) unfolding rebuilding_def by auto
  obtain j d where j: "j \<in> pipe_fds fds" "j \<notin> A" "k < j" "same_pipe fds k = {k, j}" "same_pipe fds j = {k, j}"
    and sd: "pipe_side (fds k) = Some d" "pipe_side (fds j) = Some (\<not> d)" and ids: "\<forall>i\<in>A. cf_pipe_id (fds i) \<noteq> cf_pipe_id (fds k)"
    and c: "card (pipe_fds fds - A) = card (pipe_fds fds - (A \<union> {k, j})) + 2"
    by (rule partner [OF assms(2,3,4) A(2) assms(5)])
  have jt: "cf_type (fds j) = 1 \<and> cf_pipe_id (fds j) = cf_pipe_id (fds k)" using j(4) by (auto simp: same_pipe_def)
  have f: "find (\<lambda>j. cf_type (fds j) = 1 \<and> cf_pipe_id (fds j) = cf_pipe_id (fds k) \<and> p_ofile (procs s np) j = None) [k + 1..<NOFILE] = Some j"
  proof (rule find_only)
    fix x assume "x \<in> set [k + 1..<NOFILE]" "cf_type (fds x) = 1 \<and> cf_pipe_id (fds x) = cf_pipe_id (fds k) \<and> p_ofile (procs s np) x = None"
    then have "x \<in> same_pipe fds k" "x \<noteq> k" by (auto simp: same_pipe_def)
    then show "x = j" using j(4) by simp
  qed (use j(1,3) jt none [OF j(1,2)] in \<open>auto simp: pipe_fds_def\<close>)
  have "2 \<le> card (free_files s)" using n c by linarith
  obtain q qs' where qs: "qs = q # qs'" using n(2) c by (cases qs) auto
  obtain a b where ab: "a \<in> free_files s" "b \<in> free_files s" "a \<noteq> b" and
    p: "pipealloc s = Ok (Some (a, b), s\<lparr>freelist := rd64 (mem s) (unat q), pipes := (pipes s)(q := new_pipe (mem s) q),
       ftable := (ftable s)(a := pipe_end True q (ftable s a), b := pipe_end False q (ftable s b))\<rparr>)"
    by (rule pipealloc_succeeds [OF \<open>2 \<le> card (free_files s)\<close> fp [unfolded qs]])
  let ?O = "(p_ofile (procs s np))(k := Some (if d then a else b), j := Some (if d then b else a))"
  let ?F = "(ftable s)(a := pipe_end True q (ftable s a), b := pipe_end False q (ftable s b))"
  define s' where "s' = s\<lparr>freelist := rd64 (mem s) (unat q), pipes := (pipes s)(q := new_pipe (mem s) q),
       ftable := ?F, procs := (procs s)(np := (procs s np)\<lparr>p_ofile := ?O\<rparr>)\<rparr>"
  have r': "rebuilt fds F0 (A \<union> {k, j}) ?O ?F ((pipes s)(q := new_pipe (mem s) q)) qs'"
    by (rule rebuilt_add) (use r fp ab assms(4) j jt ids sd in \<open>auto simp: qs free_files_def freepages_def\<close>)
  have "free_files s' = free_files s - {a, b}" by (auto simp: s'_def free_files_def pipe_end_def)
  then have "card (free_files s') = card (free_files s) - 2" using ab by (simp add: card_Diff_subset)
  moreover have "freepages s' qs'" using kalloc_Cons(2) [OF fp [unfolded qs]] by (simp add: s'_def freepages_def page_ok_def)
  ultimately have "rebuilding fds F0 np (A \<union> {k, j}) qs' s'"
    using r' A assms(3) j n c none unfolding rebuilding_def by (auto simp: qs s'_def)
  moreover have "restore_pipes (k # is) fds np s = restore_pipes is fds np s'"
    using assms(3) none [OF assms(3,4)] f p sd j(3) by (simp add: pipe_fds_def set_ofile_two s'_def Let_def)
  moreover have "p_ofile (procs s' np) i = p_ofile (procs s np) i" if "i \<notin> pipe_fds fds" for i
    using that assms(3) j(1) by (auto simp: s'_def)
  ultimately show thesis using that by blast
qed

lemma restore_pipes_from:
  assumes "rebuilding fds F0 np A qs s" "paired fds" "k \<le> NOFILE" "\<And>i. i \<in> pipe_fds fds \<Longrightarrow> i < k \<Longrightarrow> i \<in> A"
  shows "\<exists>s' qs'. restore_pipes [k..<NOFILE] fds np s = Ok (True, s') \<and> rebuilding fds F0 np (pipe_fds fds) qs' s' \<and>
    (\<forall>i. i \<notin> pipe_fds fds \<longrightarrow> p_ofile (procs s' np) i = p_ofile (procs s np) i)"
  using assms(1,3,4)
proof (induction "NOFILE - k" arbitrary: k A qs s)
  case 0
  then have "A = pipe_fds fds" by (auto simp: rebuilding_def pipe_fds_def)
  then show ?case using 0 by auto
next
  case (Suc n)
  then have e: "[k..<NOFILE] = k # [Suc k..<NOFILE]" and k: "Suc k \<le> NOFILE" "n = NOFILE - Suc k" by (simp_all add: upt_rec)
  show ?case
  proof (cases "k \<in> pipe_fds fds \<and> k \<notin> A")
    case False
    then have "cf_type (fds k) \<noteq> 1 \<or> p_ofile (procs s np) k \<noteq> None"
      using Suc.prems(1) k(1) by (auto simp: rebuilding_def rebuilt_def pipe_fds_def)
    then have "restore_pipes [k..<NOFILE] fds np s = restore_pipes [Suc k..<NOFILE] fds np s" unfolding e by simp
    moreover have "i \<in> A" if "i \<in> pipe_fds fds" "i < Suc k" for i using that Suc.prems(3) False by (cases "i = k") auto
    ultimately show ?thesis using Suc.hyps(1) [OF k(2) Suc.prems(1) k(1)] by simp
  next
    case True
    obtain s' j qs' where s': "restore_pipes (k # [Suc k..<NOFILE]) fds np s = restore_pipes [Suc k..<NOFILE] fds np s'"
      "rebuilding fds F0 np (A \<union> {k, j}) qs' s'" "\<And>i. i \<notin> pipe_fds fds \<Longrightarrow> p_ofile (procs s' np) i = p_ofile (procs s np) i"
      using restore_pipes_step [OF Suc.prems(1) assms(2) _ _ Suc.prems(3)] True by metis
    have "i \<in> A \<union> {k, j}" if "i \<in> pipe_fds fds" "i < Suc k" for i using that Suc.prems(3) by (cases "i = k") auto
    then show ?thesis using Suc.hyps(1) [OF k(2) s'(2) k(1)] s'(1,3) unfolding e by auto
  qed
qed

section \<open>Properties\<close>

text \<open>
  C2. A checkpoint describes every open file.  When the scan of the descriptors succeeds, the entry of
  each descriptor says whether it is open, with its type, access and, for a file, its inode and
  offset, for a device its inode and major number; two pipe entries have the same identifier exactly
  when they are ends of the same pipe, and every recorded pipe has exactly one read end and one write end.
\<close>

theorem checkpoint_captures_descriptors:
  assumes "capture_all p s = Some c"
  shows "(\<exists>qs. \<forall>i<NOFILE. fd_captured s p qs i (cap_fds c i)) \<and> paired (cap_fds c) \<and>
    (\<forall>i<NOFILE. \<forall>j<NOFILE. pipe_at s p i \<noteq> None \<and> pipe_at s p j \<noteq> None \<longrightarrow>
       (cf_pipe_id (cap_fds c i) = cf_pipe_id (cap_fds c j) \<longleftrightarrow> pipe_at s p i = pipe_at s p j))"
proof -
  let ?c0 = "\<lparr>cap_fds = (\<lambda>_. no_ckpt_fd), cap_pipes = [], cap_num = 0\<rparr>"
  have c: "capture_fds [0..<NOFILE] p s ?c0 = Some c" and l: "list_all (\<lambda>(q, n, r, w). n = 2 \<and> r = 1 \<and> w = 1) (cap_pipes c)"
    using assms by (auto simp: capture_all_def split: option.splits if_splits)
  have "cap_inv s p {} ?c0" by (simp add: cap_inv_def)
  from cap_inv_fds [OF this c] have inv: "cap_inv s p {0..<NOFILE} c" by simp
  then have cap: "\<And>i. i < NOFILE \<Longrightarrow> fd_captured s p (map fst (cap_pipes c)) i (cap_fds c i)"
    and d: "distinct (map fst (cap_pipes c))" "length (map fst (cap_pipes c)) \<le> NOFILE"
    by (simp_all add: cap_inv_def)
  show ?thesis using captured_paired [OF inv l] cap fd_captured_id [OF cap cap d] by blast
qed

text \<open>Witness for C1: a process with the two ends of a pipe as descriptors 0 and 1.\<close>

definition ex_pipe_state :: kfile where
  "ex_pipe_state = ex_kfile\<lparr>
     procs := (\<lambda>_. zero_proc\<lparr>p_ofile := (\<lambda>_. None)(0 := Some 0, 1 := Some 1)\<rparr>),
     ftable := (\<lambda>f. \<lparr>f_type = FD_PIPE, f_ref = 1, f_readable = (if f = 0 then 1 else 0), f_writable = (if f = 0 then 0 else 1),
                   f_pipe = 0x87ff1000, f_ip = 0, f_off = 0, f_major = 0\<rparr>)\<rparr>"

lemma ex_pipe_state_capture:
  "\<exists>c. capture_all 0 ex_pipe_state = Some c"
  by (simp add: capture_all_def ex_pipe_state_def NOFILE_def upt_rec capture_fd_def capture_pipe_def zero_proc_def no_ckpt_fd_def)

theorem checkpoint_captures_descriptors_witness:
  "\<exists>c. capture_all 0 ex_pipe_state = Some c \<and> paired (cap_fds c)"
  using checkpoint_captures_descriptors [of 0 ex_pipe_state] ex_pipe_state_capture by blast


text \<open>Witness for C2: one pipe, its read end recorded as descriptor 0 and its write end as 1.\<close>

definition ex_pipe_fds :: "nat \<Rightarrow> ckpt_fd" where
  "ex_pipe_fds = (\<lambda>_. no_ckpt_fd)(
     0 := no_ckpt_fd\<lparr>cf_type := 1, cf_readable := 1, cf_pipe_id := 0\<rparr>,
     1 := no_ckpt_fd\<lparr>cf_type := 1, cf_writable := 1, cf_pipe_id := 0\<rparr>)"

lemma ex_pipe_fds_pipes: "pipe_fds ex_pipe_fds = {0, 1}"
  by (auto simp: pipe_fds_def ex_pipe_fds_def no_ckpt_fd_def NOFILE_def split: if_splits)

lemma ex_pipe_fds_paired: "paired ex_pipe_fds"
proof -
  have "same_pipe ex_pipe_fds i = {0, 1}" if "i = 0 \<or> i = 1" for i
    using that by (auto simp: same_pipe_def ex_pipe_fds_def no_ckpt_fd_def NOFILE_def split: if_splits)
  moreover have "i = 0 \<or> i = 1" if "i < NOFILE" "cf_type (ex_pipe_fds i) = 1" for i
    using that ex_pipe_fds_pipes by (auto simp: pipe_fds_def)
  moreover have "pipe_side (ex_pipe_fds 0) = Some True" "pipe_side (ex_pipe_fds 1) = Some False"
    by (simp_all add: pipe_side_def ex_pipe_fds_def no_ckpt_fd_def)
  ultimately show ?thesis unfolding paired_def by (metis NOFILE_def insert_commute zero_neq_one zero_less_numeral one_less_numeral_iff semiring_norm(76))
qed


end
