(* ===== verification/Procwait.thy ===== *)
theory Procwait
  imports Procalloc
begin

text \<open>
  \<^verbatim>\<open>kill\<close> and \<^verbatim>\<open>wait\<close> of \<^verbatim>\<open>kernel/proc.c\<close>: their loops over the process table compute what a look at
  the whole table would, and the process table in use stays well formed.
\<close>

section \<open>wait\<close>

definition reap :: "nat \<Rightarrow> nat \<Rightarrow> uint64 \<Rightarrow> 'a kproc_scheme \<Rightarrow> ((int + bool) \<times> 'a kproc_scheme) res" where
  "reap z p addr s1 =
     (let pid = p_pid (procs s1 z) in
      bnd (if addr \<noteq> 0
           then copyout (p_pagetable (procs s1 p)) addr (getl (wr32 (\<lambda>_. 0) 0 (word_of_int (p_xstate (procs s1 z)))) 0 4) s1
           else Ok (0, s1)) (\<lambda>(r, s2).
        if r < 0 then bnd (release_proc z s2) (\<lambda>s3. bnd (release_wait s3) (\<lambda>s4. Ok (Inl (-1), s4)))
        else bnd (freeproc z s2) (\<lambda>s3. bnd (release_proc z s3) (\<lambda>s4. bnd (release_wait s4) (\<lambda>s5. Ok (Inl pid, s5))))))"

definition zombie_child :: "nat \<Rightarrow> 'a kproc_scheme \<Rightarrow> nat \<Rightarrow> bool" where
  "zombie_child p s i \<longleftrightarrow> p_parent (procs s i) = Some p \<and> p_state (procs s i) = ZOMBIE"

lemma kwait_scan_find:
  assumes "\<forall>i<NPROC. p_lock (procs s i) = initlock" "cpu_ok (thiscpu s)" "set ps \<subseteq> {..<NPROC}" "settle s = s"
  shows "kwait_scan ps p addr kids s =
    (case find (zombie_child p s) ps of
       None \<Rightarrow> Ok (Inr (kids \<or> (\<exists>i\<in>set ps. p_parent (procs s i) = Some p)), s)
     | Some z \<Rightarrow> reap z p addr (enter z s))"
  using assms(3)
proof (induction ps arbitrary: kids)
  case (Cons i ps)
  then have l: "p_lock (procs s i) = initlock" using assms(1) by simp
  note a = acquire_enter [OF l] and k = look [OF l assms(2), unfolded assms(4)]
  show ?case
  proof (cases "p_parent (procs s i) = Some p")
    case True
    then show ?thesis using Cons by (cases "p_state (procs s i) = ZOMBIE") (simp_all add: a k zombie_child_def reap_def Let_def split: option.split)
  next
    case False
    then show ?thesis using Cons by (simp add: zombie_child_def split: option.split)
  qed
qed simp

lemma settled_push [simp]: "cpu_ok c \<Longrightarrow> settled (push_off c) = push_off c"
  by (cases c) (auto simp: settled_def push_off_def cpu_ok_def Let_def)

text \<open>The state in which \<^verbatim>\<open>kwait\<close> scans: \<^verbatim>\<open>wait_lock\<close> is held.\<close>

definition waiting :: "'a kproc_scheme \<Rightarrow> 'a kproc_scheme" where
  "waiting s = s\<lparr>wait_lock := held (hart s), thiscpu := push_off (thiscpu s)\<rparr>"

lemma release_both:
  assumes "p_lock (procs s z) = held (hart s)" "wait_lock s = held (hart s)" "thiscpu s = push_off (push_off c)" "cpu_ok c"
  shows "bnd (release_proc z s) (\<lambda>s3. bnd (release_wait s3) (\<lambda>s4. Ok (r, s4))) =
    Ok (r, upd_proc z (\<lambda>x. x\<lparr>p_lock := initlock\<rparr>) (s\<lparr>wait_lock := initlock, thiscpu := settled c\<rparr>))"
proof -
  have "release_proc z s = Ok (leave z (push_off c) s)" by (rule release_leave) (use assms in simp_all)
  moreover have "release_wait (leave z (push_off c) s) = Ok ((leave z (push_off c) s)\<lparr>wait_lock := initlock, thiscpu := settled c\<rparr>)"
    by (rule release_wait_ok) (use assms in \<open>simp_all add: leave_def\<close>)
  ultimately show ?thesis by (simp add: leave_def upd_proc_def)
qed

lemma reap_Ok:
  assumes "quiet s" "z < NPROC" "reap z p addr (enter z (waiting s)) = Ok (x, s')"
  shows "(\<exists>m f. x = Inl (-1) \<and> s' = s\<lparr>mem := m, freelist := f, thiscpu := settled (thiscpu s)\<rparr>) \<or>
    (\<exists>m f. x = Inl (p_pid (procs s z)) \<and> s' = upd_proc z freed (s\<lparr>mem := m, freelist := f, thiscpu := settled (thiscpu s)\<rparr>))"
proof -
  let ?s1 = "enter z (waiting s)" and ?c = "thiscpu s"
  have l: "p_lock (procs s z) = initlock" "wait_lock s = initlock" "cpu_ok ?c" using assms(1,2) by (simp_all add: quiet_def)
  have pid: "p_pid (procs ?s1 z) = p_pid (procs s z)" by (simp add: enter_def waiting_def upd_proc_def)
  obtain r s2 where e: "(if addr \<noteq> 0
           then copyout (p_pagetable (procs ?s1 p)) addr (getl (wr32 (\<lambda>_. 0) 0 (word_of_int (p_xstate (procs ?s1 z)))) 0 4) ?s1
           else Ok (0, ?s1)) = Ok (r, s2)" and
    k: "(if r < 0 then bnd (release_proc z s2) (\<lambda>s3. bnd (release_wait s3) (\<lambda>s4. Ok (Inl (-1), s4)))
        else bnd (freeproc z s2) (\<lambda>s3. bnd (release_proc z s3) (\<lambda>s4. bnd (release_wait s4) (\<lambda>s5. Ok (Inl (p_pid (procs s z)), s5))))) = Ok (x, s')"
    using assms(3) unfolding reap_def Let_def pid by (auto elim!: bnd_eq_OkE)
  have "memonly ?s1 s2" using e givesD [OF copyout_gives [OF memonly_refl]] by (auto split: if_splits)
  then obtain m2 f2 where s2: "s2 = ?s1\<lparr>mem := m2, freelist := f2\<rparr>" by (auto simp: memonly_def)
  have h2: "p_lock (procs s2 z) = held (hart s2)" "wait_lock s2 = held (hart s2)" "thiscpu s2 = push_off (push_off ?c)"
    by (simp_all add: s2 waiting_def)
  show ?thesis
  proof (cases "r < 0")
    case True
    then have "x = Inl (-1)" "s' = upd_proc z (\<lambda>x. x\<lparr>p_lock := initlock\<rparr>) (s2\<lparr>wait_lock := initlock, thiscpu := settled ?c\<rparr>)"
      using k by (auto simp: release_both [OF h2 l(3)])
    moreover have "upd_proc z (\<lambda>x. x\<lparr>p_lock := initlock\<rparr>) (s2\<lparr>wait_lock := initlock, thiscpu := settled ?c\<rparr>) =
        s\<lparr>mem := m2, freelist := f2, thiscpu := settled ?c\<rparr>"
      by (rule kproc.equality) (use l in \<open>auto simp: s2 enter_def waiting_def upd_proc_def fun_eq_iff\<close>)
    ultimately show ?thesis by blast
  next
    case False
    then obtain s3 where s3: "freeproc z s2 = Ok s3" using k by (auto elim: bnd_eq_OkE)
    obtain m f where e3: "s3 = upd_proc z freed (s2\<lparr>mem := m, freelist := f\<rparr>)" using freeproc_Ok [OF s3] by blast
    have h3: "p_lock (procs s3 z) = held (hart s3)" "wait_lock s3 = held (hart s3)" "thiscpu s3 = push_off (push_off ?c)"
      using h2 by (simp_all add: e3 freed_def)
    have "x = Inl (p_pid (procs s z))" "s' = upd_proc z (\<lambda>x. x\<lparr>p_lock := initlock\<rparr>) (s3\<lparr>wait_lock := initlock, thiscpu := settled ?c\<rparr>)"
      using k False s3 by (auto simp: release_both [OF h3 l(3)])
    moreover have "upd_proc z (\<lambda>x. x\<lparr>p_lock := initlock\<rparr>) (s3\<lparr>wait_lock := initlock, thiscpu := settled ?c\<rparr>) =
        upd_proc z freed (s\<lparr>mem := m, freelist := f, thiscpu := settled ?c\<rparr>)"
      by (rule kproc.equality) (use l in \<open>auto simp: e3 s2 enter_def waiting_def upd_proc_def freed_def fun_eq_iff\<close>)
    ultimately show ?thesis by blast
  qed
qed

lemma atLeastLessThan_subset: "set [0..<n] \<subseteq> {..<n::nat}"
  by auto

lemma kwait_Ok:
  assumes "quiet s" "cpu_proc s = Some p" "kwait addr s = Ok (r, s')"
  shows "(\<exists>z m f. z < NPROC \<and> zombie_child p s z \<and> r = p_pid (procs s z) \<and>
       s' = upd_proc z freed (s\<lparr>mem := m, freelist := f, thiscpu := settled (thiscpu s)\<rparr>)) \<or>
    (\<exists>m f. r = -1 \<and> s' = s\<lparr>mem := m, freelist := f, thiscpu := settled (thiscpu s)\<rparr> \<and>
       ((\<exists>z<NPROC. zombie_child p s z) \<or> (\<forall>i<NPROC. p_parent (procs s i) \<noteq> Some p) \<or> killed p s))"
proof -
  let ?w = "waiting s"
  have w: "wait_lock s = initlock" "cpu_ok (thiscpu s)" "\<forall>i<NPROC. p_lock (procs ?w i) = initlock"
    using assms(1) by (simp_all add: quiet_def waiting_def)
  have a: "acquire_wait s = Ok ?w" using acquire_wait_ok [OF w(1)] by (simp add: waiting_def)
  have "settle ?w = ?w" "cpu_ok (thiscpu ?w)" using w(2) by (simp_all add: settle_def waiting_def)
  note scan = kwait_scan_find [OF w(3) this(2) atLeastLessThan_subset this(1), of p addr False]
  have z: "zombie_child p ?w = zombie_child p s" "procs ?w = procs s" by (simp_all add: zombie_child_def waiting_def fun_eq_iff)
  have kw: "bnd (kwait_scan [0..<NPROC] p addr False ?w) (\<lambda>(r, s2).
       case r of Inl pid \<Rightarrow> Ok (pid, s2)
       | Inr kids \<Rightarrow> if \<not> kids \<or> killed p s2 then bnd (release_wait s2) (\<lambda>s3. Ok (-1, s3)) else Wait ''wait'') = Ok (r, s')"
    using assms(2,3) by (simp add: kwait_def need_proc_def myproc_def a)
  show ?thesis
  proof (cases "find (zombie_child p s) [0..<NPROC]")
    case None
    then have "bnd (release_wait ?w) (\<lambda>s3. Ok (-1, s3)) = Ok (r, s') \<and> ((\<forall>i<NPROC. p_parent (procs s i) \<noteq> Some p) \<or> killed p s)"
      using kw unfolding scan z by (auto simp: z killed_def split: if_splits)
    moreover have "release_wait ?w = Ok (s\<lparr>thiscpu := settled (thiscpu s)\<rparr>)"
      using release_wait_ok [of ?w "thiscpu s"] w by (simp add: waiting_def)
    moreover have "s\<lparr>thiscpu := settled (thiscpu s)\<rparr> = s\<lparr>mem := mem s, freelist := freelist s, thiscpu := settled (thiscpu s)\<rparr>" by simp
    ultimately show ?thesis by (metis bnd.simps(1) prod.inject res.inject(1))
  next
    case (Some x)
    then have x: "x < NPROC" "zombie_child p s x" by (simp_all add: find_upt_Some)
    have "\<exists>y. reap x p addr (enter x ?w) = Ok (y, s') \<and> y = Inl r"
      using kw reap_Ok [OF assms(1) x(1)] unfolding scan z Some by (fastforce elim!: bnd_eq_OkE)
    then show ?thesis using reap_Ok [OF assms(1) x(1)] x by fastforce
  qed
qed

text \<open>An example: process 0 has an exited child in slot 1.\<close>

definition ex_wait :: kfile where
  "ex_wait = ex_fork\<lparr>nextpid := 3, procs := (procs ex_fork)(1 := zero_proc\<lparr>p_state := ZOMBIE, p_pid := 2, p_parent := Some 0\<rparr>)\<rparr>"

lemma ex_wait_ok: "quiet ex_wait" "pids_ok ex_wait" "cpu_proc ex_wait = Some 0"
  by (auto simp: quiet_def pids_ok_def cpu_ok_def ex_wait_def ex_fork_def ex_kfile_defs zero_proc_def)

lemma ex_wait_runs: "\<exists>s'. kwait 0 ex_wait = Ok (2, s')"
proof -
  let ?s = ex_wait
  have q: "wait_lock ?s = initlock" "cpu_ok (thiscpu ?s)" "\<forall>i<NPROC. p_lock (procs (waiting ?s) i) = initlock"
    using ex_wait_ok(1) by (simp_all add: quiet_def waiting_def)
  have "settle (waiting ?s) = waiting ?s" "cpu_ok (thiscpu (waiting ?s))" using q(2) by (simp_all add: settle_def waiting_def)
  note scan = kwait_scan_find [OF q(3) this(2) atLeastLessThan_subset this(1), of 0 0 False]
  have "find (zombie_child 0 (waiting ?s)) [0..<NPROC] = Some 1"
    by (simp add: find_upt_Some zombie_child_def waiting_def ex_wait_def ex_fork_def zero_proc_def NPROC_def)
  moreover have a: "acquire_wait ?s = Ok (waiting ?s)" using acquire_wait_ok [OF q(1)] by (simp add: waiting_def)
  moreover have "\<exists>s'. reap 1 0 0 (enter 1 (waiting ?s)) = Ok (Inl 2, s')"
  proof -
    let ?e = "upd_proc 1 freed (enter 1 (waiting ?s))"
    have z: "p_trapframe (procs (enter 1 (waiting ?s)) 1) = 0" "p_pagetable (procs (enter 1 (waiting ?s)) 1) = 0"
      "p_pid (procs (enter 1 (waiting ?s)) 1) = 2"
      by (simp_all add: enter_def waiting_def ex_wait_def zero_proc_def)
    then have f: "freeproc 1 (enter 1 (waiting ?s)) = Ok ?e" by (simp add: freeproc_def freed_def upd_proc_def)
    have h: "p_lock (procs ?e 1) = held (hart ?e)" "wait_lock ?e = held (hart ?e)" "thiscpu ?e = push_off (push_off (thiscpu ?s))"
      by (simp_all add: freed_def waiting_def)
    show ?thesis using z f release_both [OF h q(2), of "Inl 2 :: int + bool"] by (simp add: reap_def Let_def)
  qed
  ultimately show ?thesis using ex_wait_ok(3) by (auto simp: kwait_def need_proc_def myproc_def scan)
qed

section \<open>kill\<close>

text \<open>The effect of \<^verbatim>\<open>kill\<close> on the table, without the loop and its locks.\<close>

definition kill_spec :: "int \<Rightarrow> (nat \<Rightarrow> proc) \<Rightarrow> int \<times> (nat \<Rightarrow> proc)" where
  "kill_spec pid t =
     (if \<exists>i<NPROC. p_pid (t i) = pid
      then (0, \<lambda>i. if i < NPROC \<and> p_pid (t i) = pid then kill1 (t i) else t i)
      else (-1, t))"

text \<open>A slot not in use carries the identifier 0, as \<^verbatim>\<open>freeproc\<close> leaves it.\<close>

definition slots_clean :: "'a kproc_scheme \<Rightarrow> bool" where
  "slots_clean s \<longleftrightarrow> (\<forall>i<NPROC. p_state (procs s i) = UNUSED \<longrightarrow> p_pid (procs s i) = 0)"

lemma pid_unused:
  assumes "pids_ok s" "slots_clean s" "i < NPROC"
  shows "p_state (procs s i) = UNUSED \<longleftrightarrow> p_pid (procs s i) = 0"
proof
  assume "p_pid (procs s i) = 0"
  then show "p_state (procs s i) = UNUSED" using pids_okD(1) [OF assms(1,3)] by fastforce
qed (use assms(2,3) in \<open>simp add: slots_clean_def\<close>)

lemma kill1_simps [simp]: "p_pid (kill1 x) = p_pid x" "p_lock (kill1 x) = p_lock x" "p_state (kill1 x) = UNUSED \<longleftrightarrow> p_state x = UNUSED"
  "p_killed (kill1 x)"
  by (simp_all add: kill1_def)

lemma kill_one:
  assumes "pids_ok s" "slots_clean s" "0 < pid" "i < NPROC" "p_pid (procs s i) = pid"
  shows "kill_spec pid (procs s) = (0, (procs s)(i := kill1 (procs s i)))"
proof -
  have u: "j = i" if "j < NPROC" "p_pid (procs s j) = pid" for j
    by (rule pids_okD(3) [OF assms(1)]) (use assms(3-5) that pid_unused [OF assms(1,2)] in auto)
  have "(j < NPROC \<and> p_pid (procs s j) = pid) = (j = i)" for j using u assms(4,5) by blast
  then show ?thesis unfolding kill_spec_def by (auto simp: fun_eq_iff)
qed

lemma pids_ok_cong:
  assumes "pids_ok s" "nextpid s' = nextpid s" "\<And>i. i < NPROC \<Longrightarrow> p_pid (procs s' i) = p_pid (procs s i)"
    "\<And>i. i < NPROC \<Longrightarrow> p_state (procs s' i) = UNUSED \<longleftrightarrow> p_state (procs s i) = UNUSED"
  shows "pids_ok s'"
  unfolding pids_ok_def assms(2) using assms(3,4) assms(1) [unfolded pids_ok_def] by (simp del: imp_conjL)

section \<open>Properties\<close>

text \<open>
  C27. The loop of \<^verbatim>\<open>kkill\<close>, which locks, inspects and unlocks one slot after another, always returns and
  does to the table what marking the one process with the given identifier does: it is marked killed,
  made runnable if it sleeps, and the result is 0; without such a process the result is -1 and no
  process changes.  All locks are free again.
\<close>

theorem kkill_marks_process:
  assumes "quiet s" "pids_ok s" "slots_clean s" "0 < pid"
  shows "\<exists>s'. kkill pid s = Ok (fst (kill_spec pid (procs s)), s') \<and> procs s' = snd (kill_spec pid (procs s)) \<and>
    quiet s' \<and> pids_ok s' \<and> slots_clean s'"
proof (cases "find (\<lambda>i. p_pid (procs s i) = pid) [0..<NPROC]")
  case None
  then have "kill_spec pid (procs s) = (-1, procs s)" by (auto simp: kill_spec_def find_upt_None)
  moreover have "slots_clean (settle s)" using assms(3) by (simp add: slots_clean_def)
  ultimately show ?thesis using kkill_quiet [OF assms(1)] None assms(1,2) by (simp add: pids_ok_settle)
next
  case (Some i)
  then have i: "i < NPROC" "p_pid (procs s i) = pid" by (simp_all add: find_upt_Some)
  let ?t = "upd_proc i kill1 (settle s)"
  have "quiet ?t" by (rule quiet_settle_upd [OF assms(1)]) (use assms(1) i(1) in \<open>auto simp: upd_proc_def settle_def quiet_def kill1_def\<close>)
  moreover have "pids_ok ?t" by (rule pids_ok_cong [OF assms(2)]) (simp_all add: upd_proc_def settle_def)
  moreover have "slots_clean ?t" using assms(3) by (simp add: slots_clean_def upd_proc_def)
  ultimately show ?thesis using kkill_quiet [OF assms(1)] Some kill_one [OF assms(2,3,4) i] by (simp add: upd_proc_def)
qed

text \<open>Witness for C27: process 1 of the example is killed.\<close>

theorem kkill_marks_process_witness:
  "\<exists>s'. kkill 1 ex_fork = Ok (0, s') \<and> p_killed (procs s' 0) \<and> quiet s'"
proof -
  have c: "slots_clean ex_fork" and p: "p_pid (procs ex_fork 0) = 1" "(0::nat) < NPROC"
    by (simp_all add: slots_clean_def ex_fork_def zero_proc_def NPROC_def)
  note k = kill_one [OF ex_fork_quiet(2) c _ p(2,1)]
  show ?thesis using kkill_marks_process [OF ex_fork_quiet(1,2) c, of 1] k by (auto simp: k)
qed

text \<open>
  C30. \<^verbatim>\<open>kill(0)\<close> with a free slot in the table succeeds, although no process has the identifier 0: it
  marks the first free slot killed, and as \<^verbatim>\<open>allocproc\<close> does not clear the mark, the next process that is
  created is born killed.
\<close>

theorem kill_zero_marks_free_slot:
  assumes "quiet s" "pids_ok s" "slots_clean s" "\<exists>i<NPROC. p_state (procs s i) = UNUSED" "kkill 0 s = Ok (r, s1)"
    "allocproc s1 = Ok (Some p, s2)"
  shows "r = 0 \<and> p < NPROC \<and> p_state (procs s p) = UNUSED \<and> p_state (procs s2 p) = USED \<and> p_killed (procs s2 p)"
proof -
  have eq: "find (\<lambda>i. p_state (procs s i) = UNUSED) [0..<NPROC] = find (\<lambda>i. p_pid (procs s i) = 0) [0..<NPROC]"
    using pid_unused [OF assms(2,3)] by (intro find_cong) auto
  obtain i where i: "find (\<lambda>i. p_state (procs s i) = UNUSED) [0..<NPROC] = Some i"
    using assms(4) find_upt_None [of "\<lambda>i. p_state (procs s i) = UNUSED" NPROC] by (cases "find (\<lambda>i. p_state (procs s i) = UNUSED) [0..<NPROC]") auto
  then have il: "i < NPROC" "p_state (procs s i) = UNUSED" by (simp_all add: find_upt_Some)
  have k: "r = 0" "s1 = upd_proc i kill1 (settle s)" using assms(5) kkill_quiet [OF assms(1), of 0] i eq by auto
  have "quiet s1" by (rule quiet_settle_upd [OF assms(1)]) (use assms(1) il(1) in \<open>auto simp: k upd_proc_def settle_def quiet_def kill1_def\<close>)
  moreover have "find (\<lambda>i. p_state (procs s1 i) = UNUSED) [0..<NPROC] = Some i"
    using i by (auto simp: k find_upt_Some upd_proc_def)
  ultimately have "p = i \<and> p_state (procs s2 i) = USED \<and> p_killed (procs s2 i)"
    using allocproc_Ok [OF _ assms(6)] by (auto simp: k new_slot_def)
  then show ?thesis using il k by simp
qed

text \<open>Witness for C1: \<^verbatim>\<open>kill(0)\<close> and then the creation of a process, in the example.\<close>

theorem kill_zero_marks_free_slot_witness:
  "\<exists>s1 s2. kkill 0 ex_fork = Ok (0, s1) \<and> allocproc s1 = Ok (Some 1, s2) \<and> p_killed (procs s2 1)"
proof -
  let ?s1 = "upd_proc 1 kill1 (settle ex_fork)"
  have c: "slots_clean ex_fork" by (simp add: slots_clean_def ex_fork_def zero_proc_def)
  have u: "find (\<lambda>i. p_pid (procs ex_fork i) = 0) [0..<NPROC] = Some 1" "find (\<lambda>i. p_state (procs ?s1 i) = UNUSED) [0..<NPROC] = Some 1"
    by (simp_all add: find_upt_Some ex_fork_def NPROC_def zero_proc_def kill1_def)
  then have e: "\<exists>i<NPROC. p_state (procs ex_fork i) = UNUSED"
    by (intro exI [of _ 1]) (simp add: ex_fork_def zero_proc_def NPROC_def)
  have k: "kkill 0 ex_fork = Ok (0, ?s1)" using kkill_quiet [OF ex_fork_quiet(1), of 0] u by simp
  have f: "freepages ?s1 [0x87ff1000, 0x87ff2000, 0x87ff3000, 0x87ff4000, 0x87ff5000, 0x87ff6000, 0x87ff7000, 0x87ff8000]"
    using ex_fork_freepages by (simp add: freepages_def page_ok_def upd_proc_def settle_def)
  have q: "quiet ?s1" by (rule quiet_settle_upd [OF ex_fork_quiet(1)]) (auto simp: settle_def upd_proc_def kill1_def ex_fork_def zero_proc_def)
  have "kmem_inv ?s1" "7 \<le> card (free_set ?s1)" using f free_set_eq [OF f] by (auto simp: kmem_inv_def)
  then obtain s2 where a: "allocproc ?s1 = Ok (Some 1, s2)" using allocproc_memory [OF q u(2)] by blast
  show ?thesis using kill_zero_marks_free_slot [OF ex_fork_quiet(1,2) c e k a] k a by blast
qed

text \<open>
  C28. A slot in the table and seven free pages are enough for \<^verbatim>\<open>allocproc\<close> to return: it takes the first
  unused slot and leaves it in state \<^verbatim>\<open>USED\<close>, with a fresh identifier, its lock held by this CPU, a trap
  frame and a page table, and a context that starts at \<^verbatim>\<open>forkret\<close> on the slot's kernel stack.
\<close>

theorem allocproc_returns_slot:
  assumes "quiet s" "\<exists>i<NPROC. p_state (procs s i) = UNUSED" "kmem_inv s" "7 \<le> card (free_set s)"
  shows "\<exists>p s'. allocproc s = Ok (Some p, s') \<and> p < NPROC \<and> p_state (procs s p) = UNUSED \<and>
    (\<forall>j<p. p_state (procs s j) \<noteq> UNUSED) \<and> (\<forall>j. j \<noteq> p \<longrightarrow> procs s' j = procs s j) \<and>
    p_state (procs s' p) = USED \<and> p_pid (procs s' p) = nextpid s \<and> nextpid s' = nextpid s + 1 \<and>
    holding (hart s') (p_lock (procs s' p)) \<and> p_trapframe (procs s' p) \<noteq> 0 \<and> p_pagetable (procs s' p) \<noteq> 0 \<and>
    c_ra (p_context (procs s' p)) = sym_forkret (ksym s) \<and> c_sp (p_context (procs s' p)) = p_kstack (procs s p) + of_nat PGSIZE"
proof -
  obtain p where p: "find (\<lambda>i. p_state (procs s i) = UNUSED) [0..<NPROC] = Some p"
    using assms(2) find_upt_None [of "\<lambda>i. p_state (procs s i) = UNUSED" NPROC] by (cases "find (\<lambda>i. p_state (procs s i) = UNUSED) [0..<NPROC]") auto
  obtain s' where a: "allocproc s = Ok (Some p, s')" using allocproc_memory [OF assms(1) p assms(3,4)] by blast
  from allocproc_Ok [OF assms(1) a p] obtain m f pt where "freelist s \<noteq> 0" "pt \<noteq> 0"
    "s' = upd_proc p (new_slot (hart s) (nextpid s) (freelist s) pt (sym_forkret (ksym s)))
       (s\<lparr>mem := m, freelist := f, nextpid := nextpid s + 1, thiscpu := push_off (thiscpu s)\<rparr>)" by blast
  then show ?thesis using a p by (auto simp: find_upt_Some new_slot_def holding_def held_def upd_proc_def intro!: exI [of _ p])
qed

text \<open>Witness for C28: the state of the example has eight free pages.\<close>

theorem allocproc_returns_slot_witness:
  "\<exists>p s'. allocproc ex_fork = Ok (Some p, s') \<and> p_state (procs s' p) = USED \<and> p_pid (procs s' p) = 2"
proof -
  have "\<exists>i<NPROC. p_state (procs ex_fork i) = UNUSED"
    by (intro exI [of _ 1]) (simp add: ex_fork_def zero_proc_def NPROC_def)
  moreover have "kmem_inv ex_fork" "7 \<le> card (free_set ex_fork)" using ex_fork_freepages free_set_eq [OF ex_fork_freepages] by (auto simp: kmem_inv_def)
  ultimately show ?thesis using allocproc_returns_slot [OF ex_fork_quiet(1)] by fastforce
qed



end
