(* ===== verification/Ckpterr.thy ===== *)
theory Ckpterr
  imports Ckptfds Procwait
begin

text \<open>
  Error paths of checkpoint and restore: requests that \<^verbatim>\<open>sys_checkpoint\<close> and \<^verbatim>\<open>sys_restore\<close> reject
  without an effect, and a failure of \<^verbatim>\<open>restore_proc\<close> that its error path does not survive.
\<close>

section \<open>A process without files\<close>

lemma close_ofiles_none: "(\<And>i. i \<in> set is \<Longrightarrow> p_ofile (procs s np) i = None) \<Longrightarrow> close_ofiles is np s = Ok s"
  by (induction "is") simp_all

lemma acquire_held_panics:
  assumes "holding (hart s) (p_lock (procs s np))"
  shows "acquire_proc np s = Panic ''acquire''"
  using assms by (simp add: acquire_proc_def acquire_def Let_def)

section \<open>Properties\<close>

text \<open>
  C37. When memory for the restored process cannot be had, or its size is recorded as 0, \<^verbatim>\<open>uvmalloc\<close> returns 0
  and \<^verbatim>\<open>restore_proc\<close> goes to its error path with the lock of the process that \<^verbatim>\<open>allocproc\<close> returned still
  held; the error path acquires the lock again, and the kernel panics instead of returning -1.
\<close>

theorem restore_without_memory_panics:
  assumes "quiet s" "allocproc s = Ok (Some np, s1)" "p_cwd (procs s np) = None" "p_ofile (procs s np) = (\<lambda>_. None)"
    "uvmalloc (p_pagetable (procs s1 np)) 0 (h_sz hdr) (PTE_W OR PTE_R OR PTE_X OR PTE_U) s1 = Ok (0, s2)"
  shows "restore_into hdr np ip s1 = Panic ''acquire''"
proof -
  obtain p where f: "find (\<lambda>i. p_state (procs s i) = UNUSED) [0..<NPROC] = Some p"
    using allocproc_full [OF assms(1)] assms(2) by (cases "find (\<lambda>i. p_state (procs s i) = UNUSED) [0..<NPROC]") auto
  from allocproc_Ok [OF assms(1,2) f] obtain m fl pt where np: "p = np" and
    s1: "s1 = upd_proc np (new_slot (hart s) (nextpid s) (freelist s) pt (sym_forkret (ksym s)))
       (s\<lparr>mem := m, freelist := fl, nextpid := nextpid s + 1, thiscpu := push_off (thiscpu s)\<rparr>)" by auto
  have "memonly s1 s2" using givesD [OF uvmalloc_gives [OF memonly_refl] assms(5)] by simp
  then obtain m2 f2 where s2: "s2 = s1\<lparr>mem := m2, freelist := f2\<rparr>" by (auto simp: memonly_def)
  have h: "holding (hart s2) (p_lock (procs s2 np))" "p_cwd (procs s2 np) = None" "\<And>i. p_ofile (procs s2 np) i = None"
    using assms(3,4) by (simp_all add: s2 s1 new_slot_def holding_def held_def)
  have "restore_bad np ip s2 = Panic ''acquire''"
    using h by (simp add: restore_bad_def close_ofiles_none acquire_held_panics)
  then show ?thesis using assms(5) by (simp add: restore_into_def)
qed

text \<open>Witness for C37: a header that records the size 0, restored in the state of the example.\<close>

theorem restore_without_memory_panics_witness:
  "\<exists>np s1. allocproc ex_fork = Ok (Some np, s1) \<and> restore_into (rd_hdr (\<lambda>_. 0)) np 0 s1 = Panic ''acquire''"
proof -
  have f: "find (\<lambda>i. p_state (procs ex_fork i) = UNUSED) [0..<NPROC] = Some 1"
    by (simp add: find_upt_Some ex_fork_def NPROC_def zero_proc_def)
  have "kmem_inv ex_fork" "7 \<le> card (free_set ex_fork)" using ex_fork_freepages free_set_eq [OF ex_fork_freepages] by (auto simp: kmem_inv_def)
  then obtain s1 where a: "allocproc ex_fork = Ok (Some 1, s1)" using allocproc_memory [OF ex_fork_quiet(1) f] by blast
  have z: "h_sz (rd_hdr (\<lambda>_. 0)) = 0" by (simp add: rd_hdr_def rd64_def rd32_def rd16_def)
  have "uvmalloc (p_pagetable (procs s1 1)) 0 (h_sz (rd_hdr (\<lambda>_. 0))) (PTE_W OR PTE_R OR PTE_X OR PTE_U) s1 = Ok (0, s1)"
    unfolding z by (simp add: uvmalloc_def uvmalloc_loop.simps)
  from restore_without_memory_panics [OF ex_fork_quiet(1) a _ _ this] a show ?thesis
    by (auto simp: ex_fork_def zero_proc_def)
qed

text \<open>
  C38. \<^verbatim>\<open>sys_checkpoint\<close> refuses, with result -1 and no effect, to checkpoint any process but the caller, and it
  also refuses every path of one character, as \<^verbatim>\<open>sys_restore\<close> does: the length they compare with 1 does not
  count the terminator.
\<close>

theorem checkpoint_restore_reject:
  assumes "cpu_proc s = Some p" "argint 0 s = Ok a"
  shows "(a \<noteq> 0 \<and> a \<noteq> p_pid (procs s p) \<longrightarrow> sys_checkpoint junk s = Ok (-1, s)) \<and>
    (argstr 1 MAXPATH s = Ok (Some [c]) \<longrightarrow> sys_checkpoint junk s = Ok (-1, s)) \<and>
    (argstr 0 MAXPATH s = Ok (Some [c]) \<longrightarrow> sys_restore s = Ok (-1, s))"
  using assms by (auto simp: sys_checkpoint_def sys_restore_def need_proc_def myproc_def Let_def)

text \<open>Witness for C38: process 1 asks for process 7.\<close>

theorem checkpoint_restore_reject_witness:
  "sys_checkpoint (\<lambda>_. 0) (ex_fork\<lparr>mem := wr64 ex_mem8 (0x87ff0000 + TF_a0) 7\<rparr>) =
   Ok (-1, ex_fork\<lparr>mem := wr64 ex_mem8 (0x87ff0000 + TF_a0) 7\<rparr>)"
proof -
  let ?s = "ex_fork\<lparr>mem := wr64 ex_mem8 (0x87ff0000 + TF_a0) 7\<rparr>"
  have t: "p_trapframe (procs ?s 0) = 0x87ff0000" "p_pid (procs ?s 0) = 1" "cpu_proc ?s = Some 0"
    by (simp_all add: ex_fork_def ex_kfile_defs)
  then have "argint 0 ?s = Ok 7" by (simp add: argint_def argraw_def need_proc_def myproc_def)
  from checkpoint_restore_reject [OF t(3) this] show ?thesis using t(2) by simp
qed

end
