(* ===== verification/Ulib.thy ===== *)
theory Ulib
  imports Cstring Printf
begin

text \<open>
  \<^verbatim>\<open>user/ulib.c\<close> and the interface through which the programs under \<^verbatim>\<open>user\<close> use the kernel. A user
  process is single-threaded and sees the kernel only through the results of its system calls, so a
  program is a function of a record \<open>usys\<close> of calls over a world of an arbitrary type: what the calls
  do to the world is a parameter, and the theorems about programs state what they need of it.
  A string is the list of its bytes without the terminator where the code only reads it, and a
  region of memory where the code writes it.
\<close>

section \<open>Definitions\<close>

subsection \<open>System calls\<close>

record ustat =
  us_type :: nat
  us_ino :: nat
  us_size :: nat

record 'w usys =
  u_read :: "int \<Rightarrow> nat \<Rightarrow> 'w \<Rightarrow> (int \<times> byte list) \<times> 'w"
  u_write :: "int \<Rightarrow> byte list \<Rightarrow> 'w \<Rightarrow> int \<times> 'w"
  u_open :: "byte list \<Rightarrow> int \<Rightarrow> 'w \<Rightarrow> int \<times> 'w"
  u_close :: "int \<Rightarrow> 'w \<Rightarrow> int \<times> 'w"
  u_fstat :: "int \<Rightarrow> 'w \<Rightarrow> (int \<times> ustat) \<times> 'w"
  u_link :: "byte list \<Rightarrow> byte list \<Rightarrow> 'w \<Rightarrow> int \<times> 'w"
  u_unlink :: "byte list \<Rightarrow> 'w \<Rightarrow> int \<times> 'w"
  u_mkdir :: "byte list \<Rightarrow> 'w \<Rightarrow> int \<times> 'w"
  u_kill :: "int \<Rightarrow> 'w \<Rightarrow> int \<times> 'w"
  u_sbrk :: "int \<Rightarrow> bool \<Rightarrow> 'w \<Rightarrow> int \<times> 'w"

text \<open>A function of a program either calls \<^verbatim>\<open>exit\<close> with a status (\<open>Inl\<close>) or returns (\<open>Inr\<close>).\<close>

type_synonym ('a, 'w) uout = "(int + 'a) \<times> 'w"

definition asc :: "string \<Rightarrow> byte list" where
  "asc cs = map (\<lambda>c. of_nat (of_char c)) cs"

text \<open>\<^verbatim>\<open>putc\<close> writes one character at a time.\<close>

fun uputs :: "'w usys \<Rightarrow> int \<Rightarrow> byte list \<Rightarrow> 'w \<Rightarrow> 'w" where
  "uputs k fd [] w = w"
| "uputs k fd (c # cs) w = uputs k fd cs (snd (u_write k fd [c] w))"

definition fprintf :: "'w usys \<Rightarrow> int \<Rightarrow> string \<Rightarrow> parg list \<Rightarrow> 'w \<Rightarrow> 'w" where
  "fprintf k fd fmt as w = (case uformat (asc fmt) as of None \<Rightarrow> w | Some cs \<Rightarrow> uputs k fd cs w)"

definition uprintf :: "'w usys \<Rightarrow> string \<Rightarrow> parg list \<Rightarrow> 'w \<Rightarrow> 'w" where
  "uprintf k fmt as w = fprintf k 1 fmt as w"

subsection \<open>Strings and memory\<close>

text \<open>
  The loops over strings return only on terminated ones; running off the end is \<open>None\<close>.
\<close>

partial_function (option) strcpy :: "bytes \<Rightarrow> nat \<Rightarrow> nat \<Rightarrow> bytes option" where
  "strcpy m s t = (if m t \<noteq> 0 then strcpy (m(s := m t)) (s + 1) (t + 1) else Some (m(s := m t)))"

partial_function (option) strcmp :: "bytes \<Rightarrow> nat \<Rightarrow> nat \<Rightarrow> int option" where
  "strcmp m p q = (if m p \<noteq> 0 \<and> m p = m q then strcmp m (p + 1) (q + 1) else Some (uint (m p) - uint (m q)))"

definition ustrlen :: "bytes \<Rightarrow> nat option" where
  "ustrlen s = strlen_loop s 0"

definition umemset :: "bytes \<Rightarrow> nat \<Rightarrow> byte \<Rightarrow> nat \<Rightarrow> bytes" where
  "umemset m dst c n = memset_loop m dst c 0 n"

partial_function (option) strchr :: "bytes \<Rightarrow> nat \<Rightarrow> byte \<Rightarrow> nat option option" where
  "strchr m s c = (if m s \<noteq> 0 then if m s = c then Some (Some s) else strchr m (s + 1) c else Some None)"

text \<open>The test \<^verbatim>\<open>strchr(toks, c)\<close> for a literal \<^verbatim>\<open>toks\<close>.\<close>

definition one_of :: "byte list \<Rightarrow> byte \<Rightarrow> bool" where
  "one_of toks c = (case strchr (cstr toks) 0 c of Some (Some _) \<Rightarrow> True | _ \<Rightarrow> False)"

function gets_loop :: "'w usys \<Rightarrow> bytes \<Rightarrow> nat \<Rightarrow> nat \<Rightarrow> int \<Rightarrow> 'w \<Rightarrow> bytes \<times> 'w" where
  "gets_loop k m buf i mx w =
     (if int i + 1 < mx
      then let ((cc, d), w1) = u_read k 0 1 w in
           if cc < 1 then (m(buf + i := 0), w1)
           else let c = hd d; m1 = m(buf + i := c) in
                if c = 0x0a \<or> c = 0x0d then (m1(buf + (i + 1) := 0), w1) else gets_loop k m1 buf (i + 1) mx w1
      else (m(buf + i := 0), w))"
  by pat_completeness auto
termination
  by (relation "measure (\<lambda>(k, m, buf, i, mx, w). nat (mx - int i))") auto

declare gets_loop.simps [simp del]

definition gets :: "'w usys \<Rightarrow> bytes \<Rightarrow> nat \<Rightarrow> int \<Rightarrow> 'w \<Rightarrow> bytes \<times> 'w" where
  "gets k m buf mx w = gets_loop k m buf 0 mx w"

definition ustat_path :: "'w usys \<Rightarrow> byte list \<Rightarrow> 'w \<Rightarrow> (int \<times> ustat option) \<times> 'w" where
  "ustat_path k n w =
     (let (fd, w1) = u_open k n 0 w in
      if fd < 0 then ((-1, None), w1)
      else let ((r, st), w2) = u_fstat k fd w1; (_, w3) = u_close k fd w2 in ((r, Some st), w3))"

text \<open>\<^verbatim>\<open>atoi\<close>, exact while the value fits an \<^verbatim>\<open>int\<close>; the string ends at its terminator.\<close>

fun atoi_loop :: "int \<Rightarrow> byte list \<Rightarrow> int" where
  "atoi_loop n [] = n"
| "atoi_loop n (c # cs) = (if 0x30 \<le> c \<and> c \<le> 0x39 then atoi_loop (n * 10 + uint c - 0x30) cs else n)"

definition atoi :: "byte list \<Rightarrow> int" where
  "atoi s = atoi_loop 0 s"

definition umemcmp :: "bytes \<Rightarrow> bytes \<Rightarrow> nat \<Rightarrow> int" where
  "umemcmp s1 s2 n = memcmp s1 s2 n"

definition umemcpy :: "bytes \<Rightarrow> nat \<Rightarrow> nat \<Rightarrow> int \<Rightarrow> bytes" where
  "umemcpy m d s n = umemmove m d s n"

text \<open>\<^verbatim>\<open>SBRK_EAGER\<close> and \<^verbatim>\<open>SBRK_LAZY\<close> are the two ways to ask for memory.\<close>

definition sbrk :: "'w usys \<Rightarrow> int \<Rightarrow> 'w \<Rightarrow> int \<times> 'w" where
  "sbrk k n w = u_sbrk k n False w"

definition sbrklazy :: "'w usys \<Rightarrow> int \<Rightarrow> 'w \<Rightarrow> int \<times> 'w" where
  "sbrklazy k n w = u_sbrk k n True w"

section \<open>Closed forms\<close>

text \<open>A terminated string of \<open>n\<close> bytes at \<open>p\<close>.\<close>

definition is_str :: "bytes \<Rightarrow> nat \<Rightarrow> nat \<Rightarrow> bool" where
  "is_str m p n \<longleftrightarrow> m (p + n) = 0 \<and> (\<forall>i<n. m (p + i) \<noteq> 0)"

lemma is_str_Suc: "is_str m p (Suc n) \<longleftrightarrow> m p \<noteq> 0 \<and> is_str m (p + 1) n"
  by (auto simp: is_str_def all_less_Suc_shift)

lemma is_str_0 [simp]: "is_str m p 0 \<longleftrightarrow> m p = 0"
  by (simp add: is_str_def)

lemma strchr_eq:
  "is_str m p n \<Longrightarrow> c \<noteq> 0 \<Longrightarrow>
   strchr m p c = Some (map_option (\<lambda>i. p + i) (find (\<lambda>i. m (p + i) = c) [0..<n]))"
proof (induction n arbitrary: p)
  case 0
  then show ?case by (subst strchr.simps) simp
next
  case (Suc n)
  have h: "m p \<noteq> 0" "is_str m (p + 1) n" using Suc.prems(1) by (simp_all add: is_str_Suc)
  have s: "[0..<Suc n] = 0 # map Suc [0..<n]" by (simp add: map_Suc_upt upt_conv_Cons del: upt_Suc)
  have f: "find (\<lambda>i. m (p + i) = c) (map Suc xs) = map_option Suc (find (\<lambda>i. m (p + 1 + i) = c) xs)" for xs
    by (induction xs) auto
  show ?case
  proof (cases "m p = c")
    case True
    then show ?thesis using h by (subst strchr.simps) (simp add: s del: upt_Suc)
  next
    case False
    then have "strchr m p c = strchr m (p + 1) c" using h by (subst strchr.simps) simp
    also have "\<dots> = Some (map_option (\<lambda>i. p + 1 + i) (find (\<lambda>i. m (p + 1 + i) = c) [0..<n]))"
      by (rule Suc.IH [OF h(2) Suc.prems(2)])
    finally show ?thesis using False by (simp add: s f option.map_comp comp_def del: upt_Suc)
  qed
qed

lemma strchr_0: "is_str m p n \<Longrightarrow> strchr m p 0 = Some None"
proof (induction n arbitrary: p)
  case 0
  then show ?case by (subst strchr.simps) simp
next
  case (Suc n)
  then show ?case by (subst strchr.simps) (simp add: is_str_Suc)
qed

lemma is_str_cstr: "is_str (cstr xs) 0 (length (takeWhile (\<lambda>c. c \<noteq> 0) xs))"
proof -
  let ?t = "takeWhile (\<lambda>c. c \<noteq> 0) xs"
  have "cstr xs i \<noteq> 0" if "i < length ?t" for i
  proof -
    have "?t ! i \<noteq> 0" using nth_mem [OF that] by (auto dest: set_takeWhileD)
    moreover have "i < length xs" using that length_takeWhile_le by (rule order.strict_trans2)
    ultimately show ?thesis using takeWhile_nth [OF that] by (simp add: cstr_def)
  qed
  moreover have "cstr xs (length ?t) = 0" using nth_length_takeWhile [of "\<lambda>c. c \<noteq> 0" xs] by (auto simp: cstr_def)
  ultimately show ?thesis by (simp add: is_str_def)
qed

lemma one_of_code [code]: "one_of toks c \<longleftrightarrow> c \<noteq> 0 \<and> c \<in> set (takeWhile (\<lambda>x. x \<noteq> 0) toks)"
proof (cases "c = 0")
  case True
  then show ?thesis using strchr_0 [OF is_str_cstr] by (simp add: one_of_def)
next
  case False
  let ?n = "length (takeWhile (\<lambda>x. x \<noteq> 0) toks)"
  have "one_of toks c \<longleftrightarrow> find (\<lambda>i. cstr toks i = c) [0..<?n] \<noteq> None"
    using strchr_eq [OF is_str_cstr False] by (auto simp: one_of_def split: option.splits)
  also have "\<dots> \<longleftrightarrow> (\<exists>i<?n. cstr toks i = c)" by (auto simp: find_None_iff)
  also have "\<dots> \<longleftrightarrow> (\<exists>i<?n. takeWhile (\<lambda>x. x \<noteq> 0) toks ! i = c)"
    by (auto simp: cstr_def takeWhile_nth intro: order.strict_trans2 [OF _ length_takeWhile_le])
  also have "\<dots> \<longleftrightarrow> c \<in> set (takeWhile (\<lambda>x. x \<noteq> 0) toks)" by (auto simp: in_set_conv_nth)
  finally show ?thesis using False by simp
qed

lemma one_of_iff [simp]: "0 \<notin> set toks \<Longrightarrow> one_of toks c \<longleftrightarrow> c \<in> set toks"
proof -
  assume z: "0 \<notin> set toks"
  then have "takeWhile (\<lambda>x. x \<noteq> 0) toks = toks" by (auto simp: takeWhile_eq_all_conv)
  from one_of_code [of toks c, unfolded this] show ?thesis using z by auto
qed

end
