(* ===== verification/Shparse.thy ===== *)
theory Shparse
  imports Ulib
begin

text \<open>
  The parser of the shell, \<^verbatim>\<open>user/sh.c\<close>. The command line is a terminated string in a buffer;
  pointers into it are positions, and a token is the pair of positions \<^verbatim>\<open>q\<close> and \<^verbatim>\<open>eq\<close>. The parser
  returns a tree whose strings are such pairs and then overwrites the end of every token with NUL.
  The functions that recurse or loop take fuel, and \<open>Wait\<close> is running out of it; it is shown that
  fuel proportional to the length of the line is always enough. A call of the shell's \<^verbatim>\<open>panic\<close> is
  \<open>Panic\<close>. The constructors are those of a successful \<^verbatim>\<open>malloc\<close>.
\<close>

section \<open>Definitions\<close>

subsection \<open>Commands\<close>

type_synonym token = "nat \<times> nat"

datatype cmd =
    EXEC "token list"
  | REDIR cmd token int int
  | PIPE cmd cmd
  | LIST cmd cmd
  | BACK cmd

definition MAXARGS :: nat where
  "MAXARGS = 10"

definition execcmd :: cmd where
  "execcmd = EXEC []"

definition redircmd :: "cmd \<Rightarrow> nat \<Rightarrow> nat \<Rightarrow> int \<Rightarrow> int \<Rightarrow> cmd" where
  "redircmd subcmd f ef mode fd = REDIR subcmd (f, ef) mode fd"

definition pipecmd :: "cmd \<Rightarrow> cmd \<Rightarrow> cmd" where
  "pipecmd left right = PIPE left right"

definition listcmd :: "cmd \<Rightarrow> cmd \<Rightarrow> cmd" where
  "listcmd left right = LIST left right"

definition backcmd :: "cmd \<Rightarrow> cmd" where
  "backcmd subcmd = BACK subcmd"

text \<open>
  \<^verbatim>\<open>parseexec\<close> keeps a pointer to the \<^verbatim>\<open>execcmd\<close> it made, around which \<^verbatim>\<open>parseredirs\<close> wraps redirections;
  storing an argument through it changes the node under the wrappers.
\<close>

fun add_arg :: "token \<Rightarrow> cmd \<Rightarrow> cmd" where
  "add_arg t (EXEC as) = EXEC (as @ [t])"
| "add_arg t (REDIR c f mode fd) = REDIR (add_arg t c) f mode fd"
| "add_arg t c = c"

subsection \<open>Tokens\<close>

definition whitespace :: "byte list" where
  "whitespace = [0x20, 0x09, 0x0d, 0x0a, 0x0b]"

text \<open>The characters \<^verbatim>\<open><|>&;()\<close>.\<close>

definition symbols :: "byte list" where
  "symbols = [0x3c, 0x7c, 0x3e, 0x26, 0x3b, 0x28, 0x29]"

function skip_ws :: "bytes \<Rightarrow> nat \<Rightarrow> nat \<Rightarrow> nat" where
  "skip_ws b es s = (if s < es \<and> one_of whitespace (b s) then skip_ws b es (s + 1) else s)"
  by pat_completeness auto
termination
  by (relation "measure (\<lambda>(b, es, s). es - s)") auto

function skip_word :: "bytes \<Rightarrow> nat \<Rightarrow> nat \<Rightarrow> nat" where
  "skip_word b es s =
     (if s < es \<and> \<not> one_of whitespace (b s) \<and> \<not> one_of symbols (b s) then skip_word b es (s + 1) else s)"
  by pat_completeness auto
termination
  by (relation "measure (\<lambda>(b, es, s). es - s)") auto

declare skip_ws.simps [simp del] skip_word.simps [simp del]

text \<open>The result is the kind of the token, \<^verbatim>\<open>q\<close>, \<^verbatim>\<open>eq\<close> and the new \<^verbatim>\<open>*ps\<close>.\<close>

definition gettoken :: "bytes \<Rightarrow> nat \<Rightarrow> nat \<Rightarrow> byte \<times> nat \<times> nat \<times> nat" where
  "gettoken b es ps =
     (let q = skip_ws b es ps;
          (ret, s) =
            (if b q = 0 then (0, q)
             else if b q \<in> {0x7c, 0x28, 0x29, 0x3b, 0x26, 0x3c} then (b q, q + 1)
             else if b q = 0x3e then if b (q + 1) = 0x3e then (0x2b, q + 2) else (b q, q + 1)
             else (0x61, skip_word b es q))
      in (ret, q, s, skip_ws b es s))"

definition peek :: "bytes \<Rightarrow> nat \<Rightarrow> nat \<Rightarrow> byte list \<Rightarrow> bool \<times> nat" where
  "peek b es ps toks = (let s = skip_ws b es ps in (b s \<noteq> 0 \<and> one_of toks (b s), s))"

subsection \<open>The parser\<close>

fun parseredirs :: "nat \<Rightarrow> cmd \<Rightarrow> bytes \<Rightarrow> nat \<Rightarrow> nat \<Rightarrow> (cmd \<times> nat) res" where
  "parseredirs 0 c b es s = Wait ''fuel''"
| "parseredirs (Suc n) c b es s =
     (let (p, s1) = peek b es s [0x3c, 0x3e] in
      if p then
        let (tok, _, _, s2) = gettoken b es s1; (t, q, eq, s3) = gettoken b es s2 in
        if t \<noteq> 0x61 then Panic ''missing file for redirection''
        else parseredirs n
               (if tok = 0x3c then redircmd c q eq 0 0
                else if tok = 0x3e then redircmd c q eq 0x601 1
                else if tok = 0x2b then redircmd c q eq 0x201 1
                else c) b es s3
      else Ok (c, s1))"

fun parsebacks :: "nat \<Rightarrow> cmd \<Rightarrow> bytes \<Rightarrow> nat \<Rightarrow> nat \<Rightarrow> (cmd \<times> nat) res" where
  "parsebacks 0 c b es s = Wait ''fuel''"
| "parsebacks (Suc n) c b es s =
     (let (p, s1) = peek b es s [0x26] in
      if p then let (_, _, _, s2) = gettoken b es s1 in parsebacks n (backcmd c) b es s2
      else Ok (c, s1))"

fun parseargs :: "nat \<Rightarrow> nat \<Rightarrow> cmd \<Rightarrow> bytes \<Rightarrow> nat \<Rightarrow> nat \<Rightarrow> (cmd \<times> nat) res" where
  "parseargs 0 argc ret b es s = Wait ''fuel''"
| "parseargs (Suc n) argc ret b es s =
     (let (p, s1) = peek b es s [0x7c, 0x29, 0x26, 0x3b] in
      if p then Ok (ret, s1)
      else
        let (tok, q, eq, s2) = gettoken b es s1 in
        if tok = 0 then Ok (ret, s2)
        else if tok \<noteq> 0x61 then Panic ''syntax''
        else if argc + 1 \<ge> MAXARGS then Panic ''too many args''
        else bnd (parseredirs n (add_arg (q, eq) ret) b es s2) (\<lambda>(r, s3). parseargs n (argc + 1) r b es s3))"

fun parseline :: "nat \<Rightarrow> bytes \<Rightarrow> nat \<Rightarrow> nat \<Rightarrow> (cmd \<times> nat) res"
and parsepipe :: "nat \<Rightarrow> bytes \<Rightarrow> nat \<Rightarrow> nat \<Rightarrow> (cmd \<times> nat) res"
and parseexec :: "nat \<Rightarrow> bytes \<Rightarrow> nat \<Rightarrow> nat \<Rightarrow> (cmd \<times> nat) res"
and parseblock :: "nat \<Rightarrow> bytes \<Rightarrow> nat \<Rightarrow> nat \<Rightarrow> (cmd \<times> nat) res" where
  "parseline 0 b es s = Wait ''fuel''"
| "parseline (Suc n) b es s =
     bnd (parsepipe n b es s) (\<lambda>(c, s1).
     bnd (parsebacks n c b es s1) (\<lambda>(c2, s2).
       let (p, s3) = peek b es s2 [0x3b] in
       if p then
         let (_, _, _, s4) = gettoken b es s3 in
         bnd (parseline n b es s4) (\<lambda>(r, s5). Ok (listcmd c2 r, s5))
       else Ok (c2, s3)))"
| "parsepipe 0 b es s = Wait ''fuel''"
| "parsepipe (Suc n) b es s =
     bnd (parseexec n b es s) (\<lambda>(c, s1).
       let (p, s2) = peek b es s1 [0x7c] in
       if p then
         let (_, _, _, s3) = gettoken b es s2 in
         bnd (parsepipe n b es s3) (\<lambda>(r, s4). Ok (pipecmd c r, s4))
       else Ok (c, s2))"
| "parseexec 0 b es s = Wait ''fuel''"
| "parseexec (Suc n) b es s =
     (let (p, s1) = peek b es s [0x28] in
      if p then parseblock n b es s1
      else bnd (parseredirs n execcmd b es s1) (\<lambda>(ret, s2). parseargs n 0 ret b es s2))"
| "parseblock 0 b es s = Wait ''fuel''"
| "parseblock (Suc n) b es s =
     (let (p, s1) = peek b es s [0x28] in
      if \<not> p then Panic ''parseblock''
      else
        let (_, _, _, s2) = gettoken b es s1 in
        bnd (parseline n b es s2) (\<lambda>(c, s3).
          let (p2, s4) = peek b es s3 [0x29] in
          if \<not> p2 then Panic ''syntax - missing )''
          else let (_, _, _, s5) = gettoken b es s4 in parseredirs n c b es s5))"

fun nul_args :: "token list \<Rightarrow> bytes \<Rightarrow> bytes" where
  "nul_args [] b = b"
| "nul_args ((q, eq) # ts) b = nul_args ts (b(eq := 0))"

fun nulterminate :: "cmd \<Rightarrow> bytes \<Rightarrow> bytes" where
  "nulterminate (EXEC as) b = nul_args as b"
| "nulterminate (REDIR c f mode fd) b = (nulterminate c b)(snd f := 0)"
| "nulterminate (PIPE l r) b = nulterminate r (nulterminate l b)"
| "nulterminate (LIST l r) b = nulterminate r (nulterminate l b)"
| "nulterminate (BACK c) b = nulterminate c b"

definition parsecmd :: "bytes \<Rightarrow> nat \<Rightarrow> (cmd \<times> bytes) res" where
  "parsecmd b s =
     (case ustrlen (\<lambda>i. b (s + i)) of
        None \<Rightarrow> Wait ''strlen''
      | Some len \<Rightarrow>
          let es = s + len in
          bnd (parseline (4 * len + 4) b es s) (\<lambda>(c, s1).
            let (_, s2) = peek b es s1 [] in
            if s2 \<noteq> es then Panic ''syntax'' else Ok (c, nulterminate c b)))"

section \<open>Tokens\<close>

text \<open>The rest of the line: the position is in the string, which ends at \<open>es\<close>.\<close>

definition rest :: "bytes \<Rightarrow> nat \<Rightarrow> nat \<Rightarrow> bool" where
  "rest b es s \<longleftrightarrow> s \<le> es \<and> b es = 0 \<and> (\<forall>i. s \<le> i \<and> i < es \<longrightarrow> b i \<noteq> 0)"

definition wordch :: "byte \<Rightarrow> bool" where
  "wordch c \<longleftrightarrow> c \<noteq> 0 \<and> c \<notin> set whitespace \<and> c \<notin> set symbols"

definition tok_ok :: "bytes \<Rightarrow> nat \<Rightarrow> token \<Rightarrow> bool" where
  "tok_ok b es t \<longleftrightarrow> fst t < snd t \<and> snd t \<le> es \<and> (\<forall>i. fst t \<le> i \<and> i < snd t \<longrightarrow> wordch (b i)) \<and> \<not> wordch (b (snd t))"

lemma rest_later: "rest b es s \<Longrightarrow> s \<le> s' \<Longrightarrow> s' \<le> es \<Longrightarrow> rest b es s'"
  by (auto simp: rest_def)

lemma rest_end: "rest b es s \<Longrightarrow> b s = 0 \<longleftrightarrow> s = es"
  by (auto simp: rest_def le_less)

lemma one_of_tables [simp]: "one_of whitespace c \<longleftrightarrow> c \<in> set whitespace" "one_of symbols c \<longleftrightarrow> c \<in> set symbols"
  by (rule one_of_iff, simp add: whitespace_def symbols_def)+

lemma skip_ws_ok:
  assumes "rest b es s"
  shows "s \<le> skip_ws b es s" "skip_ws b es s \<le> es" "b (skip_ws b es s) \<notin> set whitespace"
proof -
  have "s \<le> skip_ws b es s \<and> skip_ws b es s \<le> es \<and> b (skip_ws b es s) \<notin> set whitespace"
    using assms
  proof (induction b es s rule: skip_ws.induct)
    case (1 b es s)
    show ?case
    proof (cases "s < es \<and> b s \<in> set whitespace")
      case True
      then have "skip_ws b es s = skip_ws b es (s + 1)" by (subst skip_ws.simps) simp
      then show ?thesis using 1(1) True rest_later [OF 1(2), of "s + 1"] by auto
    next
      case False
      then have "skip_ws b es s = s" by (subst skip_ws.simps) auto
      moreover have "s = es \<Longrightarrow> b s = 0" "s \<le> es" using 1(2) by (auto simp: rest_def)
      ultimately show ?thesis using False by (auto simp: whitespace_def le_less)
    qed
  qed
  then show "s \<le> skip_ws b es s" "skip_ws b es s \<le> es" "b (skip_ws b es s) \<notin> set whitespace" by simp_all
qed

lemma skip_word_ok:
  assumes "rest b es s"
  shows "s \<le> skip_word b es s" "skip_word b es s \<le> es" "\<not> wordch (b (skip_word b es s))"
    "\<And>i. s \<le> i \<Longrightarrow> i < skip_word b es s \<Longrightarrow> wordch (b i)"
proof -
  have "s \<le> skip_word b es s \<and> skip_word b es s \<le> es \<and> \<not> wordch (b (skip_word b es s)) \<and>
      (\<forall>i. s \<le> i \<and> i < skip_word b es s \<longrightarrow> wordch (b i))"
    using assms
  proof (induction b es s rule: skip_word.induct)
    case (1 b es s)
    show ?case
    proof (cases "s < es \<and> b s \<notin> set whitespace \<and> b s \<notin> set symbols")
      case True
      then have e: "skip_word b es s = skip_word b es (s + 1)" by (subst skip_word.simps) simp
      have w: "wordch (b s)" using True 1(2) by (auto simp: wordch_def rest_def)
      have "i = s \<or> s + 1 \<le> i" if "s \<le> i" for i using that by auto
      then show ?thesis using 1(1) True rest_later [OF 1(2), of "s + 1"] w unfolding e by fastforce
    next
      case False
      then have "skip_word b es s = s" by (subst skip_word.simps) auto
      moreover have "s = es \<Longrightarrow> b s = 0" "s \<le> es" using 1(2) by (auto simp: rest_def)
      ultimately show ?thesis using False by (auto simp: wordch_def le_less)
    qed
  qed
  then show "s \<le> skip_word b es s" "skip_word b es s \<le> es" "\<not> wordch (b (skip_word b es s))"
    "\<And>i. s \<le> i \<Longrightarrow> i < skip_word b es s \<Longrightarrow> wordch (b i)" by auto
qed

lemma gettoken_ok:
  assumes "rest b es s" "gettoken b es s = (t, q, eq, s')"
  shows "s \<le> s' \<and> rest b es s' \<and> (b (skip_ws b es s) \<noteq> 0 \<longrightarrow> t \<noteq> 0 \<and> s < s') \<and> (t \<noteq> 0 \<longrightarrow> s < s') \<and> (t = 0x61 \<longrightarrow> tok_ok b es (q, eq))"
proof -
  note w = skip_ws_ok [OF assms(1)]
  have r: "rest b es (skip_ws b es s)" by (rule rest_later [OF assms(1) w(1,2)])
  let ?q = "skip_ws b es s"
  have e: "b ?q \<noteq> 0 \<longleftrightarrow> ?q < es" using rest_end [OF r] w(2) by auto
  have fin: "?thesis" if s1: "s' = skip_ws b es s1" and "?q \<le> s1" "s1 \<le> es" "b ?q \<noteq> 0 \<or> t \<noteq> 0 \<longrightarrow> t \<noteq> 0 \<and> ?q < s1" "t = 0x61 \<longrightarrow> tok_ok b es (q, eq)" for s1
  proof -
    have "rest b es s1" using that by (intro rest_later [OF r])
    note v = skip_ws_ok [OF this]
    have "rest b es s'" unfolding s1 by (rule rest_later [OF assms(1)]) (use v w that in auto)
    then show ?thesis using v w that by auto
  qed
  consider "b ?q = 0" | "b ?q \<noteq> 0" "b ?q \<in> {0x7c, 0x28, 0x29, 0x3b, 0x26, 0x3c}" | "b ?q = 0x3e"
    | "b ?q \<noteq> 0" "b ?q \<notin> {0x7c, 0x28, 0x29, 0x3b, 0x26, 0x3c}" "b ?q \<noteq> 0x3e" by blast
  then show ?thesis
  proof cases
    case 1
    then show ?thesis using assms(2) w by (intro fin [of ?q]) (auto simp: gettoken_def Let_def)
  next
    case 2
    then show ?thesis using assms(2) e by (intro fin [of "?q + 1"]) (auto simp: gettoken_def Let_def)
  next
    case 3
    then have l: "?q < es" using e by auto
    have "?q + 2 \<le> es" if "b (?q + 1) = 0x3e"
    proof -
      have "b es = 0" using r by (simp add: rest_def)
      then have "?q + 1 \<noteq> es" using that by auto
      then show ?thesis using l by simp
    qed
    then show ?thesis using assms(2) 3 l by (intro fin [of eq]) (auto simp: gettoken_def Let_def split: if_splits)
  next
    case 4
    note v = skip_word_ok [OF r]
    have "wordch (b ?q)" using 4 w(3) by (auto simp: wordch_def symbols_def)
    then have "?q < skip_word b es ?q" using v(1,3) by (metis le_neq_implies_less)
    then show ?thesis using assms(2) 4 v by (intro fin [of eq]) (auto simp: gettoken_def Let_def tok_ok_def)
  qed
qed

lemma peek_ok:
  assumes "rest b es s" "peek b es s toks = (p, s')"
  shows "s \<le> s' \<and> rest b es s' \<and> (p \<longrightarrow> b (skip_ws b es s') \<noteq> 0)"
proof -
  note w = skip_ws_ok [OF assms(1)]
  have "skip_ws b es (skip_ws b es s) = skip_ws b es s" using w(3) by (subst skip_ws.simps) simp
  then show ?thesis using assms w rest_later [OF assms(1) w(1,2)] by (auto simp: peek_def Let_def)
qed

end
