(* ===== verification/Shtree.thy ===== *)
theory Shtree
  imports Shparse
begin

text \<open>
  The trees the shell's parser returns: every string in them is a word of the line, fuel
  proportional to the line is enough, and after \<^verbatim>\<open>nulterminate\<close> every string reads as its word.
\<close>

section \<open>Well-formed trees\<close>

fun toks :: "cmd \<Rightarrow> token list" where
  "toks (EXEC as) = as"
| "toks (REDIR c f mode fd) = f # toks c"
| "toks (PIPE l r) = toks l @ toks r"
| "toks (LIST l r) = toks l @ toks r"
| "toks (BACK c) = toks c"

text \<open>No command has more arguments than its array has room for, with the null pointer after them.\<close>

fun args_fit :: "cmd \<Rightarrow> bool" where
  "args_fit (EXEC as) \<longleftrightarrow> length as < MAXARGS"
| "args_fit (REDIR c f mode fd) \<longleftrightarrow> args_fit c"
| "args_fit (PIPE l r) \<longleftrightarrow> args_fit l \<and> args_fit r"
| "args_fit (LIST l r) \<longleftrightarrow> args_fit l \<and> args_fit r"
| "args_fit (BACK c) \<longleftrightarrow> args_fit c"

text \<open>The command \<^verbatim>\<open>parseexec\<close> builds: redirections around one \<^verbatim>\<open>execcmd\<close> with \<open>k\<close> arguments.\<close>

fun building :: "nat \<Rightarrow> cmd \<Rightarrow> bool" where
  "building k (EXEC as) \<longleftrightarrow> length as = k"
| "building k (REDIR c f mode fd) \<longleftrightarrow> building k c"
| "building k _ \<longleftrightarrow> False"

definition cmd_ok :: "bytes \<Rightarrow> nat \<Rightarrow> cmd \<Rightarrow> bool" where
  "cmd_ok b es c \<longleftrightarrow> args_fit c \<and> (\<forall>t\<in>set (toks c). tok_ok b es t)"

lemma cmd_ok_simps [simp]:
  "cmd_ok b es execcmd" "cmd_ok b es (REDIR c f mode fd) \<longleftrightarrow> cmd_ok b es c \<and> tok_ok b es f"
  "cmd_ok b es (PIPE l r) \<longleftrightarrow> cmd_ok b es l \<and> cmd_ok b es r" "cmd_ok b es (LIST l r) \<longleftrightarrow> cmd_ok b es l \<and> cmd_ok b es r"
  "cmd_ok b es (BACK c) \<longleftrightarrow> cmd_ok b es c"
  by (auto simp: cmd_ok_def execcmd_def MAXARGS_def)

lemma add_arg_ok:
  assumes "cmd_ok b es c" "building k c" "tok_ok b es t" "k + 1 < MAXARGS"
  shows "cmd_ok b es (add_arg t c) \<and> building (k + 1) (add_arg t c)"
  using assms by (induction t c rule: add_arg.induct) (auto simp: cmd_ok_def)

text \<open>A result of the parser at \<open>s\<close>: it does not run out of fuel, and a tree is well formed.\<close>

fun parsed :: "(cmd \<Rightarrow> bool) \<Rightarrow> bytes \<Rightarrow> nat \<Rightarrow> nat \<Rightarrow> (cmd \<times> nat) res \<Rightarrow> bool" where
  "parsed P b es s (Ok (c, s')) \<longleftrightarrow> s \<le> s' \<and> rest b es s' \<and> cmd_ok b es c \<and> P c"
| "parsed P b es s (Panic _) \<longleftrightarrow> True"
| "parsed P b es s (Wait _) \<longleftrightarrow> False"

lemma parsed_before: "parsed P b es s r \<Longrightarrow> s0 \<le> s \<Longrightarrow> parsed P b es s0 r"
  by (cases "(P, b, es, s, r)" rule: parsed.cases) auto

lemma parsed_weaken: "parsed P b es s r \<Longrightarrow> parsed (\<lambda>_. True) b es s r"
  by (cases "(P, b, es, s, r)" rule: parsed.cases) auto

lemma parsed_bnd:
  assumes "parsed P b es s m" "\<And>c s'. s \<le> s' \<Longrightarrow> rest b es s' \<Longrightarrow> cmd_ok b es c \<Longrightarrow> P c \<Longrightarrow> parsed Q b es s (f (c, s'))"
  shows "parsed Q b es s (bnd m f)"
  using assms by (cases "(P, b, es, s, m)" rule: parsed.cases) auto

lemma parseredirs_parsed:
  assumes "rest b es s" "es - s < n" "cmd_ok b es c" "P c" "\<And>c f mode fd. P c \<Longrightarrow> P (REDIR c f mode fd)"
  shows "parsed P b es s (parseredirs n c b es s)"
  using assms(1-4)
proof (induction n arbitrary: c s)
  case (Suc n)
  obtain p s1 where p: "peek b es s [0x3c, 0x3e] = (p, s1)" by force
  obtain t1 q1 e1 s2 where g1: "gettoken b es s1 = (t1, q1, e1, s2)" by (metis prod_cases4)
  obtain t q e s3 where g2: "gettoken b es s2 = (t, q, e, s3)" by (metis prod_cases4)
  note a = peek_ok [OF Suc.prems(1) p]
  note k1 = gettoken_ok [OF _ g1] and k2 = gettoken_ok [OF _ g2]
  show ?case
  proof (cases "p \<and> t = 0x61")
    case True
    then have s: "s \<le> s1" "s1 < s2" "s2 \<le> s3" "rest b es s3" "tok_ok b es (q, e)" using a k1 k2 by auto
    then have "es - s3 < n" using Suc.prems(2) s by (auto simp: rest_def)
    note ih = Suc.IH [OF s(4) this]
    have "parsed P b es s3 (parseredirs n (if t1 = 0x3c then redircmd c q e 0 0
                else if t1 = 0x3e then redircmd c q e 0x601 1
                else if t1 = 0x2b then redircmd c q e 0x201 1 else c) b es s3)"
      by (rule ih) (use Suc.prems(3,4) s(5) assms(5) in \<open>auto simp: redircmd_def\<close>)
    from parsed_before [OF this, of s] show ?thesis using True p g1 g2 s by simp
  next
    case False
    then show ?thesis using a p g1 g2 Suc.prems by auto
  qed
qed simp

lemma parsebacks_parsed:
  assumes "rest b es s" "es - s < n" "cmd_ok b es c"
  shows "parsed (\<lambda>_. True) b es s (parsebacks n c b es s)"
  using assms
proof (induction n arbitrary: c s)
  case (Suc n)
  obtain p s1 where p: "peek b es s [0x26] = (p, s1)" by force
  obtain t1 q1 e1 s2 where g1: "gettoken b es s1 = (t1, q1, e1, s2)" by (metis prod_cases4)
  note a = peek_ok [OF Suc.prems(1) p]
  show ?case
  proof (cases p)
    case True
    then have s: "s \<le> s1" "s1 < s2" "rest b es s2" using a gettoken_ok [OF _ g1] by auto
    then have "es - s2 < n" using Suc.prems(2) by (auto simp: rest_def)
    then have "parsed (\<lambda>_. True) b es s2 (parsebacks n (backcmd c) b es s2)"
      using Suc.IH s(3) Suc.prems(3) by (simp add: backcmd_def)
    from parsed_before [OF this, of s] show ?thesis using True p g1 s by simp
  qed (use a p Suc.prems in simp)
qed simp

lemma parseargs_parsed:
  assumes "rest b es s" "es - s < n" "cmd_ok b es c" "building k c"
  shows "parsed (\<lambda>_. True) b es s (parseargs n k c b es s)"
  using assms
proof (induction n arbitrary: c s k)
  case (Suc n)
  obtain p s1 where p: "peek b es s [0x7c, 0x29, 0x26, 0x3b] = (p, s1)" by force
  obtain t q e s2 where g: "gettoken b es s1 = (t, q, e, s2)" by (metis prod_cases4)
  note a = peek_ok [OF Suc.prems(1) p]
  note k1 = gettoken_ok [OF _ g]
  consider "p \<or> t = 0" | "\<not> p" "t \<noteq> 0" "t \<noteq> 0x61 \<or> MAXARGS \<le> k + 1" | "\<not> p" "t = 0x61" "k + 1 < MAXARGS" by force
  then show ?case
  proof cases
    case 3
    then have s: "s \<le> s1" "s1 < s2" "rest b es s2" "tok_ok b es (q, e)" using a k1 by auto
    then have n: "es - s2 < n" using Suc.prems(2) by (auto simp: rest_def)
    have ok: "cmd_ok b es (add_arg (q, e) c)" "building (k + 1) (add_arg (q, e) c)"
      using add_arg_ok [OF Suc.prems(3,4) s(4) 3(3)] by simp_all
    have "parsed (building (k + 1)) b es s2 (parseredirs n (add_arg (q, e) c) b es s2)"
      by (rule parseredirs_parsed [OF s(3) n ok(1), of "building (k + 1)", OF ok(2)]) simp
    then have "parsed (\<lambda>_. True) b es s2 (bnd (parseredirs n (add_arg (q, e) c) b es s2) (\<lambda>(r, s3). parseargs n (k + 1) r b es s3))"
    proof (rule parsed_bnd)
      fix c' s3 assume c: "s2 \<le> s3" "rest b es s3" "cmd_ok b es c'" "building (k + 1) c'"
      have "parsed (\<lambda>_. True) b es s3 (parseargs n (k + 1) c' b es s3)" by (rule Suc.IH [OF c(2) _ c(3,4)]) (use n c(1) in simp)
      then show "parsed (\<lambda>_. True) b es s2 (case (c', s3) of (r, s3) \<Rightarrow> parseargs n (k + 1) r b es s3)"
        using parsed_before c(1) by simp
    qed
    from parsed_before [OF this, of s] show ?thesis using 3 p g s by simp
  qed (use a k1 p g Suc.prems in auto)
qed simp

text \<open>After \<^verbatim>\<open>peek\<close> has seen a symbol, \<^verbatim>\<open>gettoken\<close> passes it and another parser goes on.\<close>

lemma parsed_then:
  assumes "rest b es s" "peek b es s ts = (True, s1)" "gettoken b es s1 = (t, q, e, s2)"
    "\<And>s'. rest b es s' \<Longrightarrow> s < s' \<Longrightarrow> parsed P b es s' (f s')"
  shows "parsed P b es s (f s2)"
proof -
  have "s < s2" "rest b es s2" using peek_ok [OF assms(1,2)] gettoken_ok [OF _ assms(3)] by auto
  then show ?thesis using assms(4) parsed_before by (metis less_imp_le)
qed

lemma parsed_map:
  assumes "parsed (\<lambda>_. True) b es s m" "\<And>c. cmd_ok b es c \<Longrightarrow> cmd_ok b es (h c)"
  shows "parsed (\<lambda>_. True) b es s (bnd m (\<lambda>(r, s'). Ok (h r, s')))"
  by (rule parsed_bnd [OF assms(1)]) (simp add: assms(2))

lemma parsepipe_step:
  assumes "\<And>s. rest b es s \<Longrightarrow> 4 * (es - s) + 3 \<le> n \<Longrightarrow> parsed (\<lambda>_. True) b es s (parsepipe n b es s)"
    "\<And>s. rest b es s \<Longrightarrow> 4 * (es - s) + 2 \<le> n \<Longrightarrow> parsed (\<lambda>_. True) b es s (parseexec n b es s)"
    "rest b es s" "4 * (es - s) + 3 \<le> Suc n"
  shows "parsed (\<lambda>_. True) b es s (parsepipe (Suc n) b es s)"
  unfolding parsepipe.simps
proof (rule parsed_bnd [OF assms(2) [OF assms(3)]], unfold prod.case)
  fix c s1 assume s1: "s \<le> s1" "rest b es s1" "cmd_ok b es c"
  obtain p s2 where p: "peek b es s1 [0x7c] = (p, s2)" by force
  obtain t q e s3 where g: "gettoken b es s2 = (t, q, e, s3)" by (metis prod_cases4)
  have "parsed (\<lambda>_. True) b es s1 (bnd (parsepipe n b es s3) (\<lambda>(r, s4). Ok (pipecmd c r, s4)))" if p
  proof (rule parsed_then [OF s1(2) _ g, of "[0x7c]" "\<lambda>_. True" "\<lambda>s. bnd (parsepipe n b es s) (\<lambda>(r, s4). Ok (pipecmd c r, s4))"])
    fix s' assume r: "rest b es s'" "s1 < s'"
    then show "parsed (\<lambda>_. True) b es s' (bnd (parsepipe n b es s') (\<lambda>(r, s4). Ok (pipecmd c r, s4)))"
      using s1 assms(4) by (intro parsed_map assms(1)) (auto simp: pipecmd_def rest_def)
  qed (use p that in simp)
  then show "parsed (\<lambda>_. True) b es s (let (p, s2) = peek b es s1 [0x7c] in
       if p then let (_, _, _, s3) = gettoken b es s2 in bnd (parsepipe n b es s3) (\<lambda>(r, s4). Ok (pipecmd c r, s4))
       else Ok (c, s2))"
    using p g s1 peek_ok [OF s1(2) p] parsed_before [OF _ s1(1)] by auto
qed (use assms(4) in simp)

lemma parseline_step:
  assumes "\<And>s. rest b es s \<Longrightarrow> 4 * (es - s) + 4 \<le> n \<Longrightarrow> parsed (\<lambda>_. True) b es s (parseline n b es s)"
    "\<And>s. rest b es s \<Longrightarrow> 4 * (es - s) + 3 \<le> n \<Longrightarrow> parsed (\<lambda>_. True) b es s (parsepipe n b es s)"
    "rest b es s" "4 * (es - s) + 4 \<le> Suc n"
  shows "parsed (\<lambda>_. True) b es s (parseline (Suc n) b es s)"
  unfolding parseline.simps
proof (rule parsed_bnd [OF assms(2) [OF assms(3)]], unfold prod.case)
  fix c s1 assume s1: "s \<le> s1" "rest b es s1" "cmd_ok b es c"
  have "parsed (\<lambda>_. True) b es s1 (parsebacks n c b es s1)" by (rule parsebacks_parsed [OF s1(2) _ s1(3)]) (use assms(4) s1 in auto)
  note pb = parsed_before [OF this s1(1)]
  show "parsed (\<lambda>_. True) b es s (bnd (parsebacks n c b es s1) (\<lambda>(c2, s2). let (p, s3) = peek b es s2 [0x3b] in
       if p then let (_, _, _, s4) = gettoken b es s3 in bnd (parseline n b es s4) (\<lambda>(r, s5). Ok (listcmd c2 r, s5))
       else Ok (c2, s3)))"
  proof (rule parsed_bnd [OF pb], unfold prod.case)
    fix c2 s2 assume s2: "s \<le> s2" "rest b es s2" "cmd_ok b es c2"
    obtain p s3 where p: "peek b es s2 [0x3b] = (p, s3)" by force
    obtain t q e s4 where g: "gettoken b es s3 = (t, q, e, s4)" by (metis prod_cases4)
    have "parsed (\<lambda>_. True) b es s2 (bnd (parseline n b es s4) (\<lambda>(r, s5). Ok (listcmd c2 r, s5)))" if p
    proof (rule parsed_then [OF s2(2) _ g, of "[0x3b]" "\<lambda>_. True" "\<lambda>s. bnd (parseline n b es s) (\<lambda>(r, s5). Ok (listcmd c2 r, s5))"])
      fix s' assume r: "rest b es s'" "s2 < s'"
      then show "parsed (\<lambda>_. True) b es s' (bnd (parseline n b es s') (\<lambda>(r, s5). Ok (listcmd c2 r, s5)))"
        using s2 assms(4) by (intro parsed_map assms(1)) (auto simp: listcmd_def rest_def)
    qed (use p that in simp)
    then show "parsed (\<lambda>_. True) b es s (let (p, s3) = peek b es s2 [0x3b] in
       if p then let (_, _, _, s4) = gettoken b es s3 in bnd (parseline n b es s4) (\<lambda>(r, s5). Ok (listcmd c2 r, s5))
       else Ok (c2, s3))"
      using p g s2 peek_ok [OF s2(2) p] parsed_before [OF _ s2(1)] by auto
  qed
qed (use assms(4) in simp)

lemma parseexec_step:
  assumes "\<And>s. rest b es s \<Longrightarrow> 4 * (es - s) + 1 \<le> n \<Longrightarrow> parsed (\<lambda>_. True) b es s (parseblock n b es s)"
    "rest b es s" "4 * (es - s) + 2 \<le> Suc n"
  shows "parsed (\<lambda>_. True) b es s (parseexec (Suc n) b es s)"
proof -
  obtain p s1 where p: "peek b es s [0x28] = (p, s1)" by force
  have s1: "s \<le> s1" "rest b es s1" using peek_ok [OF assms(2) p] by auto
  have "parsed (\<lambda>_. True) b es s1 (if p then parseblock n b es s1
      else bnd (parseredirs n execcmd b es s1) (\<lambda>(ret, s2). parseargs n 0 ret b es s2))"
  proof (cases p)
    case False
    have "parsed (building 0) b es s1 (parseredirs n execcmd b es s1)"
      by (rule parseredirs_parsed [OF s1(2)]) (use assms(3) s1 in \<open>auto simp: execcmd_def cmd_ok_def MAXARGS_def\<close>)
    then have "parsed (\<lambda>_. True) b es s1 (bnd (parseredirs n execcmd b es s1) (\<lambda>(ret, s2). parseargs n 0 ret b es s2))"
    proof (rule parsed_bnd, unfold prod.case)
      fix c s2 assume c: "s1 \<le> s2" "rest b es s2" "cmd_ok b es c" "building 0 c"
      have "parsed (\<lambda>_. True) b es s2 (parseargs n 0 c b es s2)" by (rule parseargs_parsed [OF c(2) _ c(3,4)]) (use assms(3) s1 c in auto)
      then show "parsed (\<lambda>_. True) b es s1 (parseargs n 0 c b es s2)" using parsed_before c(1) by blast
    qed
    then show ?thesis using False by simp
  qed (use assms s1 in simp)
  from parsed_before [OF this s1(1)] show ?thesis using p by simp
qed

lemma parseblock_step:
  assumes "\<And>s. rest b es s \<Longrightarrow> 4 * (es - s) + 4 \<le> n \<Longrightarrow> parsed (\<lambda>_. True) b es s (parseline n b es s)"
    "rest b es s" "4 * (es - s) + 1 \<le> Suc n"
  shows "parsed (\<lambda>_. True) b es s (parseblock (Suc n) b es s)"
proof -
  obtain p s1 where p: "peek b es s [0x28] = (p, s1)" by force
  obtain t q e s2 where g: "gettoken b es s1 = (t, q, e, s2)" by (metis prod_cases4)
  let ?k = "\<lambda>(c, s3). let (p2, s4) = peek b es s3 [0x29] in
          if \<not> p2 then Panic ''syntax - missing )''
          else let (_, _, _, s5) = gettoken b es s4 in parseredirs n c b es s5"
  have k: "parsed (\<lambda>_. True) b es s3 (?k (c, s3))" if "rest b es s3" "cmd_ok b es c" "s < s3" for c s3
  proof -
    obtain p2 s4 where p2: "peek b es s3 [0x29] = (p2, s4)" by force
    obtain t q e s5 where g2: "gettoken b es s4 = (t, q, e, s5)" by (metis prod_cases4)
    have "parsed (\<lambda>_. True) b es s3 (parseredirs n c b es s5)" if p2
      by (rule parsed_then [OF \<open>rest b es s3\<close> _ g2, of "[0x29]" "\<lambda>_. True" "\<lambda>s. parseredirs n c b es s"])
        (use p2 that assms(3) \<open>s < s3\<close> \<open>cmd_ok b es c\<close> in \<open>auto intro!: parseredirs_parsed simp: rest_def\<close>)
    then show ?thesis using p2 g2 by simp
  qed
  have "parsed (\<lambda>_. True) b es s (bnd (parseline n b es s2) ?k)" if p
  proof (rule parsed_then [OF assms(2) _ g, of "[0x28]" "\<lambda>_. True" "\<lambda>s. bnd (parseline n b es s) ?k"])
    fix s' assume r: "rest b es s'" "s < s'"
    then have "parsed (\<lambda>_. True) b es s' (parseline n b es s')" using assms(3) by (intro assms(1)) (auto simp: rest_def)
    then show "parsed (\<lambda>_. True) b es s' (bnd (parseline n b es s') ?k)"
      by (rule parsed_bnd) (use k r parsed_before in \<open>meson le_less_trans less_le_trans\<close>)
  qed (use p that in simp)
  then show ?thesis using p g by simp
qed

lemma parse_parsed:
  "rest b es s \<Longrightarrow> 4 * (es - s) + 4 \<le> n \<Longrightarrow> parsed (\<lambda>_. True) b es s (parseline n b es s)"
  "rest b es s \<Longrightarrow> 4 * (es - s) + 3 \<le> n \<Longrightarrow> parsed (\<lambda>_. True) b es s (parsepipe n b es s)"
  "rest b es s \<Longrightarrow> 4 * (es - s) + 2 \<le> n \<Longrightarrow> parsed (\<lambda>_. True) b es s (parseexec n b es s)"
  "rest b es s \<Longrightarrow> 4 * (es - s) + 1 \<le> n \<Longrightarrow> parsed (\<lambda>_. True) b es s (parseblock n b es s)"
  by (induction n arbitrary: s) (simp, simp, simp, simp, rule parseline_step, assumption+, rule parsepipe_step, assumption+,
    rule parseexec_step, assumption+, rule parseblock_step, assumption+)

section \<open>More fuel\<close>

fun nowait :: "'a res \<Rightarrow> bool" where
  "nowait (Wait _) \<longleftrightarrow> False"
| "nowait _ \<longleftrightarrow> True"

lemma nowait_bnd:
  assumes "nowait (bnd m f)" "nowait m \<Longrightarrow> m' = m" "\<And>x. m = Ok x \<Longrightarrow> nowait (f x) \<Longrightarrow> f' x = f x"
  shows "bnd m' f' = bnd m f"
  using assms by (cases m) simp_all

lemma parsed_nowait: "parsed P b es s r \<Longrightarrow> nowait r"
  by (cases r) simp_all

lemma parseredirs_more: "nowait (parseredirs n c b es s) \<Longrightarrow> n \<le> m \<Longrightarrow> parseredirs m c b es s = parseredirs n c b es s"
proof (induction n arbitrary: m c s)
  case (Suc n)
  then obtain m' where m: "m = Suc m'" "n \<le> m'" by (cases m) auto
  note ih = Suc.IH [OF _ m(2)]
  show ?case using m(1) ih Suc.prems(1) by (auto simp: Let_def split: prod.splits if_splits)
qed simp

lemma parsebacks_more: "nowait (parsebacks n c b es s) \<Longrightarrow> n \<le> m \<Longrightarrow> parsebacks m c b es s = parsebacks n c b es s"
proof (induction n arbitrary: m c s)
  case (Suc n)
  then obtain m' where m: "m = Suc m'" "n \<le> m'" by (cases m) auto
  note ih = Suc.IH [OF _ m(2)]
  show ?case using m(1) ih Suc.prems(1) by (auto simp: Let_def split: prod.splits if_splits)
qed simp

lemma parseargs_more: "nowait (parseargs n k c b es s) \<Longrightarrow> n \<le> m \<Longrightarrow> parseargs m k c b es s = parseargs n k c b es s"
proof (induction n arbitrary: m k c s)
  case (Suc n)
  then obtain m' where m: "m = Suc m'" "n \<le> m'" by (cases m) auto
  show ?case using m Suc.prems(1) by (auto simp: Let_def split: prod.splits if_splits intro!: nowait_bnd parseredirs_more Suc.IH)
qed simp

lemma parse_more:
  "nowait (parseline n b es s) \<Longrightarrow> n \<le> m \<Longrightarrow> parseline m b es s = parseline n b es s"
  "nowait (parsepipe n b es s) \<Longrightarrow> n \<le> m \<Longrightarrow> parsepipe m b es s = parsepipe n b es s"
  "nowait (parseexec n b es s) \<Longrightarrow> n \<le> m \<Longrightarrow> parseexec m b es s = parseexec n b es s"
  "nowait (parseblock n b es s) \<Longrightarrow> n \<le> m \<Longrightarrow> parseblock m b es s = parseblock n b es s"
proof (induction n arbitrary: m s)
  case (Suc n)
  { case 1
    then obtain m' where "m = Suc m'" "n \<le> m'" by (cases m) auto
    then show ?case using 1(1) by (auto simp: Let_def split: prod.splits if_splits intro!: nowait_bnd parsebacks_more Suc.IH)
  next
    case 2
    then obtain m' where "m = Suc m'" "n \<le> m'" by (cases m) auto
    then show ?case using 2(1) by (auto simp: Let_def split: prod.splits if_splits intro!: nowait_bnd Suc.IH)
  next
    case 3
    then obtain m' where "m = Suc m'" "n \<le> m'" by (cases m) auto
    then show ?case using 3(1)
      by (auto simp: Let_def split: prod.splits if_splits intro!: nowait_bnd parseredirs_more parseargs_more Suc.IH)
  next
    case 4
    then obtain m' where "m = Suc m'" "n \<le> m'" by (cases m) auto
    then show ?case using 4(1) by (auto simp: Let_def split: prod.splits if_splits intro!: nowait_bnd parseredirs_more Suc.IH) }
qed simp_all

section \<open>Terminating the strings\<close>

lemma nul_args_at: "nul_args ts b i = (if i \<in> snd ` set ts then 0 else b i)"
  by (induction ts b rule: nul_args.induct) (simp_all add: fun_upd_def)

lemma nulterminate_at: "nulterminate c b i = (if i \<in> snd ` set (toks c) then 0 else b i)"
  by (induction c arbitrary: b) (simp_all add: nul_args_at image_Un)

lemma nulterminate_token:
  assumes "\<forall>t\<in>set (toks c). tok_ok b es t" "(q, e) \<in> set (toks c)"
  shows "nulterminate c b e = 0" "q \<le> i \<Longrightarrow> i < e \<Longrightarrow> nulterminate c b i = b i \<and> wordch (b i)"
proof -
  show "nulterminate c b e = 0" using assms(2) by (force simp: nulterminate_at)
  assume i: "q \<le> i" "i < e"
  then have "wordch (b i)" using assms by (auto simp: tok_ok_def)
  moreover have "i \<notin> snd ` set (toks c)" using calculation assms(1) by (auto simp: tok_ok_def)
  ultimately show "nulterminate c b i = b i \<and> wordch (b i)" by (simp add: nulterminate_at)
qed

lemma line_rest: "is_str b s len \<Longrightarrow> rest b (s + len) s"
  unfolding rest_def is_str_def by (metis le_add1 add_diff_inverse_nat not_less nat_add_left_cancel_less)

lemma ustrlen_line: "is_str b s len \<Longrightarrow> ustrlen (\<lambda>i. b (s + i)) = Some len"
  using strlen_eq [of "\<lambda>i. b (s + i)" len] by (simp add: is_str_def ustrlen_def strlen_def)

lemma ex_line: "is_str (cstr (asc ''ls -l > f'')) 0 9"
  by code_simp

lemma ex_parsed: "parseline 40 (cstr (asc ''ls -l > f'')) 9 0 = Ok (REDIR (EXEC [(0, 2), (3, 5)]) (8, 9) 0x601 1, 9)"
  by code_simp

section \<open>Properties\<close>

text \<open>
  C31. The parser of the shell always comes to an end: on every terminated line of \<open>len\<close> characters each
  amount of fuel from \<open>4 * len + 4\<close> on gives the same result, which is a tree or one of the shell's
  error messages, and so \<^verbatim>\<open>parsecmd\<close> returns or panics.
\<close>

theorem parser_terminates:
  assumes "is_str b s len" "4 * len + 4 \<le> n"
  shows "parseline n b (s + len) s = parseline (4 * len + 4) b (s + len) s \<and> nowait (parseline n b (s + len) s) \<and>
    nowait (parsecmd b s)"
proof -
  note r = line_rest [OF assms(1)]
  have w: "nowait (parseline (4 * len + 4) b (s + len) s)" by (rule parsed_nowait [OF parse_parsed(1) [OF r]]) simp
  then have "nowait (parsecmd b s)"
    using ustrlen_line [OF assms(1)]
    by (cases "parseline (4 * len + 4) b (s + len) s") (auto simp: parsecmd_def Let_def split: prod.splits)
  with w show ?thesis using parse_more(1) [OF w assms(2)] by simp
qed

text \<open>Witness for C31: a line with a redirection.\<close>

theorem parser_terminates_witness: "parseline 100 (cstr (asc ''ls -l > f'')) (0 + 9) 0 = parseline 40 (cstr (asc ''ls -l > f'')) (0 + 9) 0"
  using parser_terminates [OF ex_line, of 100] by simp

text \<open>
  C32. A tree that \<^verbatim>\<open>parsecmd\<close> returns can be run: every command in it has fewer than \<^verbatim>\<open>MAXARGS\<close> arguments,
  and every argument and file name, read as a C string from the buffer that \<^verbatim>\<open>nulterminate\<close> has changed
  in place, is the non-empty word the line had there, up to its end and not beyond.
\<close>

theorem parsecmd_strings_are_words:
  assumes "is_str b s len" "parsecmd b s = Ok (c, b')"
  shows "args_fit c \<and> (\<forall>(q, e)\<in>set (toks c).
    q < e \<and> e \<le> s + len \<and> is_str b' q (e - q) \<and> (\<forall>i. q \<le> i \<and> i < e \<longrightarrow> b' i = b i \<and> wordch (b i)) \<and> \<not> wordch (b e))"
proof -
  let ?es = "s + len"
  have p: "parsed (\<lambda>_. True) b ?es s (parseline (4 * len + 4) b ?es s)" by (rule parse_parsed(1) [OF line_rest [OF assms(1)]]) simp
  then have c: "cmd_ok b ?es c" "b' = nulterminate c b"
    using assms(2) ustrlen_line [OF assms(1)]
    by (cases "parseline (4 * len + 4) b ?es s"; auto simp: parsecmd_def Let_def split: prod.splits if_splits)+
  have t: "\<forall>t\<in>set (toks c). tok_ok b ?es t" using c(1) by (simp add: cmd_ok_def)
  have "q < e \<and> e \<le> ?es \<and> is_str b' q (e - q) \<and> (\<forall>i. q \<le> i \<and> i < e \<longrightarrow> b' i = b i \<and> wordch (b i)) \<and> \<not> wordch (b e)"
    if q: "(q, e) \<in> set (toks c)" for q e
  proof -
    have k: "q < e" "e \<le> ?es" "\<not> wordch (b e)" using t q by (auto simp: tok_ok_def)
    note n = nulterminate_token [OF t q, folded c(2)]
    have "is_str b' q (e - q)" using n k(1) by (auto simp: is_str_def wordch_def)
    then show ?thesis using k n(2) by auto
  qed
  then show ?thesis using c(1) by (auto simp: cmd_ok_def)
qed

text \<open>Witness for C32: the arguments and the file name of a line with a redirection.\<close>

theorem parsecmd_strings_are_words_witness:
  "\<exists>c b'. parsecmd (cstr (asc ''ls -l > f'')) 0 = Ok (c, b') \<and> toks c = [(8, 9), (0, 2), (3, 5)] \<and>
     is_str b' 0 2 \<and> is_str b' 3 2 \<and> is_str b' 8 1"
proof -
  let ?b = "cstr (asc ''ls -l > f'')"
  have "?b 9 = 0" by code_simp
  then have "skip_ws ?b 9 9 = 9" by (subst skip_ws.simps) simp
  then obtain b' where p: "parsecmd ?b 0 = Ok (REDIR (EXEC [(0, 2), (3, 5)]) (8, 9) 0x601 1, b')"
    using ustrlen_line [OF ex_line] ex_parsed by (simp add: parsecmd_def peek_def Let_def)
  show ?thesis using parsecmd_strings_are_words [OF ex_line p] p by simp
qed

end
