(* ===== verification/Shrun.thy ===== *)
theory Shrun
  imports Shtree Sysfile
begin

text \<open>
  What the shell does with a parsed command, \<^verbatim>\<open>runcmd\<close> and \<^verbatim>\<open>main\<close> of \<^verbatim>\<open>user/sh.c\<close>. As the shell forks,
  its behaviour is a tree of system calls: a node is a call, and what follows it depends on the result
  of the call. A fork has the tree of the child and that of the parent.
  The descriptor tables of the processes are then followed through such a tree.
\<close>

section \<open>Definitions\<close>

datatype prog =
    Exit int
  | Exec "byte list" "byte list list" prog
  | Open "byte list" int "int \<Rightarrow> prog"
  | Close int prog
  | Dup int "int \<Rightarrow> prog"
  | Pipe "(int \<times> int) option \<Rightarrow> prog"
  | Fork prog "int \<Rightarrow> prog"
  | WaitChild prog
  | Say "byte list" prog

text \<open>\<open>Say\<close> is a message on descriptor 2; \<open>exec\<close> returns only when it fails.\<close>

definition shpanic :: "string \<Rightarrow> prog" where
  "shpanic s = Say (asc s @ [0x0a]) (Exit 1)"

definition fork1 :: "prog \<Rightarrow> prog \<Rightarrow> prog" where
  "fork1 child parent = Fork child (\<lambda>pid. if pid = -1 then shpanic ''fork'' else parent)"

definition cstring :: "bytes \<Rightarrow> nat \<Rightarrow> byte list" where
  "cstring b q = (case ustrlen (\<lambda>i. b (q + i)) of None \<Rightarrow> [] | Some n \<Rightarrow> map (\<lambda>i. b (q + i)) [0..<n])"

fun runcmd :: "bytes \<Rightarrow> cmd \<Rightarrow> prog" where
  "runcmd b (EXEC as) =
     (if as = [] then Exit 1
      else let path = cstring b (fst (hd as)) in
           Exec path (map (\<lambda>t. cstring b (fst t)) as) (Say (asc ''exec '' @ path @ asc '' failed'' @ [0x0a]) (Exit 0)))"
| "runcmd b (REDIR c f mode fd) =
     Close fd (Open (cstring b (fst f)) mode (\<lambda>r.
       if r < 0 then Say (asc ''open '' @ cstring b (fst f) @ asc '' failed'' @ [0x0a]) (Exit 1)
       else runcmd b c))"
| "runcmd b (LIST l r) = fork1 (runcmd b l) (WaitChild (runcmd b r))"
| "runcmd b (PIPE l r) =
     Pipe (\<lambda>p. case p of
         None \<Rightarrow> shpanic ''pipe''
       | Some (p0, p1) \<Rightarrow>
           fork1 (Close 1 (Dup p1 (\<lambda>_. Close p0 (Close p1 (runcmd b l)))))
             (fork1 (Close 0 (Dup p0 (\<lambda>_. Close p0 (Close p1 (runcmd b r)))))
               (Close p0 (Close p1 (WaitChild (WaitChild (Exit 0)))))))"
| "runcmd b (BACK c) = fork1 (runcmd b c) (Exit 0)"

subsection \<open>Reading command lines\<close>

definition getcmd :: "'w usys \<Rightarrow> bytes \<Rightarrow> nat \<Rightarrow> int \<Rightarrow> 'w \<Rightarrow> int \<times> bytes \<times> 'w" where
  "getcmd k m buf nbuf w =
     (let (_, w1) = u_write k 2 (asc ''$ '') w;
          m1 = umemset m buf 0 (nat nbuf);
          (m2, w2) = gets k m1 buf nbuf w1
      in (if m2 buf = 0 then -1 else 0, m2, w2))"

partial_function (option) sh_console :: "'w usys \<Rightarrow> 'w \<Rightarrow> 'w option" where
  "sh_console k w =
     (case u_open k (asc ''console'') 2 w of (fd, w1) \<Rightarrow>
        if fd \<ge> 0 then if fd \<ge> 3 then Some (snd (u_close k fd w1)) else sh_console k w1
        else Some w1)"

partial_function (option) skip_blanks :: "bytes \<Rightarrow> nat \<Rightarrow> nat option" where
  "skip_blanks b s = (if b s = 0x20 \<or> b s = 0x09 then skip_blanks b (s + 1) else Some s)"

datatype shline = Blank | Cd "byte list" | Run "prog res"

definition sh_line :: "bytes \<Rightarrow> nat \<Rightarrow> shline option" where
  "sh_line b buf =
     (case skip_blanks b buf of
        None \<Rightarrow> None
      | Some s \<Rightarrow>
          if b s = 0x0a then Some Blank
          else if b s = 0x63 \<and> b (s + 1) = 0x64 \<and> b (s + 2) = 0x20 then
            (case ustrlen (\<lambda>i. b (s + i)) of
               None \<Rightarrow> None
             | Some n \<Rightarrow> Some (Cd (cstring (b(s + n - 1 := 0)) (s + 3))))
          else Some (Run (bnd (parsecmd b s) (\<lambda>(c, b1). Ok (runcmd b1 c)))))"

section \<open>Descriptor tables\<close>

text \<open>
  The descriptors of a process and what they refer to. \<^verbatim>\<open>open\<close>, \<^verbatim>\<open>dup\<close> and \<^verbatim>\<open>pipe\<close> take the lowest free
  ones, as \<^verbatim>\<open>fdalloc\<close> of the kernel does.
\<close>

datatype obj = Std nat | Named "byte list" int | RdEnd nat | WrEnd nat

type_synonym fdt = "int \<Rightarrow> obj option"

definition lowest :: "fdt \<Rightarrow> int option" where
  "lowest t = find (\<lambda>i. t i = None) (map int [0..<NOFILE])"

text \<open>
  The processes that a tree starts when every call succeeds that can: for each the arguments of \<^verbatim>\<open>exec\<close>
  and its descriptors. \<open>n\<close> numbers the pipes.
\<close>

primrec launch :: "prog \<Rightarrow> fdt \<Rightarrow> nat \<Rightarrow> (byte list list \<times> fdt) list \<times> nat" where
  "launch (Exit st) = (\<lambda>t n. ([], n))"
| "launch (Exec path argv k) = (\<lambda>t n. ([(argv, t)], n))"
| "launch (Open path mode k) =
     (\<lambda>t n. case lowest t of None \<Rightarrow> launch (k (-1)) t n | Some fd \<Rightarrow> launch (k fd) (t(fd := Some (Named path mode))) n)"
| "launch (Close fd k) = (\<lambda>t n. launch k (t(fd := None)) n)"
| "launch (Dup fd k) =
     (\<lambda>t n. case (lowest t, t fd) of (Some fd2, Some x) \<Rightarrow> launch (k fd2) (t(fd2 := Some x)) n | _ \<Rightarrow> launch (k (-1)) t n)"
| "launch (Pipe k) =
     (\<lambda>t n. case lowest t of
        None \<Rightarrow> launch (k None) t n
      | Some p0 \<Rightarrow>
          let t1 = t(p0 := Some (RdEnd n)) in
          case lowest t1 of
            None \<Rightarrow> launch (k None) t n
          | Some p1 \<Rightarrow> launch (k (Some (p0, p1))) (t1(p1 := Some (WrEnd n))) (n + 1))"
| "launch (Fork c k) =
     (\<lambda>t n. let (l1, n1) = launch c t n; (l2, n2) = launch (k 1) t n1 in (l1 @ l2, n2))"
| "launch (WaitChild k) = (\<lambda>t n. launch k t n)"
| "launch (Say msg k) = (\<lambda>t n. launch k t n)"

section \<open>The lowest free descriptor\<close>

text \<open>The contract of descriptor allocation: the lowest descriptor that is free, if any.\<close>

locale fd_table =
  fixes get :: "'t \<Rightarrow> nat \<Rightarrow> 'x option"
    and alloc :: "'t \<Rightarrow> nat option"
  assumes alloc_Some: "alloc t = Some i \<Longrightarrow> i < NOFILE \<and> get t i = None \<and> (\<forall>j<i. get t j \<noteq> None)"
    and alloc_None: "alloc t = None \<Longrightarrow> i < NOFILE \<Longrightarrow> get t i \<noteq> None"
begin

lemma alloc_lowest:
  assumes "i < NOFILE" "get t i = None" "\<And>j. j < i \<Longrightarrow> get t j \<noteq> None"
  shows "alloc t = Some i"
proof (cases "alloc t")
  case None
  then show ?thesis using alloc_None [OF None assms(1)] assms(2) by simp
next
  case (Some k)
  from alloc_Some [OF this] have "k = i" using assms(2,3) by (metis linorder_neqE_nat)
  then show ?thesis using Some by simp
qed

end

text \<open>The kernel's \<^verbatim>\<open>fdalloc\<close> for a file \<open>f\<close> keeps it, and so does the abstract table.\<close>

definition kernel_alloc :: "nat \<Rightarrow> 'a kproc_scheme \<times> nat \<Rightarrow> nat option" where
  "kernel_alloc f sp = (case fdalloc f ((fst sp)\<lparr>cpu_proc := Some (snd sp)\<rparr>) of Ok (r, _) \<Rightarrow> r | _ \<Rightarrow> None)"

interpretation kernel_fds: fd_table "\<lambda>(s, p). p_ofile (procs s p)" "kernel_alloc f" for f
  by unfold_locales (auto simp: kernel_alloc_def fdalloc_def need_proc_def myproc_def find_upt_Some find_upt_None split: option.splits)

interpretation shell_fds: fd_table "\<lambda>t i. t (int i)" "\<lambda>t. map_option nat (lowest t)"
proof -
  have m: "lowest t = map_option int (find (\<lambda>i. t (int i) = None) [0..<NOFILE])" for t
  proof -
    have "find (\<lambda>i. t i = None) (map int xs) = map_option int (find (\<lambda>i. t (int i) = None) xs)" for xs
      by (induction xs) auto
    then show ?thesis by (simp add: lowest_def)
  qed
  show "fd_table (\<lambda>t i. t (int i)) (\<lambda>t. map_option nat (lowest t))"
    by unfold_locales (auto simp: m option.map_comp comp_def find_upt_Some find_upt_None)
qed

lemma lowest_Some:
  assumes "i < NOFILE" "t (int i) = None" "\<And>j. j < i \<Longrightarrow> t (int j) \<noteq> None"
  shows "lowest t = Some (int i)"
proof -
  have "map_option nat (lowest t) = Some i" by (rule shell_fds.alloc_lowest) (use assms in simp_all)
  then obtain z where z: "lowest t = Some z" "nat z = i" by (cases "lowest t") auto
  have "z \<in> set (map int [0..<NOFILE])" using z(1) unfolding lowest_def by (auto simp: find_Some_iff in_set_conv_nth)
  then show ?thesis using z by auto
qed

section \<open>Pipelines\<close>

text \<open>Descriptors 0, 1 and 2 are open and no other.\<close>

definition std :: "obj \<Rightarrow> obj \<Rightarrow> obj \<Rightarrow> fdt" where
  "std x y z = (\<lambda>_. None)(0 := Some x, 1 := Some y, 2 := Some z)"

lemma lowest_std [simp]:
  "lowest (std x y z) = Some 3" "lowest ((std x y z)(3 := Some v)) = Some 4"
  "lowest ((std x y z)(0 := None)) = Some 0" "lowest ((std x y z)(1 := None)) = Some 1"
  "lowest ((std x y z)(3 := Some v, 4 := Some u, 0 := None)) = Some 0" "lowest ((std x y z)(3 := Some v, 4 := Some u, 1 := None)) = Some 1"
  using lowest_Some [of 3] lowest_Some [of 4] lowest_Some [of 0] lowest_Some [of 1]
  by (auto simp: std_def NOFILE_def)

text \<open>A stage of a pipeline: redirections of descriptors 0 and 1 around one command.\<close>

fun stage :: "cmd \<Rightarrow> bool" where
  "stage (EXEC as) \<longleftrightarrow> as \<noteq> []"
| "stage (REDIR c f mode fd) \<longleftrightarrow> (fd = 0 \<or> fd = 1) \<and> stage c"
| "stage _ \<longleftrightarrow> False"

fun stage_argv :: "bytes \<Rightarrow> cmd \<Rightarrow> byte list list" where
  "stage_argv b (EXEC as) = map (\<lambda>t. cstring b (fst t)) as"
| "stage_argv b (REDIR c f mode fd) = stage_argv b c"
| "stage_argv b _ = []"

fun redirected :: "bytes \<Rightarrow> cmd \<Rightarrow> fdt \<Rightarrow> fdt" where
  "redirected b (REDIR c f mode fd) t = redirected b c (t(fd := Some (Named (cstring b (fst f)) mode)))"
| "redirected b _ t = t"

fun pipeline :: "cmd list \<Rightarrow> cmd" where
  "pipeline [] = execcmd"
| "pipeline [c] = c"
| "pipeline (c # cs) = PIPE c (pipeline cs)"

text \<open>The wiring: what a stage writes to descriptor 1 is what the next one reads from descriptor 0.\<close>

fun wired :: "bytes \<Rightarrow> obj \<Rightarrow> obj \<Rightarrow> obj \<Rightarrow> nat \<Rightarrow> cmd list \<Rightarrow> (byte list list \<times> fdt) list" where
  "wired b x y z n [] = []"
| "wired b x y z n [c] = [(stage_argv b c, redirected b c (std x y z))]"
| "wired b x y z n (c # cs) = (stage_argv b c, redirected b c (std x (WrEnd n) z)) # wired b (RdEnd n) y z (n + 1) cs"

lemma std_upd [simp]:
  "(std x y z)(0 := Some u) = std u y z" "(std x y z)(1 := Some u) = std x u z"
  by (auto simp: std_def)

lemma launch_stage: "stage c \<Longrightarrow> launch (runcmd b c) (std x y z) n = ([(stage_argv b c, redirected b c (std x y z))], n)"
  by (induction c arbitrary: x y) (auto simp: Let_def)

lemma std_close [simp]: "(std x y z)(3 := None, 4 := None) = std x y z"
  by (auto simp: std_def)

lemma std_34 [simp]:
  "((std x y z)(3 := Some v, 4 := Some u, 1 := None)) 4 = Some u" "((std x y z)(3 := Some v, 4 := Some u, 0 := None)) 3 = Some v"
  by (auto simp: std_def)

lemma launch_pipe:
  assumes "launch (runcmd b l) (std x (WrEnd n) z) (n + 1) = (l1, n1)" "launch (runcmd b r) (std (RdEnd n) y z) n1 = (l2, n2)"
  shows "launch (runcmd b (PIPE l r)) (std x y z) n = (l1 @ l2, n2)"
  using assms by (simp add: fork1_def Let_def del: fun_upd_apply)

section \<open>Properties\<close>

text \<open>
  C33. \<^verbatim>\<open>runcmd\<close> wires a pipeline of any number of commands: of the processes it starts, each has the
  write end of one pipe as descriptor 1 and the next one the read end of the same pipe as descriptor 0,
  the first one and the last one keep the shell's descriptors 0 and 1, all keep descriptor 2, each has
  its own redirections on top, and no process keeps any other end of a pipe open.
\<close>

theorem runcmd_wires_pipeline:
  assumes "list_all stage cs" "cs \<noteq> []"
  shows "fst (launch (runcmd b (pipeline cs)) (std x y z) n) = wired b x y z n cs"
proof -
  have "\<exists>n'. launch (runcmd b (pipeline cs)) (std x y z) n = (wired b x y z n cs, n')"
    using assms
  proof (induction b x y z n cs rule: wired.induct)
    case (3 b x y z n c d ds)
    then obtain n' where "launch (runcmd b (pipeline (d # ds))) (std (RdEnd n) y z) (n + 1) = (wired b (RdEnd n) y z (n + 1) (d # ds), n')"
      by auto
    moreover have "launch (runcmd b c) (std x (WrEnd n) z) (n + 1) = ([(stage_argv b c, redirected b c (std x (WrEnd n) z))], n + 1)"
      using 3 by (intro launch_stage) simp
    ultimately show ?case using launch_pipe by (metis pipeline.simps(3) wired.simps(3) append_Cons append_Nil)
  qed (auto simp: launch_stage)
  then show ?thesis by auto
qed

text \<open>Witness for C33: two commands, the second with its output redirected.\<close>

theorem runcmd_wires_pipeline_witness:
  "let b = nulterminate (PIPE (EXEC [(0, 2)]) (REDIR (EXEC [(3, 5)]) (6, 7) 0x601 1)) (cstr (asc ''ls|wc>f'')) in
   fst (launch (runcmd b (PIPE (EXEC [(0, 2)]) (REDIR (EXEC [(3, 5)]) (6, 7) 0x601 1))) (std (Std 0) (Std 1) (Std 2)) 0) =
   [([cstring b 0], std (Std 0) (WrEnd 0) (Std 2)), ([cstring b 3], std (RdEnd 0) (Named (cstring b 6) 0x601) (Std 2))]"
  unfolding Let_def
  using runcmd_wires_pipeline [of "[EXEC [(0, 2)], REDIR (EXEC [(3, 5)]) (6, 7) 0x601 1]"
      "nulterminate (PIPE (EXEC [(0, 2)]) (REDIR (EXEC [(3, 5)]) (6, 7) 0x601 1)) (cstr (asc ''ls|wc>f''))" "Std 0" "Std 1" "Std 2" 0]
  by simp

end
