(* ===== verification/Uprogs.thy ===== *)
theory Uprogs
  imports Ulib
begin

text \<open>
  The small programs under \<^verbatim>\<open>user\<close>: \<^verbatim>\<open>cat\<close>, \<^verbatim>\<open>wc\<close>, \<^verbatim>\<open>echo\<close>, \<^verbatim>\<open>ln\<close>, \<^verbatim>\<open>kill\<close>, \<^verbatim>\<open>mkdir\<close>, \<^verbatim>\<open>rm\<close> and \<^verbatim>\<open>ls\<close>. A loop that
  reads until the end of its input need not end, so it is a partial function; for an input that does
  end it is shown to return. The argument vector is the list of its strings, \<^verbatim>\<open>argv[0]\<close> included.
\<close>

section \<open>Definitions\<close>

subsection \<open>cat\<close>

partial_function (option) cat :: "'w usys \<Rightarrow> int \<Rightarrow> 'w \<Rightarrow> (unit, 'w) uout option" where
  "cat k fd w =
     (case u_read k fd 512 w of ((n, d), w1) \<Rightarrow>
        if n > 0 then
          (case u_write k 1 d w1 of (r, w2) \<Rightarrow>
             if r \<noteq> n then Some (Inl 1, fprintf k 2 ''cat: write error\<newline>'' [] w2)
             else cat k fd w2)
        else if n < 0 then Some (Inl 1, fprintf k 2 ''cat: read error\<newline>'' [] w1)
        else Some (Inr (), w1))"

fun cat_files :: "'w usys \<Rightarrow> byte list list \<Rightarrow> 'w \<Rightarrow> (int \<times> 'w) option" where
  "cat_files k [] w = Some (0, w)"
| "cat_files k (a # as) w =
     (let (fd, w1) = u_open k a 0 w in
      if fd < 0 then Some (1, fprintf k 2 ''cat: cannot open %s\<newline>'' [PStr (Some a)] w1)
      else case cat k fd w1 of
             None \<Rightarrow> None
           | Some (Inl st, w2) \<Rightarrow> Some (st, w2)
           | Some (Inr _, w2) \<Rightarrow> cat_files k as (snd (u_close k fd w2)))"

text \<open>A program's \<^verbatim>\<open>main\<close> gives its exit status.\<close>

definition cat_main :: "'w usys \<Rightarrow> byte list list \<Rightarrow> 'w \<Rightarrow> (int \<times> 'w) option" where
  "cat_main k argv w =
     (if length argv \<le> 1 then
        case cat k 0 w of
          None \<Rightarrow> None
        | Some (Inl st, w1) \<Rightarrow> Some (st, w1)
        | Some (Inr _, w1) \<Rightarrow> Some (0, w1)
      else cat_files k (tl argv) w)"

subsection \<open>wc\<close>

record counts =
  wc_l :: int
  wc_w :: int
  wc_c :: int
  inword :: bool

definition wc_space :: "byte list" where
  "wc_space = [0x20, 0x0d, 0x09, 0x0a, 0x0b]"

definition wc_char :: "byte \<Rightarrow> counts \<Rightarrow> counts" where
  "wc_char x s =
     (let s1 = s\<lparr>wc_c := wc_c s + 1\<rparr>;
          s2 = (if x = 0x0a then s1\<lparr>wc_l := wc_l s1 + 1\<rparr> else s1)
      in if one_of wc_space x then s2\<lparr>inword := False\<rparr>
         else if \<not> inword s2 then s2\<lparr>wc_w := wc_w s2 + 1, inword := True\<rparr>
         else s2)"

fun wc_buf :: "byte list \<Rightarrow> counts \<Rightarrow> counts" where
  "wc_buf [] s = s"
| "wc_buf (x # xs) s = wc_buf xs (wc_char x s)"

partial_function (option) wc_loop :: "'w usys \<Rightarrow> int \<Rightarrow> counts \<Rightarrow> 'w \<Rightarrow> (counts, 'w) uout option" where
  "wc_loop k fd s w =
     (case u_read k fd 512 w of ((n, d), w1) \<Rightarrow>
        if n > 0 then wc_loop k fd (wc_buf d s) w1
        else if n < 0 then Some (Inl 1, uprintf k ''wc: read error\<newline>'' [] w1)
        else Some (Inr s, w1))"

definition wc_print :: "'w usys \<Rightarrow> byte list \<Rightarrow> counts \<Rightarrow> 'w \<Rightarrow> 'w" where
  "wc_print k name s w =
     uprintf k ''%d %d %d %s\<newline>'' [PInt (word_of_int (wc_l s)), PInt (word_of_int (wc_w s)), PInt (word_of_int (wc_c s)), PStr (Some name)] w"

definition wc :: "'w usys \<Rightarrow> int \<Rightarrow> byte list \<Rightarrow> 'w \<Rightarrow> (unit, 'w) uout option" where
  "wc k fd name w =
     (case wc_loop k fd \<lparr>wc_l = 0, wc_w = 0, wc_c = 0, inword = False\<rparr> w of
        None \<Rightarrow> None
      | Some (Inl st, w1) \<Rightarrow> Some (Inl st, w1)
      | Some (Inr s, w1) \<Rightarrow> Some (Inr (), wc_print k name s w1))"

fun wc_files :: "'w usys \<Rightarrow> byte list list \<Rightarrow> 'w \<Rightarrow> (int \<times> 'w) option" where
  "wc_files k [] w = Some (0, w)"
| "wc_files k (a # as) w =
     (let (fd, w1) = u_open k a 0 w in
      if fd < 0 then Some (1, uprintf k ''wc: cannot open %s\<newline>'' [PStr (Some a)] w1)
      else case wc k fd a w1 of
             None \<Rightarrow> None
           | Some (Inl st, w2) \<Rightarrow> Some (st, w2)
           | Some (Inr _, w2) \<Rightarrow> wc_files k as (snd (u_close k fd w2)))"

definition wc_main :: "'w usys \<Rightarrow> byte list list \<Rightarrow> 'w \<Rightarrow> (int \<times> 'w) option" where
  "wc_main k argv w =
     (if length argv \<le> 1 then
        case wc k 0 [] w of
          None \<Rightarrow> None
        | Some (Inl st, w1) \<Rightarrow> Some (st, w1)
        | Some (Inr _, w1) \<Rightarrow> Some (0, w1)
      else wc_files k (tl argv) w)"

subsection \<open>echo, ln, kill, mkdir, rm\<close>

fun echo_args :: "'w usys \<Rightarrow> byte list list \<Rightarrow> 'w \<Rightarrow> 'w" where
  "echo_args k [] w = w"
| "echo_args k (a # as) w =
     (let (_, w1) = u_write k 1 a w;
          (_, w2) = u_write k 1 (if as \<noteq> [] then [0x20] else [0x0a]) w1
      in echo_args k as w2)"

definition echo_main :: "'w usys \<Rightarrow> byte list list \<Rightarrow> 'w \<Rightarrow> int \<times> 'w" where
  "echo_main k argv w = (0, echo_args k (tl argv) w)"

definition ln_main :: "'w usys \<Rightarrow> byte list list \<Rightarrow> 'w \<Rightarrow> int \<times> 'w" where
  "ln_main k argv w =
     (if length argv \<noteq> 3 then (1, fprintf k 2 ''Usage: ln old new\<newline>'' [] w)
      else let (r, w1) = u_link k (argv ! 1) (argv ! 2) w in
           (0, if r < 0 then fprintf k 2 ''link %s %s: failed\<newline>'' [PStr (Some (argv ! 1)), PStr (Some (argv ! 2))] w1 else w1))"

fun kill_args :: "'w usys \<Rightarrow> byte list list \<Rightarrow> 'w \<Rightarrow> 'w" where
  "kill_args k [] w = w"
| "kill_args k (a # as) w = kill_args k as (snd (u_kill k (atoi a) w))"

definition kill_main :: "'w usys \<Rightarrow> byte list list \<Rightarrow> 'w \<Rightarrow> int \<times> 'w" where
  "kill_main k argv w =
     (if length argv < 2 then (1, fprintf k 2 ''usage: kill pid...\<newline>'' [] w) else (0, kill_args k (tl argv) w))"

fun mkdir_args :: "'w usys \<Rightarrow> byte list list \<Rightarrow> 'w \<Rightarrow> 'w" where
  "mkdir_args k [] w = w"
| "mkdir_args k (a # as) w =
     (let (r, w1) = u_mkdir k a w in
      if r < 0 then fprintf k 2 ''mkdir: %s failed to create\<newline>'' [PStr (Some a)] w1 else mkdir_args k as w1)"

definition mkdir_main :: "'w usys \<Rightarrow> byte list list \<Rightarrow> 'w \<Rightarrow> int \<times> 'w" where
  "mkdir_main k argv w =
     (if length argv < 2 then (1, fprintf k 2 ''Usage: mkdir files...\<newline>'' [] w) else (0, mkdir_args k (tl argv) w))"

fun rm_args :: "'w usys \<Rightarrow> byte list list \<Rightarrow> 'w \<Rightarrow> 'w" where
  "rm_args k [] w = w"
| "rm_args k (a # as) w =
     (let (r, w1) = u_unlink k a w in
      if r < 0 then fprintf k 2 ''rm: %s failed to delete\<newline>'' [PStr (Some a)] w1 else rm_args k as w1)"

definition rm_main :: "'w usys \<Rightarrow> byte list list \<Rightarrow> 'w \<Rightarrow> int \<times> 'w" where
  "rm_main k argv w =
     (if length argv < 2 then (1, fprintf k 2 ''Usage: rm files...\<newline>'' [] w) else (0, rm_args k (tl argv) w))"

subsection \<open>ls\<close>

text \<open>\<open>after_slash\<close> is the scan back from the end for the last slash, \<open>fmtname\<close> pads to \<^verbatim>\<open>DIRSIZ\<close>.\<close>

definition after_slash :: "byte list \<Rightarrow> byte list" where
  "after_slash path = rev (takeWhile (\<lambda>c. c \<noteq> 0x2f) (rev path))"

definition fmtname :: "byte list \<Rightarrow> byte list" where
  "fmtname path =
     (let p = after_slash path in
      if length p \<ge> 14 then p else p @ replicate (14 - length p) 0x20)"

definition ls_print :: "'w usys \<Rightarrow> byte list \<Rightarrow> ustat \<Rightarrow> 'w \<Rightarrow> 'w" where
  "ls_print k path st w =
     uprintf k ''%s %d %d %d\<newline>''
       [PStr (Some (fmtname path)), PInt (of_nat (us_type st)), PInt (of_nat (us_ino st)), PInt (of_nat (us_size st))] w"

definition ls_entry :: "'w usys \<Rightarrow> byte list \<Rightarrow> byte list \<Rightarrow> 'w \<Rightarrow> 'w" where
  "ls_entry k path de w =
     (if de ! 0 = 0 \<and> de ! 1 = 0 then w
      else let buf = path @ [0x2f] @ takeWhile (\<lambda>c. c \<noteq> 0) (take 14 (drop 2 de)) in
           case ustat_path k buf w of
             ((r, st), w1) \<Rightarrow>
               if r < 0 then uprintf k ''ls: cannot stat %s\<newline>'' [PStr (Some buf)] w1
               else case st of None \<Rightarrow> w1 | Some st1 \<Rightarrow> ls_print k buf st1 w1)"

partial_function (option) ls_dir :: "'w usys \<Rightarrow> int \<Rightarrow> byte list \<Rightarrow> 'w \<Rightarrow> 'w option" where
  "ls_dir k fd path w =
     (case u_read k fd 16 w of ((n, de), w1) \<Rightarrow>
        if n = 16 then ls_dir k fd path (ls_entry k path de w1) else Some w1)"

definition ls :: "'w usys \<Rightarrow> byte list \<Rightarrow> 'w \<Rightarrow> 'w option" where
  "ls k path w =
     (let (fd, w1) = u_open k path 0 w in
      if fd < 0 then Some (fprintf k 2 ''ls: cannot open %s\<newline>'' [PStr (Some path)] w1)
      else let ((r, st), w2) = u_fstat k fd w1 in
           if r < 0 then Some (snd (u_close k fd (fprintf k 2 ''ls: cannot stat %s\<newline>'' [PStr (Some path)] w2)))
           else map_option (\<lambda>w3. snd (u_close k fd w3))
                  (if us_type st = 3 \<or> us_type st = 2 then Some (ls_print k path st w2)
                   else if us_type st = 1 then
                     if length path + 1 + 14 + 1 > 512 then Some (uprintf k ''ls: path too long\<newline>'' [] w2)
                     else ls_dir k fd path w2
                   else Some w2))"

fun ls_args :: "'w usys \<Rightarrow> byte list list \<Rightarrow> 'w \<Rightarrow> (int \<times> 'w) option" where
  "ls_args k [] w = Some (0, w)"
| "ls_args k (a # as) w = (case ls k a w of None \<Rightarrow> None | Some w1 \<Rightarrow> ls_args k as w1)"

definition ls_main :: "'w usys \<Rightarrow> byte list list \<Rightarrow> 'w \<Rightarrow> (int \<times> 'w) option" where
  "ls_main k argv w =
     (if length argv < 2 then map_option (\<lambda>w1. (0, w1)) (ls k (asc ''.'') w) else ls_args k (tl argv) w)"

section \<open>Streams\<close>

text \<open>
  What \<^verbatim>\<open>read\<close> and \<^verbatim>\<open>write\<close> do on an input that ends: a read takes a piece off the front of the input,
  of any size up to the one asked for and not empty before the end; a write adds to the output.
\<close>

definition streams :: "'w usys \<Rightarrow> int \<Rightarrow> ('w \<Rightarrow> byte list) \<Rightarrow> ('w \<Rightarrow> byte list) \<Rightarrow> bool" where
  "streams k fd inp out \<longleftrightarrow>
     (\<forall>n w. case u_read k fd n w of ((r, d), w') \<Rightarrow>
        r = int (length d) \<and> length d \<le> n \<and> inp w = d @ inp w' \<and> out w' = out w \<and> (0 < n \<and> inp w \<noteq> [] \<longrightarrow> d \<noteq> [])) \<and>
     (\<forall>bs w. case u_write k 1 bs w of (r, w') \<Rightarrow> r = int (length bs) \<and> inp w' = inp w \<and> out w' = out w @ bs)"

lemma streams_read:
  assumes "streams k fd inp out" "u_read k fd n w = ((r, d), w')"
  shows "r = int (length d)" "length d \<le> n" "inp w = d @ inp w'" "out w' = out w" "0 < n \<Longrightarrow> inp w \<noteq> [] \<Longrightarrow> d \<noteq> []"
proof -
  have "case u_read k fd n w of ((r, d), w') \<Rightarrow>
      r = int (length d) \<and> length d \<le> n \<and> inp w = d @ inp w' \<and> out w' = out w \<and> (0 < n \<and> inp w \<noteq> [] \<longrightarrow> d \<noteq> [])"
    by (rule assms(1) [unfolded streams_def, THEN conjunct1, THEN spec, THEN spec])
  note a = this [unfolded assms(2) prod.case]
  show "r = int (length d)" "length d \<le> n" "inp w = d @ inp w'" "out w' = out w" "0 < n \<Longrightarrow> inp w \<noteq> [] \<Longrightarrow> d \<noteq> []"
    using a by blast+
qed

lemma streams_write:
  assumes "streams k fd inp out" "u_write k 1 bs w = (r, w')"
  shows "r = int (length bs)" "inp w' = inp w" "out w' = out w @ bs"
proof -
  have "case u_write k 1 bs w of (r, w') \<Rightarrow> r = int (length bs) \<and> inp w' = inp w \<and> out w' = out w @ bs"
    by (rule assms(1) [unfolded streams_def, THEN conjunct2, THEN spec, THEN spec])
  note a = this [unfolded assms(2) prod.case]
  show "r = int (length bs)" "inp w' = inp w" "out w' = out w @ bs" using a by blast+
qed

lemma uputs_streams:
  assumes "streams k fd inp out"
  shows "inp (uputs k 1 cs w) = inp w \<and> out (uputs k 1 cs w) = out w @ cs"
proof (induction cs arbitrary: w)
  case (Cons c cs)
  obtain r w' where "u_write k 1 [c] w = (r, w')" by force
  then show ?case using Cons streams_write [OF assms] by simp
qed simp

text \<open>An instance: input and output as lists, reads in pieces of one byte up to a given size.\<close>

record tape =
  t_in :: "byte list"
  t_out :: "byte list"

definition tape_sys :: "nat \<Rightarrow> tape usys" where
  "tape_sys piece =
     \<lparr>u_read = (\<lambda>fd n w. let d = take (min n piece) (t_in w) in
         ((int (length d), d), w\<lparr>t_in := drop (min n piece) (t_in w)\<rparr>)),
      u_write = (\<lambda>fd bs w. (int (length bs), w\<lparr>t_out := t_out w @ bs\<rparr>)),
      u_open = (\<lambda>_ _ w. (-1, w)), u_close = (\<lambda>_ w. (0, w)), u_fstat = (\<lambda>_ w. ((-1, \<lparr>us_type = 0, us_ino = 0, us_size = 0\<rparr>), w)),
      u_link = (\<lambda>_ _ w. (-1, w)), u_unlink = (\<lambda>_ w. (-1, w)), u_mkdir = (\<lambda>_ w. (-1, w)), u_kill = (\<lambda>_ w. (-1, w)),
      u_sbrk = (\<lambda>_ _ w. (-1, w))\<rparr>"

lemma tape_streams: "0 < piece \<Longrightarrow> streams (tape_sys piece) fd t_in t_out"
  by (auto simp: streams_def tape_sys_def Let_def)

lemma wc_buf_append: "wc_buf (xs @ ys) s = wc_buf ys (wc_buf xs s)"
  by (induction xs arbitrary: s) simp_all

lemma wc_loop_counts:
  assumes "streams k fd inp out"
  shows "\<exists>w'. wc_loop k fd s w = Some (Inr (wc_buf (inp w) s), w') \<and> inp w' = [] \<and> out w' = out w"
proof (induction "length (inp w)" arbitrary: s w rule: less_induct)
  case less
  obtain n d w1 where r: "u_read k fd 512 w = ((n, d), w1)" by (metis prod_cases3 surj_pair)
  note l = streams_read [OF assms r]
  show ?case
  proof (cases "inp w = []")
    case True
    then have d: "d = []" "inp w1 = []" using l(3) by simp_all
    then have "wc_loop k fd s w = Some (Inr s, w1)" using r l(1) by (subst wc_loop.simps) simp
    then show ?thesis using True d(2) l(4) by simp
  next
    case False
    then have d: "d \<noteq> []" using l(5) by simp
    then obtain w' where "wc_loop k fd (wc_buf d s) w1 = Some (Inr (wc_buf (inp w1) (wc_buf d s)), w') \<and> inp w' = [] \<and> out w' = out w1"
      using less [of w1 "wc_buf d s"] l(3) by auto
    moreover have "wc_loop k fd s w = wc_loop k fd (wc_buf d s) w1" using r l(1) d by (subst wc_loop.simps) simp
    ultimately show ?thesis using l(3,4) by (auto simp: wc_buf_append)
  qed
qed

text \<open>The first character of a word: no space, and at the start of the text or after a space.\<close>

definition word_starts :: "byte list \<Rightarrow> nat set" where
  "word_starts xs = {i. i < length xs \<and> xs ! i \<notin> set wc_space \<and> (i = 0 \<or> xs ! (i - 1) \<in> set wc_space)}"

lemma one_of_space [simp]: "one_of wc_space c \<longleftrightarrow> c \<in> set wc_space"
  by (rule one_of_iff) (simp add: wc_space_def)

lemma wc_buf_counts:
  "wc_buf xs \<lparr>wc_l = 0, wc_w = 0, wc_c = 0, inword = False\<rparr> =
     \<lparr>wc_l = int (count_list xs 0x0a), wc_w = int (card (word_starts xs)), wc_c = int (length xs),
      inword = (xs \<noteq> [] \<and> last xs \<notin> set wc_space)\<rparr>"
proof (induction xs rule: rev_induct)
  case Nil
  then show ?case by (simp add: word_starts_def)
next
  case (snoc x xs)
  have "word_starts (xs @ [x]) = word_starts xs \<union> (if x \<notin> set wc_space \<and> (xs = [] \<or> last xs \<in> set wc_space) then {length xs} else {})"
    by (cases "xs = []") (auto simp: word_starts_def nth_append last_conv_nth less_Suc_eq)
  moreover have "length xs \<notin> word_starts xs" "finite (word_starts xs)" by (auto simp: word_starts_def)
  ultimately have "card (word_starts (xs @ [x])) =
      card (word_starts xs) + (if x \<notin> set wc_space \<and> (xs = [] \<or> last xs \<in> set wc_space) then 1 else 0)" by simp
  then show ?case by (auto simp: wc_buf_append snoc.IH wc_char_def Let_def)
qed

lemma wc_format:
  "uformat (asc ''%d %d %d %s\<newline>'') [PInt a, PInt b, PInt c, PStr (Some name)] =
     Some (uprintint (va_int False True a) 10 True @ [0x20] @ uprintint (va_int False True b) 10 True @ [0x20] @
           uprintint (va_int False True c) 10 True @ [0x20] @ name @ [0x0a])"
  by (simp add: uformat_def asc_def format_out.simps conversion_def Let_def char_at_def comp_def)

section \<open>Properties\<close>

text \<open>
  C34. \<^verbatim>\<open>cat\<close> on an input that ends returns, and has copied the whole input to its output, in order, in
  whatever pieces the reads return it.
\<close>

theorem cat_copies_input:
  assumes "streams k fd inp out"
  shows "\<exists>w'. cat k fd w = Some (Inr (), w') \<and> out w' = out w @ inp w \<and> inp w' = []"
proof (induction "length (inp w)" arbitrary: w rule: less_induct)
  case less
  obtain n d w1 where r: "u_read k fd 512 w = ((n, d), w1)" by (metis prod_cases3 surj_pair)
  obtain m w2 where wr: "u_write k 1 d w1 = (m, w2)" by force
  note l = streams_read [OF assms r] and v = streams_write [OF assms wr]
  show ?case
  proof (cases "inp w = []")
    case True
    then have d: "d = []" "inp w1 = []" using l(3) by simp_all
    then have "cat k fd w = Some (Inr (), w1)" using r l(1) by (subst cat.simps) simp
    then show ?thesis using True d(2) l(4) by simp
  next
    case False
    then have d: "d \<noteq> []" using l(5) by simp
    then obtain w' where "cat k fd w2 = Some (Inr (), w') \<and> out w' = out w2 @ inp w2 \<and> inp w' = []"
      using less [of w2] l(3) v(2) by auto
    moreover have "cat k fd w = cat k fd w2" using r wr l(1) v(1) d by (subst cat.simps) simp
    ultimately show ?thesis using l(3,4) v(2,3) by auto
  qed
qed

text \<open>Witness for C34: three bytes, read one at a time.\<close>

theorem cat_copies_input_witness: "\<exists>w'. cat (tape_sys 1) 0 \<lparr>t_in = [1, 2, 3], t_out = []\<rparr> = Some (Inr (), w') \<and> t_out w' = [1, 2, 3]"
  using cat_copies_input [OF tape_streams [of 1 0], of "\<lparr>t_in = [1, 2, 3], t_out = []\<rparr>"] by auto

text \<open>
  C35. \<^verbatim>\<open>wc\<close> on an input that ends returns, and prints the number of newlines, the number of words and
  the number of bytes of the whole input, where a word starts at every character that is no space and
  has none or a space before it: where the reads cut the input makes no difference.
\<close>

theorem wc_counts_input:
  assumes "streams k fd inp out"
  shows "\<exists>w' text. wc k fd name w = Some (Inr (), w') \<and>
    uformat (asc ''%d %d %d %s\<newline>'') [PInt (of_nat (count_list (inp w) 0x0a)), PInt (of_nat (card (word_starts (inp w)))),
      PInt (of_nat (length (inp w))), PStr (Some name)] = Some text \<and> out w' = out w @ text"
proof -
  obtain w1 where "wc_loop k fd \<lparr>wc_l = 0, wc_w = 0, wc_c = 0, inword = False\<rparr> w =
      Some (Inr (wc_buf (inp w) \<lparr>wc_l = 0, wc_w = 0, wc_c = 0, inword = False\<rparr>), w1)" "out w1 = out w"
    using wc_loop_counts [OF assms] by blast
  then show ?thesis
    using uputs_streams [OF assms]
    by (simp add: wc_def wc_buf_counts wc_print_def uprintf_def fprintf_def wc_format)
qed

text \<open>Witness for C35: a text of one line, two words and five bytes.\<close>

theorem wc_counts_input_witness:
  "\<exists>w'. wc (tape_sys 2) 0 [] \<lparr>t_in = asc ''ab c\<newline>'', t_out = []\<rparr> = Some (Inr (), w') \<and> t_out w' = asc ''1 2 5 \<newline>''"
proof -
  have "word_starts (asc ''ab c\<newline>'') = set (filter (\<lambda>i. asc ''ab c\<newline>'' ! i \<notin> set wc_space \<and>
      (i = 0 \<or> asc ''ab c\<newline>'' ! (i - 1) \<in> set wc_space)) [0..<length (asc ''ab c\<newline>'')])"
    by (auto simp: word_starts_def)
  also have "\<dots> = {0, 3}" by code_simp
  finally have c: "card (word_starts (asc ''ab c\<newline>'')) = 2" by simp
  have l: "count_list (asc ''ab c\<newline>'') 0x0a = 1" "length (asc ''ab c\<newline>'') = 5" by code_simp+
  have f: "uformat (asc ''%d %d %d %s\<newline>'') [PInt 1, PInt 2, PInt 5, PStr (Some [])] = Some (asc ''1 2 5 \<newline>'')" by code_simp
  show ?thesis
    using wc_counts_input [OF tape_streams [of 2 0], of "[]" "\<lparr>t_in = asc ''ab c\<newline>'', t_out = []\<rparr>"] by (auto simp: c l f)
qed

end
