(* ===== verification/Grep.thy ===== *)
theory Grep
  imports Uprogs
begin

text \<open>
  \<^verbatim>\<open>user/grep.c\<close>: the matcher for patterns with \<^verbatim>\<open>^\<close>, \<^verbatim>\<open>.\<close>, \<^verbatim>\<open>*\<close> and \<^verbatim>\<open>$\<close>, shown equal to the language
  a pattern denotes, and the loop that cuts its input into lines. Pattern and text are the bytes up to
  the terminator; what \<^verbatim>\<open>grep\<close> has in its buffer is the list of the first \<^verbatim>\<open>m\<close> bytes.
\<close>

section \<open>Definitions\<close>

function matchhere :: "byte list \<Rightarrow> byte list \<Rightarrow> bool"
and matchstar :: "byte \<Rightarrow> byte list \<Rightarrow> byte list \<Rightarrow> bool" where
  "matchhere re text =
     (case re of
        [] \<Rightarrow> True
      | c # re1 \<Rightarrow>
          if re1 \<noteq> [] \<and> hd re1 = 0x2a then matchstar c (tl re1) text
          else if c = 0x24 \<and> re1 = [] then text = []
          else case text of [] \<Rightarrow> False | x # text1 \<Rightarrow> (c = 0x2e \<or> c = x) \<and> matchhere re1 text1)"
| "matchstar c re text =
     (matchhere re text \<or>
      (case text of [] \<Rightarrow> False | x # text1 \<Rightarrow> (x = c \<or> c = 0x2e) \<and> matchstar c re text1))"
  by pat_completeness auto
termination
  by (relation "measures [\<lambda>x. case x of Inl (re, _) \<Rightarrow> 2 * length re | Inr (_, re, _) \<Rightarrow> 2 * length re + 1,
      \<lambda>x. case x of Inl (_, text) \<Rightarrow> length text | Inr (_, _, text) \<Rightarrow> length text]") (auto simp: neq_Nil_conv)

declare matchhere.simps [simp del] matchstar.simps [simp del]

fun match_from :: "byte list \<Rightarrow> byte list \<Rightarrow> bool" where
  "match_from re [] = matchhere re []"
| "match_from re (x # text) = (matchhere re (x # text) \<or> match_from re text)"

definition match :: "byte list \<Rightarrow> byte list \<Rightarrow> bool" where
  "match re text = (if re \<noteq> [] \<and> hd re = 0x5e then matchhere (tl re) text else match_from re text)"

text \<open>\<^verbatim>\<open>strchr(p, '\n')\<close> on the rest of the buffer, which ends with NUL.\<close>

fun find_nl :: "byte list \<Rightarrow> nat option" where
  "find_nl [] = None"
| "find_nl (c # cs) = (if c = 0 then None else if c = 0x0a then Some 0 else map_option Suc (find_nl cs))"

function grep_lines :: "'w usys \<Rightarrow> byte list \<Rightarrow> byte list \<Rightarrow> 'w \<Rightarrow> byte list \<times> 'w" where
  "grep_lines k pat p w =
     (case find_nl p of
        None \<Rightarrow> (p, w)
      | Some q \<Rightarrow>
          grep_lines k pat (drop (q + 1) p) (if match pat (take q p) then snd (u_write k 1 (take q p @ [0x0a]) w) else w))"
  by pat_completeness auto
termination
proof (relation "measure (\<lambda>(k, pat, p, w). length p)")
  fix k :: "'w usys" and pat p :: "byte list" and w q
  assume "find_nl p = Some q"
  then have "p \<noteq> []" by auto
  then show "((k, pat, drop (q + 1) p, if match pat (take q p) then snd (u_write k 1 (take q p @ [0x0a]) w) else w), k, pat, p, w)
      \<in> measure (\<lambda>(k, pat, p, w). length p)" by simp
qed simp

declare grep_lines.simps [simp del]

partial_function (option) grep :: "'w usys \<Rightarrow> byte list \<Rightarrow> int \<Rightarrow> byte list \<Rightarrow> 'w \<Rightarrow> 'w option" where
  "grep k pat fd p w =
     (case u_read k fd (1024 - length p - 1) w of ((n, d), w1) \<Rightarrow>
        if n > 0 then (case grep_lines k pat (p @ d) w1 of (p1, w2) \<Rightarrow> grep k pat fd p1 w2) else Some w1)"

fun grep_files :: "'w usys \<Rightarrow> byte list \<Rightarrow> byte list list \<Rightarrow> 'w \<Rightarrow> (int \<times> 'w) option" where
  "grep_files k pat [] w = Some (0, w)"
| "grep_files k pat (a # as) w =
     (let (fd, w1) = u_open k a 0 w in
      if fd < 0 then Some (1, uprintf k ''grep: cannot open %s\<newline>'' [PStr (Some a)] w1)
      else case grep k pat fd [] w1 of
             None \<Rightarrow> None
           | Some w2 \<Rightarrow> grep_files k pat as (snd (u_close k fd w2)))"

definition grep_main :: "'w usys \<Rightarrow> byte list list \<Rightarrow> 'w \<Rightarrow> (int \<times> 'w) option" where
  "grep_main k argv w =
     (if length argv \<le> 1 then Some (1, fprintf k 2 ''usage: grep pattern [file ...]\<newline>'' [] w)
      else if length argv \<le> 2 then map_option (\<lambda>w1. (0, w1)) (grep k (argv ! 1) 0 [] w)
      else grep_files k (argv ! 1) (drop 2 argv) w)"

section \<open>The language of a pattern\<close>

datatype item = Lit byte | Any | Star byte

text \<open>The items of a pattern after a leading \<^verbatim>\<open>^\<close>, and whether it ends in the anchor \<^verbatim>\<open>$\<close>.\<close>

fun items :: "byte list \<Rightarrow> item list" where
  "items [] = []"
| "items [c] = (if c = 0x24 then [] else [if c = 0x2e then Any else Lit c])"
| "items (c # d # re) = (if d = 0x2a then Star c # items re else (if c = 0x2e then Any else Lit c) # items (d # re))"

fun anchored :: "byte list \<Rightarrow> bool" where
  "anchored [] \<longleftrightarrow> False"
| "anchored [c] \<longleftrightarrow> c = 0x24"
| "anchored (c # d # re) \<longleftrightarrow> (if d = 0x2a then anchored re else anchored (d # re))"

fun item_lang :: "item \<Rightarrow> byte list set" where
  "item_lang (Lit c) = {[c]}"
| "item_lang Any = {[x] | x. True}"
| "item_lang (Star c) = (if c = 0x2e then UNIV else {replicate n c | n. True})"

fun lang :: "item list \<Rightarrow> byte list set" where
  "lang [] = {[]}"
| "lang (i # is) = {u @ v | u v. u \<in> item_lang i \<and> v \<in> lang is}"

text \<open>\<open>prefix_match re t\<close>: the text starts with a string of the pattern, or is one when anchored.\<close>

definition prefix_match :: "byte list \<Rightarrow> byte list \<Rightarrow> bool" where
  "prefix_match re t \<longleftrightarrow> (\<exists>u v. t = u @ v \<and> u \<in> lang (items re) \<and> (anchored re \<longrightarrow> v = []))"

text \<open>One more character of a starred item.\<close>

definition star_char :: "byte \<Rightarrow> byte \<Rightarrow> bool" where
  "star_char c x \<longleftrightarrow> x = c \<or> c = 0x2e"

lemma star_lang: "u \<in> item_lang (Star c) \<longleftrightarrow> list_all (star_char c) u"
proof (cases "c = 0x2e")
  case True
  then show ?thesis by (simp add: star_char_def list_all_iff)
next
  case False
  have "(\<exists>n. u = replicate n c) \<longleftrightarrow> (\<forall>x\<in>set u. x = c)" by (auto dest: replicate_length_same [symmetric])
  then show ?thesis using False by (simp add: star_char_def list_all_iff)
qed

lemma prefix_match_Star:
  "prefix_match (c # 0x2a # re) t \<longleftrightarrow> (\<exists>u v. t = u @ v \<and> list_all (star_char c) u \<and> prefix_match re v)"
proof -
  have l: "u \<in> lang (items (c # 0x2a # re)) \<longleftrightarrow> (\<exists>a b. u = a @ b \<and> list_all (star_char c) a \<and> b \<in> lang (items re))" for u
    by (auto simp: star_lang simp del: item_lang.simps)
  have n: "anchored (c # 0x2a # re) = anchored re" by simp
  show ?thesis unfolding prefix_match_def l n
  proof (intro iffI; elim exE conjE)
    fix u v a b assume "t = u @ v" "anchored re \<longrightarrow> v = []" "u = a @ b" "list_all (star_char c) a" "b \<in> lang (items re)"
    then show "\<exists>u v. t = u @ v \<and> list_all (star_char c) u \<and> (\<exists>u' v'. v = u' @ v' \<and> u' \<in> lang (items re) \<and> (anchored re \<longrightarrow> v' = []))"
      by (intro exI [of _ a] exI [of _ "b @ v"]) (simp, blast)
  next
    fix a s b v assume "t = a @ s" "list_all (star_char c) a" "s = b @ v" "b \<in> lang (items re)" "anchored re \<longrightarrow> v = []"
    then have "t = (a @ b) @ v \<and> (\<exists>x y. a @ b = x @ y \<and> list_all (star_char c) x \<and> y \<in> lang (items re)) \<and> (anchored re \<longrightarrow> v = [])"
      by auto
    then show "\<exists>u v. t = u @ v \<and> (\<exists>x y. u = x @ y \<and> list_all (star_char c) x \<and> y \<in> lang (items re)) \<and> (anchored re \<longrightarrow> v = [])"
      by blast
  qed
qed

lemma prefix_match_step:
  "prefix_match (c # 0x2a # re) t \<longleftrightarrow>
     prefix_match re t \<or> t \<noteq> [] \<and> star_char c (hd t) \<and> prefix_match (c # 0x2a # re) (tl t)"
proof
  assume "prefix_match (c # 0x2a # re) t"
  then obtain u v where "t = u @ v" "list_all (star_char c) u" "prefix_match re v" unfolding prefix_match_Star by blast
  then show "prefix_match re t \<or> t \<noteq> [] \<and> star_char c (hd t) \<and> prefix_match (c # 0x2a # re) (tl t)"
    unfolding prefix_match_Star by (cases u) auto
next
  assume "prefix_match re t \<or> t \<noteq> [] \<and> star_char c (hd t) \<and> prefix_match (c # 0x2a # re) (tl t)"
  then show "prefix_match (c # 0x2a # re) t"
  proof (elim disjE conjE)
    assume "prefix_match re t"
    then show ?thesis unfolding prefix_match_Star by (intro exI [of _ "[]"] exI [of _ t]) simp
  next
    assume t: "t \<noteq> []" "star_char c (hd t)" "prefix_match (c # 0x2a # re) (tl t)"
    then obtain u v where "tl t = u @ v" "list_all (star_char c) u" "prefix_match re v" unfolding prefix_match_Star by blast
    then show ?thesis unfolding prefix_match_Star using t(1,2) by (intro exI [of _ "hd t # u"] exI [of _ v]) (simp flip: \<open>tl t = u @ v\<close>)
  qed
qed

lemma prefix_match_char:
  "(\<exists>u v. t = u @ v \<and> u \<in> lang ((if c = 0x2e then Any else Lit c) # is) \<and> P v) \<longleftrightarrow>
     (\<exists>x t1. t = x # t1 \<and> (c = 0x2e \<or> c = x) \<and> (\<exists>u v. t1 = u @ v \<and> u \<in> lang is \<and> P v))" (is "?l \<longleftrightarrow> ?r")
proof
  assume ?l
  then obtain x u v where "t = x # u @ v" "c = 0x2e \<or> c = x" "u \<in> lang is" "P v" by (auto split: if_splits)
  then show ?r by blast
next
  assume ?r
  then obtain x u v where h: "t = x # u @ v" "c = 0x2e \<or> c = x" "u \<in> lang is" "P v" by auto
  have "[x] \<in> item_lang (if c = 0x2e then Any else Lit c)" using h(2) by auto
  then have "[x] @ u \<in> lang ((if c = 0x2e then Any else Lit c) # is)" unfolding lang.simps using h(3) by blast
  moreover have "t = ([x] @ u) @ v" using h(1) by simp
  ultimately show ?l using h(4) by blast
qed

lemma prefix_match_simps:
  "prefix_match [] t" "prefix_match [0x24] t \<longleftrightarrow> t = []"
  "c \<noteq> 0x24 \<Longrightarrow> prefix_match [c] t \<longleftrightarrow> (\<exists>x v. t = x # v \<and> (c = 0x2e \<or> c = x))"
  "d \<noteq> 0x2a \<Longrightarrow> prefix_match (c # d # re) t \<longleftrightarrow> (\<exists>x v. t = x # v \<and> (c = 0x2e \<or> c = x) \<and> prefix_match (d # re) v)"
proof -
  show "prefix_match [] t" "prefix_match [0x24] t \<longleftrightarrow> t = []" by (simp_all add: prefix_match_def)
  show "c \<noteq> 0x24 \<Longrightarrow> prefix_match [c] t \<longleftrightarrow> (\<exists>x v. t = x # v \<and> (c = 0x2e \<or> c = x))"
    using prefix_match_char [of t c "[]" "\<lambda>_. True"] by (simp add: prefix_match_def)
  assume "d \<noteq> 0x2a"
  then have "items (c # d # re) = (if c = 0x2e then Any else Lit c) # items (d # re)" "anchored (c # d # re) = anchored (d # re)" by simp_all
  then show "prefix_match (c # d # re) t \<longleftrightarrow> (\<exists>x v. t = x # v \<and> (c = 0x2e \<or> c = x) \<and> prefix_match (d # re) v)"
    unfolding prefix_match_def using prefix_match_char [of t c "items (d # re)" "\<lambda>v. anchored (d # re) \<longrightarrow> v = []"] by simp
qed

lemma matcher_language:
  "matchhere re t \<longleftrightarrow> prefix_match re t"
  "matchstar c re t \<longleftrightarrow> prefix_match (c # 0x2a # re) t"
proof (induction re t and c re t rule: matchhere_matchstar.induct)
  case (1 re t)
  show ?case
  proof (cases re)
    case (Cons c re1)
    show ?thesis
    proof (cases re1)
      case Nil
      then show ?thesis using Cons 1
        by (subst matchhere.simps) (auto simp: prefix_match_simps split: list.split)
    next
      case re1: (Cons d re2)
      then show ?thesis using Cons 1
        by (subst matchhere.simps) (auto simp: prefix_match_simps split: list.split)
    qed
  qed (simp add: matchhere.simps prefix_match_simps)
next
  case (2 c re t)
  then show ?case
    by (subst matchstar.simps, subst prefix_match_step) (auto simp: star_char_def split: list.split)
qed

lemma match_from_suffix: "match_from re t \<longleftrightarrow> (\<exists>p s. t = p @ s \<and> matchhere re s)"
proof (induction t)
  case (Cons x t)
  have "(\<exists>p s. x # t = p @ s \<and> matchhere re s) \<longleftrightarrow> matchhere re (x # t) \<or> (\<exists>p s. t = p @ s \<and> matchhere re s)"
    by (metis append_Cons append_Nil append_eq_Cons_conv)
  then show ?case using Cons by simp
qed simp

section \<open>Lines\<close>

lemma find_nl_None: "0 \<notin> set p \<Longrightarrow> find_nl p = None \<longleftrightarrow> 0x0a \<notin> set p"
  by (induction p) auto

lemma find_nl_line: "0 \<notin> set l \<Longrightarrow> 0x0a \<notin> set l \<Longrightarrow> find_nl (l @ 0x0a # p) = Some (length l)"
  by (induction l) auto

lemma find_nl_strchr:
  "(\<forall>i<length p. m (s + i) = p ! i) \<Longrightarrow> m (s + length p) = 0 \<Longrightarrow> strchr m s 0x0a = Some (map_option (\<lambda>i. s + i) (find_nl p))"
proof (induction p arbitrary: s)
  case Nil
  then show ?case by (subst strchr.simps) simp
next
  case (Cons c p)
  have c: "m s = c" using Cons.prems(1) by force
  have "\<forall>i<length p. m (s + 1 + i) = p ! i" using Cons.prems(1) by (auto simp: all_less_Suc_shift)
  then have ih: "strchr m (s + 1) 0x0a = Some (map_option (\<lambda>i. s + 1 + i) (find_nl p))"
    using Cons.IH [of "s + 1"] Cons.prems(2) by simp
  then show ?case using c by (subst strchr.simps) (auto simp: option.map_comp comp_def)
qed

text \<open>The output of \<^verbatim>\<open>grep\<close> on a list of lines.\<close>

definition matching :: "byte list \<Rightarrow> byte list list \<Rightarrow> byte list" where
  "matching pat lns = concat (map (\<lambda>l. l @ [0x0a]) (filter (match pat) lns))"

definition unlines :: "byte list list \<Rightarrow> byte list" where
  "unlines lns = concat (map (\<lambda>l. l @ [0x0a]) lns)"

definition is_line :: "byte list \<Rightarrow> bool" where
  "is_line l \<longleftrightarrow> 0 \<notin> set l \<and> 0x0a \<notin> set l"

lemma grep_lines_out:
  assumes "streams k fd inp out" "list_all is_line lns" "is_line r"
  shows "\<exists>w'. grep_lines k pat (unlines lns @ r) w = (r, w') \<and> inp w' = inp w \<and> out w' = out w @ matching pat lns"
  using assms(2)
proof (induction lns arbitrary: w)
  case Nil
  have "find_nl r = None" using assms(3) find_nl_None [of r] by (simp add: is_line_def)
  then show ?case by (subst grep_lines.simps) (simp add: unlines_def matching_def)
next
  case (Cons l lns)
  define w1 where "w1 = (if match pat l then snd (u_write k 1 (l @ [0x0a]) w) else w)"
  have f: "find_nl (unlines (l # lns) @ r) = Some (length l)"
    using Cons.prems find_nl_line [of l "unlines lns @ r"] by (simp add: unlines_def is_line_def)
  have "grep_lines k pat (unlines (l # lns) @ r) w = grep_lines k pat (unlines lns @ r) w1"
    by (subst grep_lines.simps) (simp add: f w1_def, simp add: unlines_def)
  moreover have "inp w1 = inp w" "out w1 = out w @ (if match pat l then l @ [0x0a] else [])"
    using streams_write [OF assms(1), of "l @ [0x0a]" w] by (cases "u_write k 1 (l @ [0x0a]) w"; simp add: w1_def)+
  ultimately show ?case using Cons.IH [of w1] Cons.prems by (auto simp: matching_def)
qed

lemma line_eq: "0x0a \<notin> set l \<Longrightarrow> 0x0a \<notin> set l' \<Longrightarrow> l @ 0x0a # a = l' @ 0x0a # b \<Longrightarrow> l = l' \<and> a = b"
proof (induction l arbitrary: l')
  case Nil
  then show ?case by (cases l') auto
next
  case (Cons x l)
  then show ?case by (cases l') auto
qed

lemma unlines_prefix:
  assumes "list_all is_line ls1" "list_all is_line lns" "is_line r" "unlines ls1 @ y = unlines lns @ r"
  shows "\<exists>ls2. lns = ls1 @ ls2 \<and> y = unlines ls2 @ r"
  using assms
proof (induction ls1 arbitrary: lns)
  case (Cons l ls1)
  have "lns \<noteq> []"
  proof
    assume "lns = []"
    then have "0x0a \<in> set r" using arg_cong [OF Cons.prems(4), of set] by (auto simp: unlines_def)
    then show False using Cons.prems(3) by (simp add: is_line_def)
  qed
  then obtain l' lns' where l': "lns = l' # lns'" by (cases lns) auto
  have "l = l' \<and> unlines ls1 @ y = unlines lns' @ r"
    by (rule line_eq) (use Cons.prems in \<open>simp_all add: l' unlines_def is_line_def\<close>)
  then show ?case using Cons.IH [of lns'] Cons.prems by (auto simp: l')
qed (simp add: unlines_def)

lemma split_lines: "0 \<notin> set xs \<Longrightarrow> \<exists>lns r. xs = unlines lns @ r \<and> list_all is_line lns \<and> is_line r"
proof (induction xs)
  case Nil
  then show ?case by (intro exI [of _ "[]"]) (simp add: unlines_def is_line_def)
next
  case (Cons x xs)
  then obtain lns r where h: "xs = unlines lns @ r" "list_all is_line lns" "is_line r" by auto
  show ?case
  proof (cases "x = 0x0a")
    case True
    then show ?thesis using h by (intro exI [of _ "[] # lns"] exI [of _ r]) (simp add: unlines_def, simp add: is_line_def)
  next
    case False
    show ?thesis
    proof (cases lns)
      case Nil
      then show ?thesis using h False Cons.prems by (intro exI [of _ "[]"] exI [of _ "x # r"]) (simp add: unlines_def is_line_def)
    next
      case (Cons l lns1)
      then show ?thesis using h False Cons.prems \<open>0 \<notin> set (x # xs)\<close> by (intro exI [of _ "(x # l) # lns1"] exI [of _ r])
        (simp add: unlines_def, simp add: is_line_def [of l] is_line_def [of "x # l"])
    qed
  qed
qed

lemma short_line:
  assumes "is_line p" "p @ y = unlines (l # lns) @ r"
  shows "length p \<le> length l"
proof (rule ccontr)
  assume "\<not> length p \<le> length l"
  then have "p ! length l = (p @ y) ! length l" by (simp add: nth_append)
  also have "\<dots> = 0x0a" unfolding assms(2) by (simp add: unlines_def nth_append)
  finally show False using assms(1) \<open>\<not> length p \<le> length l\<close> by (auto simp: is_line_def in_set_conv_nth)
qed

lemma grep_out:
  assumes "streams k fd inp out" "list_all is_line lns" "is_line r" "list_all (\<lambda>l. length l < 1023) lns"
    "is_line p" "length p \<le> 1023" "p @ inp w = unlines lns @ r"
  shows "\<exists>w'. grep k pat fd p w = Some w' \<and> out w' = out w @ matching pat lns"
  using assms(2,4-7)
proof (induction "length (inp w)" arbitrary: lns p w rule: less_induct)
  case less
  obtain n d w1 where rd: "u_read k fd (1024 - length p - 1) w = ((n, d), w1)" by (metis prod_cases3 surj_pair)
  note s = streams_read [OF assms(1) rd]
  show ?case
  proof (cases "d = []")
    case True
    then have e: "grep k pat fd p w = Some w1" using rd s(1) by (subst grep.simps) simp
    have "length p = 1023 \<or> inp w = []" using s(5) True less.prems(4) by force
    then have "lns = []"
    proof
      assume "length p = 1023"
      then show ?thesis using short_line [OF less.prems(3)] less.prems(2,5) by (cases lns) fastforce+
    next
      assume "inp w = []"
      then have "lns \<noteq> [] \<Longrightarrow> 0x0a \<in> set p" using less.prems(5) by (cases lns) (auto simp: unlines_def)
      then show ?thesis using less.prems(3) by (auto simp: is_line_def)
    qed
    then show ?thesis using e s(4) by (simp add: matching_def)
  next
    case False
    have z: "0 \<notin> set (p @ d)"
    proof -
      have "0 \<notin> set (unlines lns @ r)" using less.prems(1) assms(3) by (auto simp: unlines_def is_line_def list_all_iff)
      then show ?thesis unfolding less.prems(5) [symmetric] s(3) by simp
    qed
    obtain l1 p1 where h: "p @ d = unlines l1 @ p1" "list_all is_line l1" "is_line p1" using split_lines [OF z] by blast
    have "unlines l1 @ (p1 @ inp w1) = unlines lns @ r" using less.prems(5) s(3) h(1) by (metis append.assoc)
    from unlines_prefix [OF h(2) less.prems(1) assms(3) this] obtain l2 where
      l2: "lns = l1 @ l2" "p1 @ inp w1 = unlines l2 @ r" by blast
    obtain w2 where g: "grep_lines k pat (p @ d) w1 = (p1, w2)" "inp w2 = inp w1" "out w2 = out w1 @ matching pat l1"
      using grep_lines_out [OF assms(1) h(2,3)] h(1) by metis
    have "length (p @ d) \<le> 1023" using s(2) less.prems(4) by simp
    then have "length p1 \<le> 1023" unfolding h(1) by simp
    then obtain w' where "grep k pat fd p1 w2 = Some w' \<and> out w' = out w2 @ matching pat l2"
      using less.hyps [of w2 l2 p1] l2 g(2) h(3) less.prems(1,2) s(3) False by auto
    moreover have "grep k pat fd p w = grep k pat fd p1 w2" using rd s(1) False g(1) by (subst grep.simps) simp
    ultimately show ?thesis using g(3) s(4) l2(1) by (auto simp: matching_def)
  qed
qed

text \<open>A text contains a string of the pattern, from its start after \<^verbatim>\<open>^\<close>, up to its end before \<^verbatim>\<open>$\<close>.\<close>

definition contains :: "byte list \<Rightarrow> byte list \<Rightarrow> bool" where
  "contains pat t \<longleftrightarrow>
     (let caret = (pat \<noteq> [] \<and> hd pat = 0x5e); re = (if caret then tl pat else pat) in
      \<exists>a u v. t = a @ u @ v \<and> u \<in> lang (items re) \<and> (caret \<longrightarrow> a = []) \<and> (anchored re \<longrightarrow> v = []))"

lemma match_contains: "match pat t \<longleftrightarrow> contains pat t"
proof (cases "pat \<noteq> [] \<and> hd pat = 0x5e")
  case True
  then show ?thesis by (simp add: match_def contains_def matcher_language prefix_match_def Let_def)
next
  case False
  have c: "(pat \<noteq> [] \<and> hd pat = 0x5e) = False" using False by blast
  have "(\<exists>a s. t = a @ s \<and> matchhere pat s) \<longleftrightarrow>
      (\<exists>a u v. t = a @ u @ v \<and> u \<in> lang (items pat) \<and> (anchored pat \<longrightarrow> v = []))"
    unfolding matcher_language prefix_match_def by metis
  then show ?thesis unfolding match_def contains_def match_from_suffix Let_def c by (simp only: if_False simp_thms)
qed

section \<open>Properties\<close>

text \<open>
  C39. \<^verbatim>\<open>grep\<close> on an input that ends returns, and has printed exactly the lines that contain a string of
  the language of the pattern, in order, however the reads cut the input; this needs that no line
  before the last newline is longer than its buffer and no byte is NUL. A last line without a newline
  is not printed.
\<close>

theorem grep_prints_matching_lines:
  assumes "streams k fd inp out" "list_all is_line lns" "is_line r" "list_all (\<lambda>l. length l < 1023) lns" "inp w = unlines lns @ r"
  shows "\<exists>w'. grep k pat fd [] w = Some w' \<and> out w' = out w @ unlines (filter (contains pat) lns)"
proof -
  have m: "match pat = contains pat" by (rule ext) (rule match_contains)
  have "is_line []" "length ([] :: byte list) \<le> 1023" "[] @ inp w = unlines lns @ r" using assms(5) by (simp_all add: is_line_def)
  from grep_out [OF assms(1-4) this, of pat] show ?thesis unfolding matching_def m unlines_def .
qed

text \<open>Witness for C39: one of two lines matches.\<close>

theorem grep_prints_matching_lines_witness:
  "\<exists>w'. grep (tape_sys 3) (asc ''^a.*c$'') 0 [] \<lparr>t_in = unlines [asc ''abbc'', asc ''b''], t_out = []\<rparr> = Some w' \<and>
     t_out w' = unlines (filter (contains (asc ''^a.*c$'')) [asc ''abbc'', asc ''b''])"
proof -
  have l: "list_all is_line [asc ''abbc'', asc ''b'']" "is_line []" "list_all (\<lambda>l. length l < 1023) [asc ''abbc'', asc ''b'']"
    by (simp_all add: is_line_def asc_def)
  show ?thesis
    using grep_prints_matching_lines [OF tape_streams [of 3 0] l, of "\<lparr>t_in = unlines [asc ''abbc'', asc ''b''], t_out = []\<rparr>" "asc ''^a.*c$''"]
    unfolding tape.simps append_Nil append_Nil2 by (metis zero_less_numeral)
qed

end
