(* ===== verification/Grind.thy ===== *)
theory Grind
  imports Prelude
begin

text \<open>
  The random number generator of \<^verbatim>\<open>user/grind.c\<close>, which computes a product modulo \<open>2^31 - 1\<close> without
  forming it. \<^verbatim>\<open>long\<close> has 64 bits, so that the intermediate values, which stay below \<open>2^31\<close> in absolute
  value, are the integers. The program that uses it, a stress test, is not modelled.
\<close>

section \<open>Definitions\<close>

definition do_rand :: "uint64 \<Rightarrow> int \<times> uint64" where
  "do_rand ctx =
     (let x = uint ctx mod 0x7ffffffe + 1;
          hi = x div 127773;
          lo = x mod 127773;
          x1 = 16807 * lo - 2836 * hi;
          x2 = (if x1 < 0 then x1 + 0x7fffffff else x1);
          x3 = x2 - 1
      in (x3, word_of_int x3))"

definition grind_rand :: "uint64 \<Rightarrow> int \<times> uint64" where
  "grind_rand rand_next = do_rand rand_next"

section \<open>Schrage's method\<close>

lemma schrage:
  fixes x :: int
  assumes "0 < x" "x < 0x7fffffff"
  defines "y \<equiv> 16807 * (x mod 127773) - 2836 * (x div 127773)"
  shows "(if y < 0 then y + 0x7fffffff else y) = 16807 * x mod 0x7fffffff" "0 < 16807 * x mod 0x7fffffff"
proof -
  have e: "16807 * x = y + 0x7fffffff * (x div 127773)"
    unfolding y_def using mult_div_mod_eq [of 127773 x] by linarith
  then have m: "16807 * x mod 0x7fffffff = y mod 0x7fffffff" by simp
  have b: "0 \<le> x div 127773" "x div 127773 \<le> 16807" "0 \<le> x mod 127773" "x mod 127773 < 127773"
    using assms(1,2) zdiv_mono1 [of x "0x7fffffff" 127773] by (simp_all add: pos_imp_zdiv_nonneg_iff)
  then have r: "- 0x7fffffff < y" "y < 0x7fffffff" unfolding y_def by linarith+
  have c: "coprime (0x7fffffff :: int) 16807" by (simp add: coprime_iff_gcd_eq_1 gcd_non_0_int)
  have "\<not> 0x7fffffff dvd 16807 * x"
  proof
    assume "0x7fffffff dvd 16807 * x"
    then have "0x7fffffff dvd x" using c coprime_dvd_mult_right_iff by blast
    then show False using assms(1,2) zdvd_imp_le by fastforce
  qed
  then show "0 < 16807 * x mod 0x7fffffff" by (simp add: dvd_eq_mod_eq_0 less_le)
  show "(if y < 0 then y + 0x7fffffff else y) = 16807 * x mod 0x7fffffff"
  proof (cases "y < 0")
    case True
    then have "(y + 0x7fffffff) mod 0x7fffffff = y + 0x7fffffff" using r by (intro mod_pos_pos_trivial) simp_all
    then show ?thesis using True m by simp
  next
    case False
    then show ?thesis using r m by (simp add: mod_pos_pos_trivial)
  qed
qed

section \<open>Properties\<close>


end
