(* ===== verification/Vqueue.thy ===== *)
theory Vqueue
  imports Virtio
begin

unbundle bit_operations_syntax

text \<open>
  The protocol between the disk driver of theory \<open>Virtio\<close>, its callers and the device, as a step
  relation: requests are submitted, completed by the device in any order, reported by an interrupt and
  finished by the process that waited.  In every reachable state the descriptors are divided among the
  free ones and the requests in progress, and no operation of the driver panics.
\<close>

section \<open>Requests in progress\<close>

text \<open>
  \<open>rqs i0\<close> is the request whose first descriptor is \<open>i0\<close>: its other descriptors and its buffer.  \<open>atdev\<close>
  are the requests the device has not completed, \<open>completed\<close> those completed and not yet reported, in order.
\<close>

record vsys =
  vd :: vdisk
  rqs :: "nat \<Rightarrow> (nat \<times> nat \<times> nat) option"
  atdev :: "nat set"
  completed :: "nat list"

definition owned :: "(nat \<Rightarrow> (nat \<times> nat \<times> nat) option) \<Rightarrow> nat set" where
  "owned R = {i. \<exists>i0 i1 i2 b. R i0 = Some (i1, i2, b) \<and> i \<in> {i0, i1, i2}}"

definition chain_ok :: "vdisk \<Rightarrow> nat \<Rightarrow> nat \<Rightarrow> nat \<Rightarrow> nat \<Rightarrow> bool" where
  "chain_ok d i0 i1 i2 b \<longleftrightarrow> distinct [i0, i1, i2] \<and> i0 < NUM \<and> i1 < NUM \<and> i2 < NUM \<and>
     d_flags (vd_desc d i0) AND VRING_DESC_F_NEXT \<noteq> 0 \<and> d_next (vd_desc d i0) = of_nat i1 \<and>
     d_flags (vd_desc d i1) AND VRING_DESC_F_NEXT \<noteq> 0 \<and> d_next (vd_desc d i1) = of_nat i2 \<and>
     d_flags (vd_desc d i2) AND VRING_DESC_F_NEXT = 0 \<and> vd_info_b d i0 = Some b"

definition apart :: "(nat \<Rightarrow> (nat \<times> nat \<times> nat) option) \<Rightarrow> bool" where
  "apart R \<longleftrightarrow> (\<forall>i0 i1 i2 b j0 j1 j2 c. R i0 = Some (i1, i2, b) \<and> R j0 = Some (j1, j2, c) \<and> i0 \<noteq> j0 \<longrightarrow>
     {i0, i1, i2} \<inter> {j0, j1, j2} = {} \<and> b \<noteq> c)"

definition free_ok :: "vdisk \<Rightarrow> (nat \<Rightarrow> (nat \<times> nat \<times> nat) option) \<Rightarrow> bool" where
  "free_ok d R \<longleftrightarrow> (\<forall>i<NUM. vd_free d i \<longleftrightarrow> i \<notin> owned R)"

definition chains_ok :: "vdisk \<Rightarrow> (nat \<Rightarrow> (nat \<times> nat \<times> nat) option) \<Rightarrow> nat set \<Rightarrow> bool" where
  "chains_ok d R busy \<longleftrightarrow>
     (\<forall>i0 i1 i2 b. R i0 = Some (i1, i2, b) \<longrightarrow> chain_ok d i0 i1 i2 b \<and> (b_disk d b \<longleftrightarrow> i0 \<in> busy))"

definition used_ok :: "vdisk \<Rightarrow> nat list \<Rightarrow> bool" where
  "used_ok d cs \<longleftrightarrow> vd_used_dev d = vd_used_idx d + of_nat (length cs) \<and>
     (\<forall>k<length cs. unat (vd_used_ring d (unat (vd_used_idx d + of_nat k) mod NUM)) = cs ! k \<and> vd_info_status d (cs ! k) = 0)"

definition books_ok :: "(nat \<Rightarrow> (nat \<times> nat \<times> nat) option) \<Rightarrow> nat set \<Rightarrow> nat list \<Rightarrow> bool" where
  "books_ok R A cs \<longleftrightarrow> apart R \<and> A \<subseteq> dom R \<and> set cs \<subseteq> dom R \<and> A \<inter> set cs = {} \<and> distinct cs"

definition queue_inv :: "vsys \<Rightarrow> bool" where
  "queue_inv v \<longleftrightarrow> free_ok (vd v) (rqs v) \<and> chains_ok (vd v) (rqs v) (atdev v \<union> set (completed v)) \<and>
     used_ok (vd v) (completed v) \<and> books_ok (rqs v) (atdev v) (completed v)"

section \<open>Steps\<close>

text \<open>
  A buffer has one request at a time, as its sleep lock ensures.  The device completes a request by
  storing its status, and its first descriptor in the used ring.
\<close>

inductive vstep :: "vsys \<Rightarrow> vsys \<Rightarrow> bool" where
  submit: "\<lbrakk>virtio_submit b blockno write (vd v) = Ok (Some i0, d);
            \<forall>j0 j1 j2 c. rqs v j0 = Some (j1, j2, c) \<longrightarrow> c \<noteq> b;
            i1 = unat (d_next (vd_desc d i0)); i2 = unat (d_next (vd_desc d i1))\<rbrakk> \<Longrightarrow>
     vstep v (v\<lparr>vd := d, rqs := (rqs v)(i0 \<mapsto> (i1, i2, b)), atdev := insert i0 (atdev v)\<rparr>)"
| full: "virtio_submit b blockno write (vd v) = Ok (None, d) \<Longrightarrow> vstep v (v\<lparr>vd := d\<rparr>)"
| complete: "i0 \<in> atdev v \<Longrightarrow>
     vstep v (v\<lparr>vd := (vd v)\<lparr>vd_used_ring := (vd_used_ring (vd v))(unat (vd_used_dev (vd v)) mod NUM := of_nat i0),
                             vd_used_dev := vd_used_dev (vd v) + 1, vd_info_status := (vd_info_status (vd v))(i0 := 0)\<rparr>,
                atdev := atdev v - {i0}, completed := completed v @ [i0]\<rparr>)"
| interrupt: "virtio_disk_intr status (vd v) = Ok d \<Longrightarrow> vstep v (v\<lparr>vd := d, completed := []\<rparr>)"
| finish: "\<lbrakk>rqs v i0 = Some (i1, i2, b); virtio_finish b i0 (vd v) = Ok d\<rbrakk> \<Longrightarrow>
     vstep v (v\<lparr>vd := d, rqs := (rqs v)(i0 := None)\<rparr>)"

inductive vreach :: "vsys \<Rightarrow> vsys \<Rightarrow> bool" where
  refl: "vreach v v"
| step: "vreach v w \<Longrightarrow> vstep w x \<Longrightarrow> vreach v x"

text \<open>After \<^verbatim>\<open>virtio_disk_init\<close> all descriptors are free and no request is in progress.\<close>

definition vinit :: "vdisk \<Rightarrow> bool" where
  "vinit d \<longleftrightarrow> (\<forall>i<NUM. vd_free d i) \<and> vd_used_dev d = vd_used_idx d"

section \<open>Allocating three descriptors\<close>

lemma alloc_desc_cases:
  obtains "alloc_desc d = (None, d)" "\<forall>i<NUM. \<not> vd_free d i"
    | i where "alloc_desc d = (Some i, d\<lparr>vd_free := (vd_free d)(i := False)\<rparr>)" "i < NUM" "vd_free d i"
proof (cases "find (vd_free d) [0..<NUM]")
  case None
  then show ?thesis by (intro that(1)) (simp_all add: alloc_desc_def find_upt_None [symmetric])
next
  case (Some i)
  then have "i < NUM" "vd_free d i" by (simp_all add: find_upt_Some)
  then show ?thesis using Some by (intro that(2)) (simp_all add: alloc_desc_def)
qed

text \<open>A change of the descriptors that matters to nobody: of free ones, and of the record of wakeups.\<close>

definition same_queue :: "vdisk \<Rightarrow> vdisk \<Rightarrow> bool" where
  "same_queue d d' \<longleftrightarrow> (\<exists>ds ws. d' = d\<lparr>vd_desc := ds, vd_wakes := ws\<rparr> \<and> (\<forall>i. i < NUM \<and> \<not> vd_free d i \<longrightarrow> ds i = vd_desc d i))"

lemma same_queueI:
  assumes "\<forall>i. i < NUM \<and> \<not> vd_free d i \<longrightarrow> ds i = vd_desc d i"
  shows "same_queue d (d\<lparr>vd_desc := ds, vd_wakes := ws\<rparr>)"
  unfolding same_queue_def using assms by blast

lemma few_free:
  assumes "\<forall>i<NUM. vd_free d i \<longrightarrow> i \<in> set xs" "length xs < 3"
  shows "card {i. i < NUM \<and> vd_free d i} < 3"
proof -
  have "card {i. i < NUM \<and> vd_free d i} \<le> card (set xs)" using assms(1) by (intro card_mono) auto
  then show ?thesis using card_length [of xs] assms(2) by linarith
qed

lemma alloc3_desc_cases:
  obtains d' where "alloc3_desc d = Ok (None, d')" "same_queue d d'" "card {i. i < NUM \<and> vd_free d i} < 3"
    | i0 i1 i2 where "alloc3_desc d = Ok (Some [i0, i1, i2], d\<lparr>vd_free := (vd_free d)(i0 := False, i1 := False, i2 := False)\<rparr>)"
        "distinct [i0, i1, i2]" "i0 < NUM" "i1 < NUM" "i2 < NUM" "vd_free d i0" "vd_free d i1" "vd_free d i2"
proof (cases d rule: alloc_desc_cases)
  case 1
  show thesis
  proof (rule that(1))
    show "alloc3_desc d = Ok (None, d)" by (simp add: alloc3_desc_def eval_nat_numeral 1(1))
    show "same_queue d d" using same_queueI [of d "vd_desc d" "vd_wakes d"] by simp
    show "card {i. i < NUM \<and> vd_free d i} < 3" by (rule few_free [of _ "[]"]) (use 1(2) in auto)
  qed
next
  case (2 i0)
  let ?d1 = "d\<lparr>vd_free := (vd_free d)(i0 := False)\<rparr>"
  show thesis
  proof (cases ?d1 rule: alloc_desc_cases)
    case 1
    show thesis
    proof (rule that(1))
      show "alloc3_desc d = Ok (None, d\<lparr>vd_desc := (vd_desc d)(i0 := null_desc), vd_wakes := vd_wakes d @ [ChanDisk]\<rparr>)"
        using 2(2,3) 1(1) by (simp add: alloc3_desc_def eval_nat_numeral 2(1) free_desc_def fun_upd_idem)
      show "same_queue d (d\<lparr>vd_desc := (vd_desc d)(i0 := null_desc), vd_wakes := vd_wakes d @ [ChanDisk]\<rparr>)"
        by (rule same_queueI) (use 2(3) in auto)
      show "card {i. i < NUM \<and> vd_free d i} < 3" by (rule few_free [of _ "[i0]"]) (use 1(2) in \<open>auto split: if_splits\<close>)
    qed
  next
    case a: (2 i1)
    let ?d2 = "?d1\<lparr>vd_free := (vd_free ?d1)(i1 := False)\<rparr>"
    have ne: "i1 \<noteq> i0" "vd_free d i1" using a(3) by (auto split: if_splits)
    show thesis
    proof (cases ?d2 rule: alloc_desc_cases)
      case 1
      let ?e = "d\<lparr>vd_desc := (vd_desc d)(i0 := null_desc, i1 := null_desc), vd_wakes := vd_wakes d @ [ChanDisk, ChanDisk]\<rparr>"
      show thesis
      proof (rule that(1))
        have "(vd_free d)(i0 := True, i1 := True) = vd_free d" using ne 2(3) by (simp add: fun_eq_iff)
        then show "alloc3_desc d = Ok (None, ?e)"
          using 2(2,3) a(1,2) ne 1(1) by (simp add: alloc3_desc_def eval_nat_numeral 2(1) free_desc_def fun_upd_twist)
        show "same_queue d ?e" by (rule same_queueI) (use 2(3) ne in auto)
        show "card {i. i < NUM \<and> vd_free d i} < 3" by (rule few_free [of _ "[i0, i1]"]) (use 1(2) in \<open>auto split: if_splits\<close>)
      qed
    next
      case c: (2 i2)
      then have n2: "i2 \<noteq> i0" "i2 \<noteq> i1" "vd_free d i2" by (auto split: if_splits)
      show thesis
      proof (rule that(2) [of i0 i1 i2])
        show "alloc3_desc d = Ok (Some [i0, i1, i2], d\<lparr>vd_free := (vd_free d)(i0 := False, i1 := False, i2 := False)\<rparr>)"
          using a(1) c(1) by (simp add: alloc3_desc_def eval_nat_numeral 2(1))
      qed (use 2 a c ne n2 in auto)
    qed
  qed
qed

section \<open>Submitting\<close>

lemma submit_cases:
  obtains d' where "virtio_submit b bn wr d = Ok (None, d')" "same_queue d d'" "card {i. i < NUM \<and> vd_free d i} < 3"
    | i0 i1 i2 where
        "virtio_submit b bn wr d =
           Ok (Some i0, vd_write 0x50 0 (format_req b bn wr i0 i1 i2 (d\<lparr>vd_free := (vd_free d)(i0 := False, i1 := False, i2 := False)\<rparr>)))"
        "distinct [i0, i1, i2]" "i0 < NUM" "i1 < NUM" "i2 < NUM" "vd_free d i0" "vd_free d i1" "vd_free d i2"
proof (cases d rule: alloc3_desc_cases)
  case (1 d')
  then show thesis by (intro that(1)) (simp_all add: virtio_submit_def)
next
  case (2 i0 i1 i2)
  then show thesis by (intro that(2) [of i0 i1 i2]) (simp_all add: virtio_submit_def)
qed

lemma owned_new: "R i0 = None \<Longrightarrow> owned (R(i0 \<mapsto> (i1, i2, b))) = owned R \<union> {i0, i1, i2}"
  unfolding owned_def by (auto split: if_splits) (metis option.distinct(1))+

lemma owned_upd: "owned (R(i0 := None)) \<subseteq> owned R"
  unfolding owned_def by (auto split: if_splits)

lemma ownedI: "R i0 = Some (i1, i2, b) \<Longrightarrow> i0 \<in> owned R \<and> i1 \<in> owned R \<and> i2 \<in> owned R"
  unfolding owned_def by blast

lemma flag_next: "(if wr then 0 else VRING_DESC_F_WRITE) OR VRING_DESC_F_NEXT AND VRING_DESC_F_NEXT \<noteq> 0"
  "((if wr then 0 else VRING_DESC_F_WRITE) OR VRING_DESC_F_NEXT) AND VRING_DESC_F_NEXT \<noteq> 0"
  "VRING_DESC_F_NEXT AND VRING_DESC_F_NEXT \<noteq> 0" "VRING_DESC_F_WRITE AND VRING_DESC_F_NEXT = 0"
  by (simp_all add: VRING_DESC_F_NEXT_def VRING_DESC_F_WRITE_def)

lemma unat_ushort: "i < NUM \<Longrightarrow> unat (of_nat i :: ushort) = i" "i < NUM \<Longrightarrow> unat (of_nat i :: uint) = i"
  by (simp_all add: NUM_def unat_of_nat)

lemma used_ok_cong:
  assumes "used_ok d cs" "vd_used_dev d' = vd_used_dev d" "vd_used_idx d' = vd_used_idx d" "vd_used_ring d' = vd_used_ring d"
    "\<And>i. i \<in> set cs \<Longrightarrow> vd_info_status d' i = vd_info_status d i"
  shows "used_ok d' cs"
  using assms nth_mem [of _ cs] unfolding used_ok_def by simp

lemma chain_okD:
  assumes "chains_ok d R busy" "R i0 = Some (i1, i2, b)"
  shows "chain_ok d i0 i1 i2 b" "b_disk d b \<longleftrightarrow> i0 \<in> busy"
  using assms unfolding chains_ok_def by blast+

lemma chain_ok_cong:
  assumes "chain_ok d i0 i1 i2 b" "\<And>i. i \<in> {i0, i1, i2} \<Longrightarrow> vd_desc d' i = vd_desc d i" "vd_info_b d' i0 = vd_info_b d i0"
  shows "chain_ok d' i0 i1 i2 b"
  using assms unfolding chain_ok_def by simp

lemma apart_new:
  assumes "apart R" "\<forall>j0 j1 j2 c. R j0 = Some (j1, j2, c) \<longrightarrow> c \<noteq> b \<and> {j0, j1, j2} \<inter> {i0, i1, i2} = {}"
  shows "apart (R(i0 \<mapsto> (i1, i2, b)))"
  unfolding apart_def
proof (intro allI impI)
  fix j0 j1 j2 c k0 k1 k2 e
  assume h: "(R(i0 \<mapsto> (i1, i2, b))) j0 = Some (j1, j2, c) \<and> (R(i0 \<mapsto> (i1, i2, b))) k0 = Some (k1, k2, e) \<and> j0 \<noteq> k0"
  show "{j0, j1, j2} \<inter> {k0, k1, k2} = {} \<and> c \<noteq> e"
  proof (cases "j0 = i0")
    case True
    then have "R k0 = Some (k1, k2, e)" "j1 = i1" "j2 = i2" "c = b" using h by auto
    from assms(2) [rule_format, OF this(1)] this show ?thesis using True by blast
  next
    case False
    then have j: "R j0 = Some (j1, j2, c)" using h by simp
    show ?thesis
    proof (cases "k0 = i0")
      case True
      then have "k1 = i1" "k2 = i2" "e = b" using h by auto
      with assms(2) [rule_format, OF j] True show ?thesis by blast
    next
      case False
      then have "R k0 = Some (k1, k2, e)" using h by simp
      with assms(1) j h show ?thesis unfolding apart_def by blast
    qed
  qed
qed

lemma submit_inv:
  assumes "queue_inv v" "distinct [i0, i1, i2]" "i0 < NUM" "i1 < NUM" "i2 < NUM"
    "vd_free (vd v) i0" "vd_free (vd v) i1" "vd_free (vd v) i2" "\<forall>j0 j1 j2 c. rqs v j0 = Some (j1, j2, c) \<longrightarrow> c \<noteq> b"
    and d_def: "d = vd_write 0x50 0 (format_req b bn wr i0 i1 i2 ((vd v)\<lparr>vd_free := (vd_free (vd v))(i0 := False, i1 := False, i2 := False)\<rparr>))"
  shows "queue_inv (v\<lparr>vd := d, rqs := (rqs v)(i0 \<mapsto> (i1, i2, b)), atdev := insert i0 (atdev v)\<rparr>)"
proof -
  let ?R = "rqs v" and ?e = "vd v"
  have inv: "free_ok ?e ?R" "chains_ok ?e ?R (atdev v \<union> set (completed v))" "used_ok ?e (completed v)" "books_ok ?R (atdev v) (completed v)"
    using assms(1) by (simp_all add: queue_inv_def)
  have n: "i0 \<notin> owned ?R" "i1 \<notin> owned ?R" "i2 \<notin> owned ?R" using inv(1) assms(3-8) unfolding free_ok_def by blast+
  then have r0: "?R i0 = None" using ownedI [of ?R i0] by (cases "?R i0") auto
  have own: "{j0, j1, j2} \<inter> {i0, i1, i2} = {}" if "?R j0 = Some (j1, j2, c)" for j0 j1 j2 c
    using ownedI [of ?R, OF that] n by blast
  have f: "vd_desc d j = vd_desc ?e j" if "j \<notin> {i0, i1, i2}" for j using that by (simp add: d_def vd_write_def format_req_def)
  have g: "vd_info_b d = (vd_info_b ?e)(i0 := Some b)" "b_disk d = (b_disk ?e)(b := True)" "vd_info_status d = (vd_info_status ?e)(i0 := 0xff)"
    "vd_used_dev d = vd_used_dev ?e" "vd_used_idx d = vd_used_idx ?e" "vd_used_ring d = vd_used_ring ?e"
    "vd_free d = (vd_free ?e)(i0 := False, i1 := False, i2 := False)"
    by (simp_all add: d_def vd_write_def format_req_def)
  have new: "chain_ok d i0 i1 i2 b"
    using assms(2-5) flag_next by (auto simp: chain_ok_def d_def vd_write_def format_req_def)
  have c0: "i0 \<notin> set (completed v)" using inv(4) r0 by (auto simp: books_ok_def)
  have "free_ok d (?R(i0 \<mapsto> (i1, i2, b)))"
    unfolding free_ok_def owned_new [of ?R i0, OF r0] g using inv(1) by (auto simp: free_ok_def)
  moreover have "chains_ok d (?R(i0 \<mapsto> (i1, i2, b))) (insert i0 (atdev v) \<union> set (completed v))"
    unfolding chains_ok_def
  proof (intro allI impI)
    fix j0 j1 j2 c assume h: "(?R(i0 \<mapsto> (i1, i2, b))) j0 = Some (j1, j2, c)"
    show "chain_ok d j0 j1 j2 c \<and> (b_disk d c \<longleftrightarrow> j0 \<in> insert i0 (atdev v) \<union> set (completed v))"
    proof (cases "j0 = i0")
      case True
      then show ?thesis using h new g(2) by simp
    next
      case False
      then have r: "?R j0 = Some (j1, j2, c)" using h by simp
      have "chain_ok d j0 j1 j2 c"
        by (rule chain_ok_cong [OF chain_okD(1) [OF inv(2) r]]) (use own [OF r] f g(1) False in auto)
      moreover have "c \<noteq> b" using assms(9) r by blast
      ultimately show ?thesis using chain_okD(2) [OF inv(2) r] False g(2) by simp
    qed
  qed
  moreover have "used_ok d (completed v)" by (rule used_ok_cong [OF inv(3)]) (use g c0 in auto)
  moreover have "books_ok (?R(i0 \<mapsto> (i1, i2, b))) (insert i0 (atdev v)) (completed v)"
    using inv(4) c0 apart_new [of ?R b i0 i1 i2] assms(9) own by (auto simp: books_ok_def)
  ultimately show ?thesis by (simp add: queue_inv_def)
qed

lemma same_queue_inv:
  assumes "queue_inv v" "same_queue (vd v) d"
  shows "queue_inv (v\<lparr>vd := d\<rparr>)"
proof -
  let ?R = "rqs v" and ?e = "vd v"
  have inv: "free_ok ?e ?R" "chains_ok ?e ?R (atdev v \<union> set (completed v))" "used_ok ?e (completed v)" "books_ok ?R (atdev v) (completed v)"
    using assms(1) by (simp_all add: queue_inv_def)
  obtain ds ws where d: "d = ?e\<lparr>vd_desc := ds, vd_wakes := ws\<rparr>" "\<forall>i. i < NUM \<and> \<not> vd_free ?e i \<longrightarrow> ds i = vd_desc ?e i"
    using assms(2) unfolding same_queue_def by blast
  have "chain_ok d j0 j1 j2 c \<and> (b_disk d c \<longleftrightarrow> j0 \<in> atdev v \<union> set (completed v))" if r: "?R j0 = Some (j1, j2, c)" for j0 j1 j2 c
  proof -
    note k = chain_okD [OF inv(2), of j0 j1 j2 c, OF r]
    have "j0 < NUM" "j1 < NUM" "j2 < NUM" using k(1) by (simp_all add: chain_ok_def)
    then have "\<forall>j\<in>{j0, j1, j2}. j < NUM \<and> \<not> vd_free ?e j" using ownedI [of ?R j0 j1 j2 c, OF r] inv(1) unfolding free_ok_def by blast
    then have "chain_ok d j0 j1 j2 c" using d(2) by (intro chain_ok_cong [OF k(1)]) (auto simp: d(1))
    then show ?thesis using k(2) by (simp add: d(1))
  qed
  then have "chains_ok d ?R (atdev v \<union> set (completed v))" unfolding chains_ok_def by blast
  moreover have "free_ok d ?R" using inv(1) by (simp add: free_ok_def d(1))
  moreover have "used_ok d (completed v)" by (rule used_ok_cong [OF inv(3)]) (simp_all add: d(1))
  ultimately show ?thesis using inv(4) by (simp add: queue_inv_def)
qed

section \<open>Completing and reporting\<close>

lemma ring_slot: "unat (u + of_nat k :: ushort) mod NUM = (unat u + k) mod NUM"
proof -
  have "unat (u + of_nat k) = (unat u + k) mod 2 ^ 16" by (simp add: unat_word_ariths unat_of_nat mod_simps)
  moreover have "NUM dvd 2 ^ 16" by (simp add: NUM_def)
  ultimately show ?thesis by (simp only: mod_mod_cancel)
qed

lemma slots_differ: "k < n \<Longrightarrow> n < NUM \<Longrightarrow> unat (u + of_nat k :: ushort) mod NUM \<noteq> unat (u + of_nat n :: ushort) mod NUM"
  unfolding ring_slot
proof
  assume "k < n" "n < NUM" "(unat u + k) mod NUM = (unat u + n) mod NUM"
  then have "NUM dvd (unat u + n) - (unat u + k)" by (subst mod_eq_dvd_iff_nat [symmetric]) simp_all
  then show False using \<open>k < n\<close> \<open>n < NUM\<close> by (auto dest: dvd_imp_le)
qed

lemma dom_bound:
  assumes "chains_ok d R busy"
  shows "dom R \<subseteq> {..<NUM}"
proof
  fix i assume "i \<in> dom R"
  then obtain j k b where "R i = Some (j, k, b)" by auto
  from chain_okD(1) [OF assms, of i j k b, OF this] show "i \<in> {..<NUM}" by (simp add: chain_ok_def)
qed

lemma completed_bound:
  assumes "chains_ok d R busy" "set cs \<subseteq> dom R" "distinct cs"
  shows "length cs \<le> NUM"
proof -
  have "length cs = card (set cs)" using assms(3) by (simp add: distinct_card)
  also have "\<dots> \<le> card {..<NUM}" by (intro card_mono) (use dom_bound [OF assms(1)] assms(2) in auto)
  finally show ?thesis by simp
qed

lemma complete_inv:
  assumes "queue_inv v" "i0 \<in> atdev v"
  shows "queue_inv (v\<lparr>vd := (vd v)\<lparr>vd_used_ring := (vd_used_ring (vd v))(unat (vd_used_dev (vd v)) mod NUM := of_nat i0),
                             vd_used_dev := vd_used_dev (vd v) + 1, vd_info_status := (vd_info_status (vd v))(i0 := 0)\<rparr>,
                atdev := atdev v - {i0}, completed := completed v @ [i0]\<rparr>)"
proof -
  let ?R = "rqs v" and ?e = "vd v" and ?cs = "completed v"
  let ?d = "?e\<lparr>vd_used_ring := (vd_used_ring ?e)(unat (vd_used_dev ?e) mod NUM := of_nat i0), vd_used_dev := vd_used_dev ?e + 1,
     vd_info_status := (vd_info_status ?e)(i0 := 0)\<rparr>"
  have inv: "free_ok ?e ?R" "chains_ok ?e ?R (atdev v \<union> set ?cs)" "used_ok ?e ?cs" "books_ok ?R (atdev v) ?cs"
    using assms(1) by (simp_all add: queue_inv_def)
  have b: "i0 \<notin> set ?cs" "set (?cs @ [i0]) \<subseteq> dom ?R" "distinct (?cs @ [i0])" using inv(4) assms(2) by (auto simp: books_ok_def)
  have l: "length ?cs < NUM" using completed_bound [OF inv(2) b(2,3)] by simp
  have i0: "i0 < NUM" using dom_bound [OF inv(2)] b(2) by auto
  have "(atdev v - {i0}) \<union> set (?cs @ [i0]) = atdev v \<union> set ?cs" using assms(2) by auto
  moreover have "chains_ok ?d ?R (atdev v \<union> set ?cs)" using inv(2) by (simp add: chains_ok_def chain_ok_def)
  ultimately have "chains_ok ?d ?R ((atdev v - {i0}) \<union> set (?cs @ [i0]))" by simp
  moreover have "used_ok ?d (?cs @ [i0])"
  proof -
    have u: "vd_used_dev ?e = vd_used_idx ?e + of_nat (length ?cs)" using inv(3) by (simp add: used_ok_def)
    have "unat (vd_used_ring ?d (unat (vd_used_idx ?e + of_nat k) mod NUM)) = (?cs @ [i0]) ! k \<and> vd_info_status ?d ((?cs @ [i0]) ! k) = 0"
      if k: "k < length (?cs @ [i0])" for k
    proof (cases "k < length ?cs")
      case True
      then have "unat (vd_used_idx ?e + of_nat k) mod NUM \<noteq> unat (vd_used_dev ?e) mod NUM" unfolding u by (rule slots_differ [OF _ l])
      then show ?thesis using True inv(3) b(1) by (auto simp: used_ok_def nth_append)
    next
      case False
      then have "k = length ?cs" using k by simp
      then show ?thesis using unat_ushort(2) [OF i0] by (simp add: u)
    qed
    then show ?thesis using u by (simp add: used_ok_def)
  qed
  moreover have "books_ok ?R (atdev v - {i0}) (?cs @ [i0])" using inv(4) b by (auto simp: books_ok_def)
  ultimately show ?thesis using inv(1) by (simp add: queue_inv_def free_ok_def)
qed

lemma intr_loop_ok:
  assumes "used_ok d cs" "length cs < 2 ^ 16" "\<forall>i\<in>set cs. vd_info_b d i = Some (f i)"
  shows "\<exists>ws. virtio_intr_loop (length cs) d =
    Ok (d\<lparr>b_disk := (\<lambda>b. b_disk d b \<and> b \<notin> f ` set cs), vd_wakes := ws, vd_used_idx := vd_used_dev d\<rparr>)"
  using assms
proof (induction cs arbitrary: d)
  case Nil
  then show ?case by (intro exI [of _ "vd_wakes d"]) (simp add: used_ok_def)
next
  case (Cons i cs)
  let ?d = "d\<lparr>b_disk := (b_disk d)(f i := False), vd_wakes := vd_wakes d @ [ChanBuf (f i)], vd_used_idx := vd_used_idx d + 1\<rparr>"
  have u: "vd_used_dev d = vd_used_idx d + of_nat (Suc (length cs))" using Cons.prems(1) by (simp add: used_ok_def)
  have "unat (of_nat (Suc (length cs)) :: ushort) = Suc (length cs)" using Cons.prems(2) by (simp add: unat_of_nat del: of_nat_Suc)
  then have "of_nat (Suc (length cs)) \<noteq> (0 :: ushort)" by (metis unat_0 nat.distinct(1))
  then have ne: "vd_used_idx d \<noteq> vd_used_dev d" unfolding u by simp
  have k: "unat (vd_used_ring d (unat (vd_used_idx d + of_nat k) mod NUM)) = (i # cs) ! k \<and> vd_info_status d ((i # cs) ! k) = 0"
    if "k < Suc (length cs)" for k using Cons.prems(1) that by (simp add: used_ok_def)
  have "used_ok ?d cs" using u k [of "Suc _"] by (auto simp: used_ok_def add.assoc)
  then obtain ws where "virtio_intr_loop (length cs) ?d =
      Ok (?d\<lparr>b_disk := (\<lambda>b. b_disk ?d b \<and> b \<notin> f ` set cs), vd_wakes := ws, vd_used_idx := vd_used_dev ?d\<rparr>)"
    using Cons.IH [of ?d] Cons.prems(2,3) by auto
  moreover have "virtio_intr_loop (length (i # cs)) d = virtio_intr_loop (length cs) ?d"
    using ne k [of 0] Cons.prems(3) by simp
  moreover have "(\<lambda>b. b_disk ?d b \<and> b \<notin> f ` set cs) = (\<lambda>b. b_disk d b \<and> b \<notin> f ` set (i # cs))" by auto
  ultimately show ?case by auto
qed

text \<open>An interrupt clears \<^verbatim>\<open>b->disk\<close> of all completed requests.\<close>

lemma interrupt_ok:
  assumes "queue_inv v"
  obtains d where "virtio_disk_intr status (vd v) = Ok d" "queue_inv (v\<lparr>vd := d, completed := []\<rparr>)"
    "\<forall>i0 i1 i2 b. rqs v i0 = Some (i1, i2, b) \<longrightarrow> (b_disk d b \<longleftrightarrow> i0 \<in> atdev v)"
proof -
  let ?R = "rqs v" and ?cs = "completed v" and ?f = "\<lambda>i. snd (snd (the (rqs v i)))"
  let ?e = "vd_write 0x64 (status AND 3) (vd v)"
  have inv: "free_ok (vd v) ?R" "chains_ok (vd v) ?R (atdev v \<union> set ?cs)" "used_ok (vd v) ?cs" "books_ok ?R (atdev v) ?cs"
    using assms by (simp_all add: queue_inv_def)
  have e: "used_ok ?e ?cs" by (rule used_ok_cong [OF inv(3)]) (simp_all add: vd_write_def)
  have sub: "set ?cs \<subseteq> dom ?R" and ap: "apart ?R" and dj: "atdev v \<inter> set ?cs = {}" and di: "distinct ?cs" using inv(4) by (simp_all add: books_ok_def)
  have l: "length ?cs < 2 ^ 16" using completed_bound [OF inv(2) sub di] by (simp add: NUM_def)
  have "\<forall>i\<in>set ?cs. vd_info_b ?e i = Some (?f i)"
  proof
    fix i assume "i \<in> set ?cs"
    then obtain j k b where r: "?R i = Some (j, k, b)" using sub by fastforce
    from chain_okD(1) [OF inv(2), of i j k b, OF r] show "vd_info_b ?e i = Some (?f i)" by (simp add: chain_ok_def r vd_write_def)
  qed
  from intr_loop_ok [OF e l this] obtain ws where
    k: "virtio_intr_loop (length ?cs) ?e = Ok (?e\<lparr>b_disk := (\<lambda>b. b_disk ?e b \<and> b \<notin> ?f ` set ?cs), vd_wakes := ws, vd_used_idx := vd_used_dev ?e\<rparr>)" ..
  let ?d = "?e\<lparr>b_disk := (\<lambda>b. b_disk ?e b \<and> b \<notin> ?f ` set ?cs), vd_wakes := ws, vd_used_idx := vd_used_dev ?e\<rparr>"
  have "vd_used_dev (vd v) - vd_used_idx (vd v) = of_nat (length ?cs)" using inv(3) by (simp add: used_ok_def)
  then have ok: "virtio_disk_intr status (vd v) = Ok ?d" using k l by (simp add: virtio_disk_intr_def unat_of_nat)
  have cl: "b_disk ?d b \<longleftrightarrow> i0 \<in> atdev v" if r: "?R i0 = Some (i1, i2, b)" for i0 i1 i2 b
  proof -
    have "b \<in> ?f ` set ?cs \<longleftrightarrow> i0 \<in> set ?cs"
    proof
      assume "b \<in> ?f ` set ?cs"
      then obtain j j1 j2 where "j \<in> set ?cs" "?R j = Some (j1, j2, b)" using sub by fastforce
      then show "i0 \<in> set ?cs" using ap r unfolding apart_def by blast
    qed (force simp: r)
    moreover have "b_disk ?e b \<longleftrightarrow> i0 \<in> atdev v \<union> set ?cs"
      using chain_okD(2) [OF inv(2), of i0 i1 i2 b, OF r] by (simp add: vd_write_def)
    ultimately show ?thesis using dj by auto
  qed
  have "chain_ok ?d i0 i1 i2 b" if "?R i0 = Some (i1, i2, b)" for i0 i1 i2 b
    by (rule chain_ok_cong [OF chain_okD(1) [OF inv(2), of i0 i1 i2 b, OF that]]) (simp_all add: vd_write_def)
  then have "chains_ok ?d ?R (atdev v)" unfolding chains_ok_def using cl by blast
  then have "queue_inv (v\<lparr>vd := ?d, completed := []\<rparr>)"
    using inv(1,4) by (simp add: queue_inv_def used_ok_def books_ok_def free_ok_def vd_write_def)
  then show thesis using ok cl by (intro that) blast+
qed

section \<open>Finishing\<close>

lemma free_chain_ok:
  assumes "chain_ok d i0 i1 i2 b" "\<not> vd_free d i0" "\<not> vd_free d i1" "\<not> vd_free d i2"
    "vd_desc e = vd_desc d" "vd_free e = vd_free d"
  shows "free_chain NUM i0 e = Ok (e\<lparr>vd_desc := (vd_desc e)(i0 := null_desc, i1 := null_desc, i2 := null_desc),
     vd_free := (vd_free e)(i0 := True, i1 := True, i2 := True), vd_wakes := vd_wakes e @ [ChanDisk, ChanDisk, ChanDisk]\<rparr>)"
proof -
  obtain k where n: "NUM = Suc (Suc (Suc k))" by (rule that [of 5]) (simp add: NUM_def)
  show ?thesis by (subst n) (use assms in \<open>simp add: chain_ok_def Let_def free_desc_def unat_ushort\<close>)
qed

lemma owned_remove:
  assumes "apart R" "R i0 = Some (i1, i2, b)"
  shows "owned (R(i0 := None)) = owned R - {i0, i1, i2}"
proof
  have "j \<notin> {i0, i1, i2}" if "j \<in> owned (R(i0 := None))" for j
  proof -
    obtain j0 j1 j2 c where "(R(i0 := None)) j0 = Some (j1, j2, c)" "j \<in> {j0, j1, j2}" using \<open>j \<in> owned _\<close> unfolding owned_def by blast
    moreover from this have "j0 \<noteq> i0" "R j0 = Some (j1, j2, c)" by (auto split: if_splits)
    ultimately show ?thesis using assms unfolding apart_def by blast
  qed
  then show "owned (R(i0 := None)) \<subseteq> owned R - {i0, i1, i2}" using owned_upd [of R i0] by blast
  show "owned R - {i0, i1, i2} \<subseteq> owned (R(i0 := None))"
  proof
    fix j assume j: "j \<in> owned R - {i0, i1, i2}"
    then obtain j0 j1 j2 c where h: "R j0 = Some (j1, j2, c)" "j \<in> {j0, j1, j2}" unfolding owned_def by blast
    moreover have "j0 \<noteq> i0" using h j assms(2) by auto
    ultimately show "j \<in> owned (R(i0 := None))" using ownedI [of "R(i0 := None)" j0 j1 j2 c] by auto
  qed
qed

lemma finish_ok:
  assumes "queue_inv v" and r: "rqs v i0 = Some (i1, i2, b)" and nb: "\<not> b_disk (vd v) b"
  obtains d where "virtio_finish b i0 (vd v) = Ok d" "queue_inv (v\<lparr>vd := d, rqs := (rqs v)(i0 := None)\<rparr>)"
    "vd_free d i0" "vd_free d i1" "vd_free d i2"
proof -
  let ?R = "rqs v" and ?e = "vd v" and ?R' = "(rqs v)(i0 := None)"
  have inv: "free_ok ?e ?R" "chains_ok ?e ?R (atdev v \<union> set (completed v))" "used_ok ?e (completed v)" "books_ok ?R (atdev v) (completed v)"
    using assms(1) by (simp_all add: queue_inv_def)
  have ap: "apart ?R" using inv(4) by (simp add: books_ok_def)
  note k = chain_okD [OF inv(2), of i0 i1 i2 b, OF r]
  have idle: "i0 \<notin> atdev v" "i0 \<notin> set (completed v)" using k(2) nb by auto
  have lt: "i0 < NUM" "i1 < NUM" "i2 < NUM" using k(1) by (simp_all add: chain_ok_def)
  then have nf: "\<not> vd_free ?e i0" "\<not> vd_free ?e i1" "\<not> vd_free ?e i2" using ownedI [of ?R i0 i1 i2 b, OF r] inv(1) unfolding free_ok_def by blast+
  let ?d = "?e\<lparr>vd_info_b := (vd_info_b ?e)(i0 := None), vd_desc := (vd_desc ?e)(i0 := null_desc, i1 := null_desc, i2 := null_desc),
     vd_free := (vd_free ?e)(i0 := True, i1 := True, i2 := True), vd_wakes := vd_wakes ?e @ [ChanDisk, ChanDisk, ChanDisk]\<rparr>"
  have ok: "virtio_finish b i0 ?e = Ok ?d" using nb by (simp add: virtio_finish_def free_chain_ok [OF k(1) nf])
  have "free_ok ?d ?R'" unfolding free_ok_def owned_remove [OF ap r] using inv(1) by (auto simp: free_ok_def)
  moreover have "chain_ok ?d j0 j1 j2 c \<and> (b_disk ?d c \<longleftrightarrow> j0 \<in> atdev v \<union> set (completed v))" if h: "?R' j0 = Some (j1, j2, c)" for j0 j1 j2 c
  proof -
    have ne: "j0 \<noteq> i0" and rj: "?R j0 = Some (j1, j2, c)" using h by (auto split: if_splits)
    have "{i0, i1, i2} \<inter> {j0, j1, j2} = {}" using ap r rj ne unfolding apart_def by blast
    then have "chain_ok ?d j0 j1 j2 c"
      using ne by (intro chain_ok_cong [OF chain_okD(1) [OF inv(2), of j0 j1 j2 c, OF rj]]) auto
    then show ?thesis using chain_okD(2) [OF inv(2), of j0 j1 j2 c, OF rj] by simp
  qed
  then have "chains_ok ?d ?R' (atdev v \<union> set (completed v))" unfolding chains_ok_def by blast
  moreover have "used_ok ?d (completed v)" by (rule used_ok_cong [OF inv(3)]) simp_all
  moreover have "apart ?R'" using ap unfolding apart_def by (metis fun_upd_apply option.distinct(1))
  moreover have "books_ok ?R' (atdev v) (completed v)" using inv(4) idle \<open>apart ?R'\<close> by (auto simp: books_ok_def)
  ultimately have "queue_inv (v\<lparr>vd := ?d, rqs := ?R'\<rparr>)" by (simp add: queue_inv_def)
  then show thesis by (intro that [OF ok]) auto
qed

lemma vstep_inv:
  assumes "vstep v w" "queue_inv v"
  shows "queue_inv w"
  using assms
proof (cases rule: vstep.cases)
  case (submit b bn wr i0 d i1 i2)
  note s = submit
  show ?thesis
  proof (cases b bn wr "vd v" rule: submit_cases)
    case (1 d') then show ?thesis using s(2) by simp
  next
    case (2 j0 j1 j2)
    have "i0 = j0" "d = vd_write 0x50 0 (format_req b bn wr j0 j1 j2 ((vd v)\<lparr>vd_free := (vd_free (vd v))(j0 := False, j1 := False, j2 := False)\<rparr>))"
      using s(2) 2(1) by auto
    moreover from this have "i1 = j1" "i2 = j2"
      using s(4,5) 2(2-5) by (simp_all add: vd_write_def format_req_def unat_ushort)
    ultimately show ?thesis using submit_inv [OF assms(2) 2(2-8) s(3)] s(1) by simp
  qed
next
  case (full b bn wr d)
  then show ?thesis
  proof (cases b bn wr "vd v" rule: submit_cases)
    case (1 d') then show ?thesis using full same_queue_inv [OF assms(2)] by simp
  next
    case 2 then show ?thesis using full(2) by simp
  qed
next
  case (complete i0)
  then show ?thesis using complete_inv [OF assms(2)] by simp
next
  case (interrupt status d)
  then show ?thesis using interrupt_ok [OF assms(2), of status] by (metis res.inject(1))
next
  case (finish i0 i1 i2 b d)
  then have "\<not> b_disk (vd v) b" by (auto simp: virtio_finish_def)
  then show ?thesis using finish_ok [OF assms(2) finish(2)] finish(1,3) by (metis res.inject(1))
qed

section \<open>The driver never panics\<close>

definition vstart :: "vdisk \<Rightarrow> vsys" where
  "vstart d = \<lparr>vd = d, rqs = Map.empty, atdev = {}, completed = []\<rparr>"

lemma disk_init_vinit:
  assumes "virtio_disk_init rd d s = Ok (d', s')" "vd_used_idx d = 0"
  shows "vinit d'"
proof -
  have p: "vd_used_idx d1 = 0" if "virtio_probe rd d = Ok (st, d1)" for st d1
    using that assms(2) by (auto simp: virtio_probe_def Let_def vd_write_def split: if_splits)
  show ?thesis using assms(1) p
    by (auto simp: virtio_disk_init_def Let_def vinit_def vd_write_def split: if_splits prod.splits elim!: bnd_eq_OkE)
qed

lemma vreach_inv:
  assumes "vreach v w" "queue_inv v"
  shows "queue_inv w"
  using assms by induction (auto intro: vstep_inv)

lemma vstart_inv: "vinit d \<Longrightarrow> queue_inv (vstart d)"
  by (simp add: queue_inv_def vstart_def vinit_def free_ok_def chains_ok_def used_ok_def books_ok_def apart_def owned_def)


definition vd_boot :: vdisk where
  "vd_boot = \<lparr>vd_desc = (\<lambda>_. null_desc), vd_avail_idx = 0, vd_avail_ring = (\<lambda>_. 0), vd_used_dev = 0, vd_used_ring = (\<lambda>_. 0),
     vd_free = (\<lambda>_. False), vd_used_idx = 0, vd_info_b = (\<lambda>_. None), vd_info_status = (\<lambda>_. 0),
     vd_ops = (\<lambda>_. \<lparr>rq_type = 0, rq_reserved = 0, rq_sector = 0\<rparr>), b_disk = (\<lambda>_. False), vd_regs = [], vd_wakes = []\<rparr>"

definition qemu_regs :: "(nat \<times> uint) list \<Rightarrow> nat \<Rightarrow> uint" where
  "qemu_regs w r = (if r = 0 then 0x74726976 else if r = 4 then 2 else if r = 8 then 2 else if r = 0xc then 0x554d4551
     else if r = 0x34 then 1024 else if r = 0x70 then 11 else 0)"

definition three_pages :: kmem where
  "three_pages = \<lparr>mem = wr64 (wr64 (\<lambda>_. 0) 0x81000000 0x81001000) 0x81001000 0x81002000, freelist = 0x81000000, kend = 0x80020000\<rparr>"

lemma boot_ok: "\<exists>d' s'. virtio_disk_init qemu_regs vd_boot three_pages = Ok (d', s') \<and> (\<forall>i<NUM. vd_free d' i) \<and>
   vd_used_dev d' = 0 \<and> vd_used_idx d' = 0"
  by (simp add: virtio_disk_init_def virtio_probe_def vd_boot_def qemu_regs_def three_pages_def kalloc_def Let_def vd_write_def NUM_def
      rd64_wr64_other)

lemma one_request:
  assumes "\<forall>i<NUM. vd_free d i" "queue_inv (vstart d)"
  obtains v where "vreach (vstart d) v" "rqs v = [0 \<mapsto> (1, 2, 5)]" "atdev v = {}" "completed v = []"
proof -
  have f: "vd_free d 0" "vd_free d (Suc 0)" "vd_free d 2" using assms(1) by (simp_all add: NUM_def)
  have n: "[0..<NUM] = 0 # 1 # 2 # [3..<8]" by (simp add: NUM_def upt_conv_Cons)
  let ?e = "vd_write 0x50 0 (format_req 5 3 True 0 1 2 (d\<lparr>vd_free := (vd_free d)(0 := False, 1 := False, 2 := False)\<rparr>))"
  have "alloc3_desc d = Ok (Some [0, 1, 2], d\<lparr>vd_free := (vd_free d)(0 := False, 1 := False, 2 := False)\<rparr>)"
    using f by (simp add: alloc3_desc_def numeral_3_eq_3 alloc_desc_def n)
  then have "virtio_submit 5 3 True (vd (vstart d)) = Ok (Some 0, ?e)" by (simp add: virtio_submit_def vstart_def)
  then have s: "vstep (vstart d) (vstart d\<lparr>vd := ?e, rqs := (rqs (vstart d))(0 \<mapsto> (1, 2, 5)), atdev := insert 0 (atdev (vstart d))\<rparr>)"
    by (rule vstep.submit) (simp_all add: vstart_def vd_write_def format_req_def)
  obtain w where w: "vreach (vstart d) w" "rqs w = [0 \<mapsto> (1, 2, 5)]" "atdev w = {0}"
    by (rule that [OF vreach.step [OF vreach.refl s]]) (simp_all add: vstart_def)
  have "0 \<in> atdev w" by (simp add: w(3))
  from vreach.step [OF w(1) vstep.complete [OF this]]
  obtain x where x: "vreach (vstart d) x" "rqs x = [0 \<mapsto> (1, 2, 5)]" "atdev x = {}" by (rule that) (simp_all add: w)
  obtain e where "virtio_disk_intr 1 (vd x) = Ok e" using interrupt_ok [OF vreach_inv [OF x(1) assms(2)]] .
  from vreach.step [OF x(1) vstep.interrupt [OF this]] show thesis by (rule that) (simp_all add: x)
qed


end
