(* ===== verification/Spec2Isabelle.thy ===== *)
theory Spec2Isabelle
  imports Trap Ckptmem Ckpterr Shrun Grep Grind Vqueue
begin

text \<open>
  \<^bold>\<open>The program.\<close>  xv6 for RISC-V, a small Unix kernel with its user programs, extended by two system calls:
  \<^verbatim>\<open>checkpoint\<close> writes the calling process to a file, \<^verbatim>\<open>restore\<close> makes a new process from such a file.  The
  development models the kernel (\<^verbatim>\<open>src/kernel\<close>) in the configuration the repository builds, \<^verbatim>\<open>LAB=syscall\<close>, and the
  library, shell and utilities under \<^verbatim>\<open>src/user\<close>.

  \<^bold>\<open>State and results.\<close>  A kernel function of type \<^verbatim>\<open>T\<close> is a function from the state to \<open>res\<close> (theory \<open>Prelude\<close>):
  \<open>Ok (value, state)\<close>, \<open>Panic\<close> with the message, or \<open>Wait\<close> where the code sleeps until another process or an
  interrupt wakes it; \<open>bnd\<close> is the semicolon.  The state is a chain of extensible records, each operation
  is defined on the scheme of the smallest record it needs and so works on all that extend it:
  \<open>kmem\<close> (physical memory as bytes, free list), \<open>kproc\<close> (process table, harts), \<open>klog\<close> (blocks in the cache and on
  the disk, log), \<open>kfs\<close> (super block, inode table), \<open>kcons\<close> (serial port and console), \<open>kfile\<close> (open files, pipes),
  \<open>ktrap\<close> (ticks, interrupt controller).  A critical section of a spin lock that does not sleep is one atomic step; the
  locks \<^verbatim>\<open>p->lock\<close> and \<^verbatim>\<open>wait_lock\<close>, on whose order properties depend, are explicit.  Where a function gives up
  the processor it is two functions, before and after the switch.  Integers are words of the width of the C type;
  process identifiers are unbounded integers.

  \<^bold>\<open>Theories and the code they model.\<close>

  \<^item> \<open>Prelude\<close>: C types, limits of \<^verbatim>\<open>param.h\<close>, results, little-endian access to bytes, the collections \<open>res_simps\<close>,
    \<open>byte_simps\<close> and \<open>param_defs\<close>.
  \<^item> \<open>Cstring\<close>: \<^verbatim>\<open>kernel/string.c\<close>, each loop equal to a closed form.
  \<^item> \<open>Kalloc\<close>: \<^verbatim>\<open>kernel/kalloc.c\<close>; the free list in memory as a list of pages, the locale \<open>page_allocator\<close> and its
    interpretation.
  \<^item> \<open>Spinlock\<close>, \<open>Sleeplock\<close>: \<^verbatim>\<open>spinlock.c\<close>, \<^verbatim>\<open>sleeplock.c\<close>; operations, and step relations of harts and processes that
    compete for them, with invariants by rule induction.
  \<^item> \<open>Procdata\<close>, \<open>Proc\<close>, \<open>Sysproc\<close>: \<^verbatim>\<open>proc.h\<close>, \<^verbatim>\<open>proc.c\<close>, \<^verbatim>\<open>syscall.c\<close>, \<^verbatim>\<open>sysproc.c\<close>.
    \<open>Memframe\<close>, \<open>Proctab\<close>, \<open>Procalloc\<close>, \<open>Procwait\<close>: what the memory routines leave alone, loops over the process table
    as searches, and creation, killing and reaping of processes.
  \<^item> \<open>Vm\<close>: \<^verbatim>\<open>vm.c\<close>.  \<open>Pagetable\<close> relates the three-level tables in memory to the map from addresses to entries,
    \<open>Addrspace\<close> has the user's view of memory and its growth, shrinking and copying.
  \<^item> \<open>Bio\<close>: \<^verbatim>\<open>bio.c\<close>, with the locale \<open>block_store\<close>: a cache of blocks behaves like the disk.
  \<^item> \<open>Xlog\<close>: \<^verbatim>\<open>log.c\<close>, with the trace of disk writes that a crash cuts at any point.
  \<^item> \<open>Fs\<close>: \<^verbatim>\<open>fs.c\<close>, \<^verbatim>\<open>fs.h\<close>.  \<open>Filemap\<close> and \<open>Filedata\<close> prove that the blocks an inode maps form an array of bytes,
    and how much of the log a write takes.
  \<^item> \<open>Printf\<close>, \<open>Uart\<close>, \<open>Console\<close>, \<open>Pipe\<close>, \<open>File\<close>: the files of these names; \<open>Ring\<close> has the locale of the ring buffers with
    wrapping indices that consoles and pipes share.
  \<^item> \<open>Exec\<close>, \<open>Sysfile\<close>: \<^verbatim>\<open>exec.c\<close>, \<^verbatim>\<open>elf.h\<close>, \<^verbatim>\<open>sysfile.c\<close>.
  \<^item> \<open>Checkpoint\<close>: \<^verbatim>\<open>checkpoint_proc\<close> and \<^verbatim>\<open>restore_proc\<close> of \<^verbatim>\<open>proc.c\<close>, the two routines of \<^verbatim>\<open>vm.c\<close> they use, the
    system calls of \<^verbatim>\<open>sysproc.c\<close>, and the layout of the header.  \<open>Ckptfds\<close>: descriptors and pipes.  \<open>Ckptmem\<close>: memory.
    \<open>Ckpterr\<close>: error exits.
  \<^item> \<open>Virtio\<close>: \<^verbatim>\<open>virtio_disk.c\<close>; \<open>Vqueue\<close>: the protocol between driver, callers and device as a step relation.
  \<^item> \<open>Trap\<close>: \<^verbatim>\<open>trap.c\<close>, \<^verbatim>\<open>plic.c\<close>, \<^verbatim>\<open>main.c\<close>, \<^verbatim>\<open>start.c\<close>.
  \<^item> \<open>Ulib\<close>: \<^verbatim>\<open>user/ulib.c\<close>, and the record \<open>usys\<close> of the system calls a program makes, a parameter of all user
    programs.  \<open>Uprogs\<close>: \<^verbatim>\<open>cat\<close>, \<^verbatim>\<open>wc\<close>, \<^verbatim>\<open>echo\<close>, \<^verbatim>\<open>ln\<close>, \<^verbatim>\<open>kill\<close>, \<^verbatim>\<open>mkdir\<close>, \<^verbatim>\<open>rm\<close>, \<^verbatim>\<open>ls\<close>.  \<open>Grep\<close>: \<^verbatim>\<open>grep\<close>.  \<open>Grind\<close>: the
    random numbers of \<^verbatim>\<open>grind\<close>.
  \<^item> \<open>Shparse\<close>, \<open>Shtree\<close>, \<open>Shrun\<close>: \<^verbatim>\<open>user/sh.c\<close>, its parser on the line buffer, the commands it yields, and their
    execution; the locale \<open>fd_table\<close> is interpreted on the kernel's table and on the shell's view of it.

  \<^bold>\<open>What is shown.\<close>  Checkpoints: the header read back is the header written; the descriptors and pipes of the
  process are recorded and rebuilt with the same sharing; the memory restored through the file is the memory
  checkpointed; what is refused, and two ways in which they panic.  Log: commits are atomic under crashes, recovery
  can be repeated, calls within their budget never overflow it.  Files: \<^verbatim>\<open>writei\<close> and \<^verbatim>\<open>readi\<close> are those of a byte
  array.  Buffer cache, pipes, console: refinements of a disk, of queues and of a line editor.  Memory: pages are handed
  out once, mappings and copies touch exactly what they should, growth succeeds or is undone.  Locks: mutual exclusion
  under every interleaving, no lost wakeup.  Processes: creation, killing, waiting.  Disk driver: no reachable panic.
  User side: the shell's parser ends and yields the words of the line, pipelines are wired as written, \<^verbatim>\<open>cat\<close>, \<^verbatim>\<open>wc\<close> and
  \<^verbatim>\<open>grep\<close> do to every input what they should, numbers print as the numerals that denote them.

  \<^bold>\<open>Bounds and fuel.\<close>  The parser of the shell recurses on fuel; \<open>parser_terminates\<close> shows that fuel linear in the length
  of the line is enough.  \<^verbatim>\<open>free_chain\<close> and the interrupt loop of the disk driver take as many rounds as there are
  descriptors, or new entries in the used ring, which is all there can be.  Loops of user programs that read until
  the input ends are partial functions, and their theorems state that they return.  All other loops terminate by a
  measure.

  \<^bold>\<open>Not modelled.\<close>  The assembly files (entry, trap vectors, context switch) and the accessors of control
  registers in \<^verbatim>\<open>riscv.h\<close>: the model starts where the C code has the registers as values.  The instructions of user
  programs between system calls.  Memory ordering between harts.  The test programs (\<^verbatim>\<open>usertests\<close>, \<^verbatim>\<open>forktest\<close>,
  \<^verbatim>\<open>stressfs\<close>, \<^verbatim>\<open>logstress\<close>, \<^verbatim>\<open>test_*\<close>, the driver of \<^verbatim>\<open>grind\<close>) and programs that exercise one situation by hand
  (\<^verbatim>\<open>zombie\<close>, \<^verbatim>\<open>forphan\<close>, \<^verbatim>\<open>dorphan\<close>, \<^verbatim>\<open>attack\<close>, \<^verbatim>\<open>secret\<close>, \<^verbatim>\<open>sandbox\<close>): they only call what is modelled, or a system call
  the kernel does not have.  The build files and grading scripts.
\<close>

end
